(* ===== verification/Prelude.thy ===== *)
theory Prelude
  imports Main "HOL-Library.Multiset" "HOL-Library.Word"
begin

text \<open>
  Shared ground of the development: the 64-bit integers of the database and of the Rust
  code, the propagation of errors (Rust's \<open>?\<close>), slices cut into chunks and the loops
  over them, and the generic lemmas the components use.

  A database integer is an \<open>int\<close> whose range is written out (\<open>in_i64\<close>); the checked
  and saturating operations of Rust's standard library are functions on it.
\<close>

named_theorems chunk_laws

type_synonym blob = "8 word list"
type_synonym utf8 = string

subsection \<open>64-bit integers\<close>

definition i64_max :: int where
  "i64_max = 9223372036854775807"

definition i64_min :: int where
  "i64_min = - 9223372036854775808"

definition in_i64 :: "int \<Rightarrow> bool" where
  "in_i64 n \<longleftrightarrow> i64_min \<le> n \<and> n \<le> i64_max"

definition i64_try_from :: "int \<Rightarrow> int option" where
  "i64_try_from n = (if in_i64 n then Some n else None)"

definition checked_add :: "int \<Rightarrow> int \<Rightarrow> int option" where
  "checked_add a b = (if in_i64 (a + b) then Some (a + b) else None)"

text \<open>Rust's \<open>i64::saturating_sub\<close> clamps at the ends of the signed range, not at zero.\<close>

definition i64_saturating_sub :: "int \<Rightarrow> int \<Rightarrow> int" where
  "i64_saturating_sub a b = max i64_min (min i64_max (a - b))"

text \<open>The cast \<open>as u64\<close> reinterprets the two's complement bits.\<close>

definition as_u64 :: "int \<Rightarrow> 64 word" where
  "as_u64 n = word_of_int n"

definition u64_max :: int where
  "u64_max = 18446744073709551615"

lemma i64_max_pos [simp]: "0 < i64_max" "0 \<le> i64_max"
  by (simp_all add: i64_max_def)

lemma i64_min_neg [simp]: "i64_min < 0" "i64_min \<le> 0"
  by (simp_all add: i64_min_def)

lemma in_i64_zero [simp]: "in_i64 0"
  by (simp add: in_i64_def)

lemma checked_add_Some [simp]:
  "checked_add a b = Some c \<longleftrightarrow> in_i64 (a + b) \<and> c = a + b"
  by (auto simp: checked_add_def)

lemma checked_add_None [simp]: "checked_add a b = None \<longleftrightarrow> \<not> in_i64 (a + b)"
  by (simp add: checked_add_def)

subsection \<open>Errors as values\<close>

text \<open>Rust's \<open>?\<close>: an error ends the function, a value is passed on.\<close>

fun and_then :: "'e + 'a \<Rightarrow> ('a \<Rightarrow> 'e + 'b) \<Rightarrow> 'e + 'b" where
  "and_then (Inl e) f = Inl e"
| "and_then (Inr x) f = f x"

fun ok_or :: "'a option \<Rightarrow> 'e \<Rightarrow> 'e + 'a" where
  "ok_or None e = Inl e"
| "ok_or (Some x) e = Inr x"

fun map_result :: "('a \<Rightarrow> 'e + 'b) \<Rightarrow> 'a list \<Rightarrow> 'e + 'b list" where
  "map_result f [] = Inr []"
| "map_result f (x # xs) =
     and_then (f x) (\<lambda>y. and_then (map_result f xs) (\<lambda>ys. Inr (y # ys)))"

lemma and_then_Inr_iff [simp]:
  "and_then r f = Inr y \<longleftrightarrow> (\<exists>x. r = Inr x \<and> f x = Inr y)"
  by (cases r) auto

lemma and_then_Inl_iff [simp]:
  "and_then r f = Inl e \<longleftrightarrow> r = Inl e \<or> (\<exists>x. r = Inr x \<and> f x = Inl e)"
  by (cases r) auto

lemma and_then_assoc: "and_then (and_then r f) g = and_then r (\<lambda>x. and_then (f x) g)"
  by (cases r) auto

lemma and_then_cong [fundef_cong]:
  "r = r' \<Longrightarrow> (\<And>x. r' = Inr x \<Longrightarrow> f x = g x) \<Longrightarrow> and_then r f = and_then r' g"
  by (cases r') auto

lemma ok_or_Inr_iff [simp]: "ok_or x e = Inr y \<longleftrightarrow> x = Some y"
  by (cases x) auto

lemma ok_or_Inl_iff [simp]: "ok_or x e = Inl e' \<longleftrightarrow> x = None \<and> e' = e"
  by (cases x) auto

lemma map_result_all_Inr:
  "(\<And>x. x \<in> set xs \<Longrightarrow> f x = Inr (g x)) \<Longrightarrow> map_result f xs = Inr (map g xs)"
  by (induction xs) auto

subsection \<open>Chunks of a slice\<close>

text \<open>\<open>xs.chunks(n)\<close>: consecutive pieces of \<open>n\<close> elements, the last one shorter.\<close>

function chunks :: "nat \<Rightarrow> 'a list \<Rightarrow> 'a list list" where
  "chunks n xs = (if xs = [] \<or> n = 0 then [] else take n xs # chunks n (drop n xs))"
  by pat_completeness auto
termination
  by (relation "measure (\<lambda>(n, xs). length xs)") auto

declare chunks.simps [simp del]

lemma chunks_Nil [simp]: "chunks n [] = []"
  by (simp add: chunks.simps)

lemma chunks_short: "xs \<noteq> [] \<Longrightarrow> length xs \<le> n \<Longrightarrow> chunks n xs = [xs]"
  by (cases "n = 0") (simp_all add: chunks.simps [of n xs])

lemma concat_chunks [simp]: "0 < n \<Longrightarrow> concat (chunks n xs) = xs"
proof (induction n xs rule: chunks.induct)
  case (1 n xs)
  then show ?case by (cases "xs = []") (simp_all add: chunks.simps [of n xs])
qed

lemma chunks_length: "ys \<in> set (chunks n xs) \<Longrightarrow> length ys \<le> n"
proof (induction n xs rule: chunks.induct)
  case (1 n xs)
  then show ?case by (auto simp: chunks.simps [of n xs] split: if_splits)
qed

lemma chunks_nonempty: "ys \<in> set (chunks n xs) \<Longrightarrow> ys \<noteq> []"
  by (induction n xs rule: chunks.induct) (subst (asm) (2) chunks.simps, auto split: if_splits)

text \<open>
  The loop \<open>for chunk in xs.chunks(n) { acc.push(stmt(chunk)?) }\<close> over a state: the
  results of the statements in order, or the first error.
\<close>

fun run_chunks :: "('a list \<Rightarrow> 's \<Rightarrow> 'e + ('r \<times> 's)) \<Rightarrow> 'a list list \<Rightarrow> 's \<Rightarrow> 'e + ('r list \<times> 's)" where
  "run_chunks stmt [] s = Inr ([], s)"
| "run_chunks stmt (xs # xss) s =
     and_then (stmt xs s) (\<lambda>(r, s1).
       and_then (run_chunks stmt xss s1) (\<lambda>(rs, s2). Inr (r # rs, s2)))"

text \<open>
  A statement that can be cut anywhere: running it on the chunks of a list has the effect
  of one run on the whole list, as \<open>whole\<close> describes it, with the results added up by a
  measure (a count, or the multiset of the rows returned). \<open>adm\<close> is what the list must
  satisfy in the state the statement starts in.
\<close>

locale chunked_stmt =
  fixes stmt :: "'a list \<Rightarrow> 's \<Rightarrow> 'e + ('r \<times> 's)"
    and meas :: "'r \<Rightarrow> 'm::comm_monoid_add"
    and whole :: "'a list \<Rightarrow> 's \<Rightarrow> 'e + ('m \<times> 's)"
    and adm :: "'a list \<Rightarrow> 's \<Rightarrow> bool"
  assumes stmt_whole: "adm xs s \<Longrightarrow> map_sum id (map_prod meas id) (stmt xs s) = whole xs s"
    and whole_nil: "whole [] s = Inr (0, s)"
    and whole_append: "adm (xs @ ys) s \<Longrightarrow> whole (xs @ ys) s =
      and_then (whole xs s) (\<lambda>(m, s1). and_then (whole ys s1) (\<lambda>(k, s2). Inr (m + k, s2)))"
    and adm_left: "adm (xs @ ys) s \<Longrightarrow> adm xs s"
    and adm_right: "adm (xs @ ys) s \<Longrightarrow> whole xs s = Inr (m, s1) \<Longrightarrow> adm ys s1"
begin

lemma run_chunks_concat:
  "adm (concat xss) s \<Longrightarrow>
   map_sum id (map_prod (\<lambda>rs. sum_list (map meas rs)) id) (run_chunks stmt xss s)
     = whole (concat xss) s"
proof (induction xss arbitrary: s)
  case Nil
  then show ?case by (simp add: whole_nil)
next
  case (Cons xs xss)
  have adm_xs: "adm xs s" using Cons.prems adm_left by simp
  note eq = stmt_whole [OF adm_xs]
  show ?case
  proof (cases "stmt xs s")
    case (Inl e)
    with eq have "whole xs s = Inl e" by (metis id_apply map_sum.simps(1))
    with Inl Cons.prems show ?thesis by (simp add: whole_append)
  next
    case (Inr p)
    obtain r s1 where p: "p = (r, s1)" by (cases p)
    with Inr eq have w: "whole xs s = Inr (meas r, s1)" by simp
    then have "adm (concat xss) s1" using Cons.prems adm_right by simp
    note ih = Cons.IH [OF this, symmetric]
    show ?thesis
      using Cons.prems Inr p w ih
      by (cases "run_chunks stmt xss s1") (auto simp: whole_append)
  qed
qed

lemma run_chunks_whole:
  assumes "0 < n" and "adm xs s"
  shows "map_sum id (map_prod (\<lambda>rs. sum_list (map meas rs)) id) (run_chunks stmt (chunks n xs) s)
     = whole xs s"
  using run_chunks_concat [of "chunks n xs" s] assms by simp

lemma run_chunks_Inr:
  assumes "0 < n" and "adm xs s" and "run_chunks stmt (chunks n xs) s = Inr (rs, s')"
  shows "whole xs s = Inr (sum_list (map meas rs), s')"
  using run_chunks_whole [OF assms(1,2)] assms(3) by simp

lemma run_chunks_Inl:
  assumes "0 < n" and "adm xs s"
  shows "run_chunks stmt (chunks n xs) s = Inl e \<longleftrightarrow> whole xs s = Inl e"
  using run_chunks_whole [OF assms, symmetric]
  by (cases "run_chunks stmt (chunks n xs) s") auto

lemma run_chunks_of_whole:
  assumes "0 < n" and "adm xs s" and "whole xs s = Inr (m, s')"
  shows "\<exists>rs. run_chunks stmt (chunks n xs) s = Inr (rs, s') \<and> sum_list (map meas rs) = m"
  using run_chunks_whole [OF assms(1,2)] assms(3)
  by (cases "run_chunks stmt (chunks n xs) s") auto

end

subsection \<open>Lists, orders and finite lookups\<close>

lemma sum_list_map_mset_concat: "sum_list (map mset xss) = mset (concat xss)"
  by (induction xss) auto

lemma sort_unique_mset:
  fixes xs ys :: "'a::linorder list"
  assumes "mset xs = mset ys" and "sorted ys"
  shows "sort xs = ys"
  using assms by (metis properties_for_sort)

lemma strict_sorted_distinct: "sorted_wrt (<) (xs :: 'a::linorder list) \<Longrightarrow> distinct xs"
  by (simp add: strict_sorted_iff)

lemma find_Some_unique:
  assumes "distinct (map f xs)" and "x \<in> set xs" and "f x = k"
  shows "find (\<lambda>y. f y = k) xs = Some x"
  using assms by (induction xs) (auto simp: image_iff)

lemma filter_key_unique:
  assumes "distinct (map f xs)" and "x \<in> set xs" and "f x = k"
  shows "filter (\<lambda>y. f y = k) xs = [x]"
  using assms by (induction xs) (auto simp: image_iff filter_empty_conv)

lemma find_append_None: "find p xs = None \<Longrightarrow> find p (xs @ ys) = find p ys"
  by (induction xs) (auto split: if_splits)

lemma find_key_Some_iff:
  assumes "distinct (map f xs)"
  shows "find (\<lambda>y. f y = k) xs = Some x \<longleftrightarrow> x \<in> set xs \<and> f x = k"
proof
  assume "find (\<lambda>y. f y = k) xs = Some x"
  then show "x \<in> set xs \<and> f x = k" by (auto simp: find_Some_iff in_set_conv_nth)
next
  assume "x \<in> set xs \<and> f x = k"
  then show "find (\<lambda>y. f y = k) xs = Some x" using find_Some_unique [OF assms] by blast
qed

lemma find_key_None_iff: "find (\<lambda>y. f y = k) xs = None \<longleftrightarrow> k \<notin> f ` set xs"
  by (auto simp: find_None_iff)

lemma distinct_map_inj: "distinct (map f xs) \<Longrightarrow> x \<in> set xs \<Longrightarrow> y \<in> set xs \<Longrightarrow> f x = f y \<Longrightarrow> x = y"
  by (induction xs) (auto simp: image_iff)

lemma sort_key_map: "sort_key f (map g xs) = map g (sort_key (\<lambda>x. f (g x)) xs)"
proof -
  have ins: "insort_key f (g x) (map g ys) = map g (insort_key (\<lambda>x. f (g x)) x ys)" for x ys
    by (induction ys) simp_all
  show ?thesis by (induction xs) (simp_all add: ins)
qed

text \<open>Keeping what lies after the \<open>n\<close>-th element of an ascending list drops the first \<open>n\<close>.\<close>

lemma filter_after_take:
  fixes f :: "'a \<Rightarrow> int"
  assumes "sorted_wrt (<) (map f xs)" and "0 < n" and "n \<le> length xs"
  shows "filter (\<lambda>x. f (xs ! (n - 1)) < f x) xs = drop n xs"
proof -
  have split: "xs = take n xs @ drop n xs" by simp
  have lt: "f (xs ! i) < f (xs ! j)" if "i < j" "j < length xs" for i j
    using assms(1) that sorted_wrt_nth_less [of "(<)" "map f xs" i j] by simp
  have "filter (\<lambda>x. f (xs ! (n - 1)) < f x) (take n xs) = []"
  proof (clarsimp simp: filter_empty_conv in_set_conv_nth not_less)
    fix i assume "i < length xs" "i < n"
    with assms(2,3) have "i = n - 1 \<or> i < n - 1 \<and> n - 1 < length xs" by linarith
    with lt [of i "n - 1"] have "f (xs ! i) \<le> f (xs ! (n - 1))" by fastforce
    then show "f (xs ! i) \<le> f (xs ! (n - Suc 0))" by simp
  qed
  moreover have "filter (\<lambda>x. f (xs ! (n - 1)) < f x) (drop n xs) = drop n xs"
    using lt assms(2,3) by (auto simp: filter_id_conv in_set_conv_nth)
  ultimately show ?thesis by (subst split, subst filter_append) simp
qed

text \<open>\<open>SELECT COALESCE(MAX(x), 0)\<close> over a column.\<close>

definition coalesce_max :: "int list \<Rightarrow> int" where
  "coalesce_max xs = (if xs = [] then 0 else Max (set xs))"

text \<open>\<open>SELECT MIN(x)\<close> over a column: NULL when there is no row.\<close>

definition min_opt :: "int list \<Rightarrow> int option" where
  "min_opt xs = (if xs = [] then None else Some (Min (set xs)))"

lemma coalesce_max_ge: "x \<in> set xs \<Longrightarrow> x \<le> coalesce_max xs"
  by (auto simp: coalesce_max_def)

lemma coalesce_max_le: "0 \<le> b \<Longrightarrow> (\<And>x. x \<in> set xs \<Longrightarrow> x \<le> b) \<Longrightarrow> coalesce_max xs \<le> b"
  by (auto simp: coalesce_max_def)

lemma coalesce_max_nonneg: "(\<And>x. x \<in> set xs \<Longrightarrow> 0 \<le> x) \<Longrightarrow> 0 \<le> coalesce_max xs"
  using Max_in [of "set xs"] by (auto simp: coalesce_max_def)

lemma min_opt_None [simp]: "min_opt xs = None \<longleftrightarrow> xs = []"
  by (simp add: min_opt_def)

lemma min_opt_Some_le: "min_opt xs = Some m \<Longrightarrow> x \<in> set xs \<Longrightarrow> m \<le> x"
  by (auto simp: min_opt_def split: if_splits)

lemma min_opt_Some_in: "min_opt xs = Some m \<Longrightarrow> m \<in> set xs"
  by (auto simp: min_opt_def split: if_splits)

end
