(* ===== verification/Api.thy ===== *)
theory Api
  imports Prelude
begin

text \<open>
  The public data model of \<open>api.rs\<close> and the failure contract of \<open>error.rs\<close>: structs as
  records, enums as datatypes with the source's constructors, the helper methods as
  definitions. A \<open>Duration\<close> is the number of its nanoseconds; \<open>usize\<close> and \<open>u64\<close>
  counters are natural numbers, and the conversions to and from \<open>i64\<close> are explicit where
  the code makes them.
\<close>

type_synonym duration = nat

definition duration_from_millis :: "nat \<Rightarrow> duration" where
  "duration_from_millis ms = ms * 1000000"

definition duration_from_secs :: "nat \<Rightarrow> duration" where
  "duration_from_secs s = s * 1000000000"

definition as_millis :: "duration \<Rightarrow> nat" where
  "as_millis d = d div 1000000"

subsection \<open>Errors\<close>

text \<open>
  The errors of \<open>sqlx\<close>: the result codes that the statements of the code end with, and every other
  error (\<open>SQLITE_BUSY\<close>, I/O, the connection pool) with its text. The latter come from the environment
  and not from the data: a statement that ends with one of them has no effect, and no definition
  returns one.
\<close>

datatype sql_error =
    UniqueViolation
  | ForeignKeyViolation
  | CheckViolation
  | DatatypeViolation \<comment> \<open>an integer overflow leaves the STRICT column type\<close>
  | DatabaseFull \<comment> \<open>AUTOINCREMENT has used the largest row id\<close>
  | RowNotFound
  | SqlLogicError \<comment> \<open>a name in a statement does not exist or is taken\<close>
  | OtherError utf8

datatype error =
    Sqlx sql_error
  | BatchTooLarge nat nat
  | ConsumerConfigurationMismatch utf8
  | EmptyConsumerName
  | InvalidConfig utf8
  | InvalidPoll utf8
  | InvalidVisibilityTimeout
  | IncompatibleSchema
  | UnsupportedSchemaVersion int int
  | IncompleteIdempotencyEntry
  | ConsumerDeleted utf8
  | ConsumerNotFound utf8
  | ConsumerNotDraining utf8
  | ConsumerNotEmpty utf8 nat
  | ConsumerHasArchives utf8 nat
  | ClockBeforeUnixEpoch
  | DurationOutOfRange
  | CounterOutOfRange
  | StorageInvariant utf8

type_synonym 'a outcome = "error + 'a"

subsection \<open>Configuration\<close>

datatype sqlite_synchronous = SyncOff | SyncNormal | SyncFull | SyncExtra

record config =
  cfg_max_connections :: nat
  cfg_max_batch_size :: nat
  cfg_busy_timeout :: duration
  cfg_synchronous :: sqlite_synchronous
  cfg_wal_autocheckpoint_pages :: nat
  cfg_cross_process_poll_interval :: duration
  cfg_idempotency_window :: duration

definition default_config :: config where
  "default_config =
     \<lparr>cfg_max_connections = 4,
      cfg_max_batch_size = 500,
      cfg_busy_timeout = duration_from_secs 5,
      cfg_synchronous = SyncNormal,
      cfg_wal_autocheckpoint_pages = 1000,
      cfg_cross_process_poll_interval = duration_from_millis 250,
      cfg_idempotency_window = duration_from_secs (24 * 60 * 60)\<rparr>"

subsection \<open>Filters and publishing\<close>

datatype filter_spec = FilterAll | FilterTopic utf8

definition filter_topic :: "utf8 \<Rightarrow> filter_spec" where
  "filter_topic t = FilterTopic t"

fun as_database_value :: "filter_spec \<Rightarrow> utf8 option" where
  "as_database_value FilterAll = None"
| "as_database_value (FilterTopic t) = Some t"

record publish =
  pb_topic :: "utf8 option"
  pb_body :: blob
  pb_idempotency_key :: "blob option"

definition publish_new :: "blob \<Rightarrow> publish" where
  "publish_new body = \<lparr>pb_topic = None, pb_body = body, pb_idempotency_key = None\<rparr>"

definition with_topic :: "utf8 \<Rightarrow> publish \<Rightarrow> publish" where
  "with_topic t p = p\<lparr>pb_topic := Some t\<rparr>"

definition with_idempotency_key :: "blob \<Rightarrow> publish \<Rightarrow> publish" where
  "with_idempotency_key k p = p\<lparr>pb_idempotency_key := Some k\<rparr>"

text \<open>\<open>MessageId\<close> and \<open>ArchiveId\<close> derive their order from the wrapped integer.\<close>

datatype message_id = MessageId (message_id_get: int)

instantiation message_id :: linorder
begin

definition less_eq_message_id :: "message_id \<Rightarrow> message_id \<Rightarrow> bool" where
  "less_eq_message_id a b \<longleftrightarrow> message_id_get a \<le> message_id_get b"

definition less_message_id :: "message_id \<Rightarrow> message_id \<Rightarrow> bool" where
  "less_message_id a b \<longleftrightarrow> message_id_get a < message_id_get b"

instance
  by standard (auto simp: less_eq_message_id_def less_message_id_def intro: message_id.expand)

end

datatype archive_id = ArchiveId (archive_id_get: int)

instantiation archive_id :: linorder
begin

definition less_eq_archive_id :: "archive_id \<Rightarrow> archive_id \<Rightarrow> bool" where
  "less_eq_archive_id a b \<longleftrightarrow> archive_id_get a \<le> archive_id_get b"

definition less_archive_id :: "archive_id \<Rightarrow> archive_id \<Rightarrow> bool" where
  "less_archive_id a b \<longleftrightarrow> archive_id_get a < archive_id_get b"

instance
  by standard (auto simp: less_eq_archive_id_def less_archive_id_def intro: archive_id.expand)

end

definition archive_id_new :: "int \<Rightarrow> archive_id option" where
  "archive_id_new value = (if value > 0 then Some (ArchiveId value) else None)"

datatype publish_outcome = Published message_id | Duplicate message_id

fun outcome_id :: "publish_outcome \<Rightarrow> message_id" where
  "outcome_id (Published i) = i"
| "outcome_id (Duplicate i) = i"

fun is_published :: "publish_outcome \<Rightarrow> bool" where
  "is_published (Published i) = True"
| "is_published (Duplicate i) = False"

subsection \<open>Messages, receipts and deliveries\<close>

record message =
  msg_id :: message_id
  msg_topic :: "utf8 option"
  msg_body :: blob
  msg_published_at_ms :: int

record receipt =
  rc_consumer_id :: int
  rc_message_id :: int
  rc_generation :: int

record delivery =
  dv_message :: message
  dv_delivery_count :: nat
  dv_receipt :: receipt

record archived_delivery =
  ad_id :: archive_id
  ad_message :: message
  ad_delivery_count :: nat
  ad_archived_at_ms :: int
  ad_detail :: "utf8 option"

record list_archives =
  la_after :: "archive_id option"
  la_max_archives :: nat

definition default_list_archives :: list_archives where
  "default_list_archives = \<lparr>la_after = None, la_max_archives = 100\<rparr>"

record purge_archives_opts =
  pa_before_ms :: int
  pa_max_archives :: nat

record purge_archives_outcome =
  deleted_archives :: nat

definition default_purge_archives_outcome :: purge_archives_outcome where
  "default_purge_archives_outcome = \<lparr>deleted_archives = 0\<rparr>"

record poll_opts =
  po_max_messages :: nat
  po_visibility_timeout :: duration
  po_wait :: duration

definition default_poll :: poll_opts where
  "default_poll =
     \<lparr>po_max_messages = 100,
      po_visibility_timeout = duration_from_secs 30,
      po_wait = duration_from_secs 20\<rparr>"

datatype retry = Immediately | After duration

fun retry_delay :: "retry \<Rightarrow> duration" where
  "retry_delay Immediately = 0"
| "retry_delay (After delay) = delay"

record batch_result =
  br_applied :: nat
  br_stale :: nat

definition default_batch_result :: batch_result where
  "default_batch_result = \<lparr>br_applied = 0, br_stale = 0\<rparr>"

subsection \<open>Snapshots, deletion and retention\<close>

datatype consumer_state = Active | Draining

record consumer_snapshot =
  cs_name :: utf8
  cs_filter :: filter_spec
  cs_state :: consumer_state
  cs_created_at_ms :: int
  cs_draining_at_ms :: "int option"
  cs_outstanding :: nat
  cs_ready :: nat
  cs_next_ready_at_ms :: "int option"
  cs_oldest_outstanding_at_ms :: "int option"
  cs_archived :: nat

definition snapshot_is_empty :: "consumer_snapshot \<Rightarrow> bool" where
  "snapshot_is_empty s \<longleftrightarrow> cs_outstanding s = 0"

definition snapshot_is_drained :: "consumer_snapshot \<Rightarrow> bool" where
  "snapshot_is_drained s \<longleftrightarrow> cs_state s = Draining \<and> snapshot_is_empty s"

text \<open>\<open>saturating_sub\<close> on \<open>u64\<close> is the truncated subtraction of natural numbers.\<close>

definition snapshot_not_ready :: "consumer_snapshot \<Rightarrow> nat" where
  "snapshot_not_ready s = cs_outstanding s - cs_ready s"

record store_snapshot =
  ss_retained_messages :: nat
  ss_idempotency_keys :: nat
  ss_outstanding_deliveries :: nat
  ss_archived_deliveries :: nat
  ss_consumers :: "consumer_snapshot list"

datatype delete_mode = DrainedOnly | DiscardOutstanding | DiscardAll

record delete_outcome =
  do_discarded_deliveries :: nat
  do_discarded_archives :: nat

record prune_opts =
  pr_before_ms :: int
  pr_max_messages :: nat

record prune_outcome =
  deleted_messages :: nat

definition default_prune_outcome :: prune_outcome where
  "default_prune_outcome = \<lparr>deleted_messages = 0\<rparr>"

end
