(* ===== verification/Durable_Time.thy ===== *)
theory Durable_Time
  imports Api
begin

text \<open>
  \<open>time.rs\<close>: validation of the configuration and the conversions between durations, the
  system clock and the millisecond timestamps of the database. The clock is an argument:
  the nanoseconds since the Unix epoch that \<open>SystemTime::now()\<close> reports, negative before
  the epoch.
\<close>

type_synonym clock = int

definition validate_config :: "config \<Rightarrow> unit outcome" where
  "validate_config c =
     (if cfg_max_connections c = 0 then
        Inl (InvalidConfig ''max_connections must be greater than zero'')
      else if cfg_max_batch_size c = 0 then
        Inl (InvalidConfig ''max_batch_size must be greater than zero'')
      else if i64_try_from (int (cfg_max_batch_size c)) = None then
        Inl (InvalidConfig ''max_batch_size must fit in SQLite'')
      else if cfg_cross_process_poll_interval c = 0 then
        Inl (InvalidConfig ''cross_process_poll_interval must be greater than zero'')
      else if as_millis (cfg_idempotency_window c) = 0 then
        Inl (InvalidConfig ''idempotency_window must be at least one millisecond'')
      else if i64_try_from (int (as_millis (cfg_idempotency_window c))) = None then
        Inl (InvalidConfig ''idempotency_window must fit in SQLite milliseconds'')
      else Inr ())"

definition now_ms :: "clock \<Rightarrow> int outcome" where
  "now_ms clk =
     (if clk < 0 then Inl ClockBeforeUnixEpoch
      else ok_or (i64_try_from (clk div 1000000)) DurationOutOfRange)"

definition duration_ms :: "duration \<Rightarrow> int outcome" where
  "duration_ms d = ok_or (i64_try_from (int (as_millis d))) DurationOutOfRange"

definition add_duration :: "int \<Rightarrow> duration \<Rightarrow> int outcome" where
  "add_duration timestamp_ms d =
     and_then (duration_ms d) (\<lambda>ms. ok_or (checked_add timestamp_ms ms) DurationOutOfRange)"

definition duration_until_ms :: "clock \<Rightarrow> int \<Rightarrow> duration outcome" where
  "duration_until_ms clk timestamp_ms =
     and_then (now_ms clk) (\<lambda>now.
       let remaining = i64_saturating_sub timestamp_ms now
       in Inr (duration_from_millis (unat (as_u64 remaining))))"

subsection \<open>What the conversions guarantee\<close>

lemma now_ms_Inr:
  "now_ms clk = Inr now \<longleftrightarrow> 0 \<le> clk \<and> now = clk div 1000000 \<and> now \<le> i64_max"
  by (auto simp: now_ms_def i64_try_from_def in_i64_def i64_min_def)

lemma now_ms_Inl: "now_ms clk = Inl e \<Longrightarrow> e = ClockBeforeUnixEpoch \<or> e = DurationOutOfRange"
  by (auto simp: now_ms_def split: if_splits)

lemma now_ms_bounds: "now_ms clk = Inr now \<Longrightarrow> 0 \<le> now \<and> now \<le> i64_max"
  by (auto simp: now_ms_Inr)

lemma now_ms_mono: "now_ms a = Inr x \<Longrightarrow> now_ms b = Inr y \<Longrightarrow> a \<le> b \<Longrightarrow> x \<le> y"
  by (auto simp: now_ms_Inr zdiv_mono1)

lemma duration_ms_Inr:
  "duration_ms d = Inr ms \<longleftrightarrow> ms = int (d div 1000000) \<and> ms \<le> i64_max"
  by (auto simp: duration_ms_def as_millis_def i64_try_from_def in_i64_def i64_min_def)

lemma add_duration_Inr:
  "add_duration t d = Inr r \<longleftrightarrow>
     int (d div 1000000) \<le> i64_max \<and> r = t + int (d div 1000000) \<and> in_i64 r"
  by (auto simp: add_duration_def duration_ms_Inr)

lemma add_duration_ge: "add_duration t d = Inr r \<Longrightarrow> t \<le> r"
  by (auto simp: add_duration_Inr)

lemma add_duration_error: "add_duration t d = Inl e \<Longrightarrow> e = DurationOutOfRange"
  by (auto simp: add_duration_def duration_ms_def)

lemma validate_config_ok_iff:
  "validate_config c = Inr () \<longleftrightarrow>
     0 < cfg_max_connections c \<and> 0 < cfg_max_batch_size c \<and>
     int (cfg_max_batch_size c) \<le> i64_max \<and> 0 < cfg_cross_process_poll_interval c \<and>
     1000000 \<le> cfg_idempotency_window c \<and>
     int (cfg_idempotency_window c div 1000000) \<le> i64_max"
  by (auto simp: validate_config_def as_millis_def i64_try_from_def in_i64_def i64_min_def
      div_eq_0_iff)

lemma unat_as_u64: "unat (as_u64 n) = nat (n mod 2 ^ 64)"
  unfolding as_u64_def unat_eq_nat_uint uint_word_of_int by simp

lemma duration_until_ms_eq:
  assumes "now_ms clk = Inr now"
  shows "duration_until_ms clk ts =
    Inr (duration_from_millis (nat (i64_saturating_sub ts now mod 2 ^ 64)))"
  unfolding duration_until_ms_def assms Let_def unat_as_u64 and_then.simps by (rule refl)

lemma duration_until_ms_future:
  assumes "now_ms clk = Inr now" and "now \<le> ts" and "ts \<le> i64_max"
  shows "duration_until_ms clk ts = Inr (duration_from_millis (nat (ts - now)))"
proof -
  have b: "0 \<le> now" "ts - now \<le> i64_max" "0 \<le> ts - now"
    using now_ms_bounds [OF assms(1)] assms(2,3) by auto
  have sub: "i64_saturating_sub ts now = ts - now"
    using b by (simp add: i64_saturating_sub_def i64_min_def)
  have "(ts - now) mod 2 ^ 64 = ts - now"
    using b by (intro mod_pos_pos_trivial) (auto simp: i64_max_def)
  then show ?thesis
    unfolding duration_until_ms_eq [OF assms(1)] sub by (rule arg_cong)
qed

text \<open>
  A deadline that has already passed is not clamped to zero: the negative difference is
  reinterpreted as an unsigned number close to \<open>2 ^ 64\<close>.
\<close>

lemma duration_until_ms_past:
  assumes "now_ms clk = Inr now" and "ts < now" and "0 \<le> ts"
  shows "duration_until_ms clk ts = Inr (duration_from_millis (nat (2 ^ 64 - (now - ts))))"
proof -
  have b: "now - ts \<le> i64_max" "0 < now - ts"
    using now_ms_bounds [OF assms(1)] assms(2,3) by auto
  have sub: "i64_saturating_sub ts now = ts - now"
    using b by (simp add: i64_saturating_sub_def i64_min_def i64_max_def)
  have "(ts - now) mod 2 ^ 64 = (ts - now + 2 ^ 64) mod 2 ^ 64"
    by (rule mod_add_self2 [symmetric])
  also have "\<dots> = ts - now + 2 ^ 64"
    using b by (intro mod_pos_pos_trivial) (auto simp: i64_max_def)
  also have "\<dots> = 2 ^ 64 - (now - ts)"
    by simp
  finally have m: "(ts - now) mod 2 ^ 64 = 2 ^ 64 - (now - ts)" .
  show ?thesis
    unfolding duration_until_ms_eq [OF assms(1)] sub m by (rule refl)
qed

end
