(* ===== verification/Schema.thy ===== *)
theory Schema
  imports Api
begin

text \<open>
  \<open>schema.rs\<close>: the five tables as lists of row records, the constraints of the schema, and
  the statement forms the code issues against them. A statement that breaks a constraint
  ends with the SQLite result code, wrapped as \<open>Error::Sqlx\<close>; the state it was given is
  the state the enclosing transaction rolls back to.

  \<open>db_inv\<close> is what the code keeps true between its transactions, beyond what the schema
  enforces.
\<close>

subsection \<open>Tables\<close>

record message_row =
  mr_id :: int
  mr_topic :: "utf8 option"
  mr_body :: blob
  mr_published_at :: int

record idempotency_row =
  ir_key :: blob
  ir_message_id :: "int option"
  ir_expires_at :: int

record consumer_row =
  cr_id :: int
  cr_name :: utf8
  cr_topic_filter :: "utf8 option"
  cr_created_at :: int
  cr_draining_at :: "int option"
  cr_scan_cursor :: int
  cr_drain_cursor :: "int option"

record delivery_row =
  dr_consumer_id :: int
  dr_message_id :: int
  dr_visible_at :: int
  dr_generation :: int
  dr_delivery_count :: int

record archive_row =
  ar_id :: int
  ar_consumer_id :: int
  ar_message_id :: int
  ar_archived_at :: int
  ar_delivery_count :: int
  ar_last_generation :: int
  ar_detail :: "utf8 option"

text \<open>The \<open>seq\<close> fields are the AUTOINCREMENT counters of \<open>sqlite_sequence\<close>.\<close>

record database =
  t_messages :: "message_row list"
  t_idempotency :: "idempotency_row list"
  t_consumers :: "consumer_row list"
  t_deliveries :: "delivery_row list"
  t_archives :: "archive_row list"
  seq_messages :: int
  seq_consumers :: int
  seq_archives :: int

definition empty_database :: database where
  "empty_database =
     \<lparr>t_messages = [], t_idempotency = [], t_consumers = [], t_deliveries = [],
      t_archives = [], seq_messages = 0, seq_consumers = 0, seq_archives = 0\<rparr>"

definition schema_version :: int where
  "schema_version = 2"

text \<open>The primary key of a delivery and the UNIQUE pair of an archive.\<close>

definition dr_key :: "delivery_row \<Rightarrow> int \<times> int" where
  "dr_key d = (dr_consumer_id d, dr_message_id d)"

definition ar_key :: "archive_row \<Rightarrow> int \<times> int" where
  "ar_key a = (ar_consumer_id a, ar_message_id a)"

subsection \<open>Constraints and statements\<close>

text \<open>CHECK (scan_cursor >= 0) and CHECK (drain_cursor >= scan_cursor), which NULL passes.\<close>

definition consumer_checks :: "consumer_row \<Rightarrow> bool" where
  "consumer_checks c \<longleftrightarrow> 0 \<le> cr_scan_cursor c \<and>
     (case cr_drain_cursor c of None \<Rightarrow> True | Some d \<Rightarrow> cr_scan_cursor c \<le> d)"

definition delivery_checks :: "delivery_row \<Rightarrow> bool" where
  "delivery_checks d \<longleftrightarrow> 0 \<le> dr_generation d \<and> 0 \<le> dr_delivery_count d"

definition archive_checks :: "archive_row \<Rightarrow> bool" where
  "archive_checks a \<longleftrightarrow> 0 \<le> ar_delivery_count a \<and> 0 \<le> ar_last_generation a"

text \<open>\<open>topic_filter IS NULL OR topic = topic_filter\<close>: a NULL topic equals no filter.\<close>

definition topic_matches :: "utf8 option \<Rightarrow> utf8 option \<Rightarrow> bool" where
  "topic_matches flt topic \<longleftrightarrow> flt = None \<or> topic = flt"

text \<open>\<open>SELECT COALESCE(MAX(id), 0) FROM litefan_messages\<close>.\<close>

definition high_water :: "database \<Rightarrow> int" where
  "high_water db = coalesce_max (map mr_id (t_messages db))"

definition insert_message :: "publish \<Rightarrow> int \<Rightarrow> database \<Rightarrow> (int \<times> database) outcome" where
  "insert_message p published_at db =
     (if seq_messages db = i64_max then Inl (Sqlx DatabaseFull)
      else let i = seq_messages db + 1 in
        Inr (i, db\<lparr>t_messages := t_messages db @
                    [\<lparr>mr_id = i, mr_topic = pb_topic p, mr_body = pb_body p,
                      mr_published_at = published_at\<rparr>],
                  seq_messages := i\<rparr>))"

definition insert_delivery :: "delivery_row \<Rightarrow> database \<Rightarrow> database outcome" where
  "insert_delivery d db =
     (if \<not> delivery_checks d then Inl (Sqlx CheckViolation)
      else if dr_key d \<in> dr_key ` set (t_deliveries db) then Inl (Sqlx UniqueViolation)
      else if dr_consumer_id d \<notin> cr_id ` set (t_consumers db)
           \<or> dr_message_id d \<notin> mr_id ` set (t_messages db) then
        Inl (Sqlx ForeignKeyViolation)
      else Inr (db\<lparr>t_deliveries := t_deliveries db @ [d]\<rparr>))"

fun insert_deliveries :: "delivery_row list \<Rightarrow> database \<Rightarrow> database outcome" where
  "insert_deliveries [] db = Inr db"
| "insert_deliveries (d # ds) db = and_then (insert_delivery d db) (insert_deliveries ds)"

text \<open>The archive row is given without its id, which AUTOINCREMENT assigns.\<close>

definition insert_archive :: "(int \<Rightarrow> archive_row) \<Rightarrow> database \<Rightarrow> database outcome" where
  "insert_archive mk db =
     (if seq_archives db = i64_max then Inl (Sqlx DatabaseFull)
      else let a = mk (seq_archives db + 1) in
        if \<not> archive_checks a then Inl (Sqlx CheckViolation)
        else if ar_key a \<in> ar_key ` set (t_archives db) then Inl (Sqlx UniqueViolation)
        else if ar_consumer_id a \<notin> cr_id ` set (t_consumers db)
             \<or> ar_message_id a \<notin> mr_id ` set (t_messages db) then
          Inl (Sqlx ForeignKeyViolation)
        else Inr (db\<lparr>t_archives := t_archives db @ [a],
                     seq_archives := seq_archives db + 1\<rparr>))"

text \<open>
  \<open>DELETE FROM litefan_deliveries WHERE p\<close>, with the rows removed: their number is
  \<open>rows_affected\<close>, their columns are what RETURNING lists.
\<close>

definition delete_deliveries :: "(delivery_row \<Rightarrow> bool) \<Rightarrow> database \<Rightarrow> delivery_row list \<times> database" where
  "delete_deliveries p db =
     (filter p (t_deliveries db), db\<lparr>t_deliveries := filter (\<lambda>d. \<not> p d) (t_deliveries db)\<rparr>)"

definition delete_archives :: "(archive_row \<Rightarrow> bool) \<Rightarrow> database \<Rightarrow> archive_row list \<times> database" where
  "delete_archives p db =
     (filter p (t_archives db), db\<lparr>t_archives := filter (\<lambda>a. \<not> p a) (t_archives db)\<rparr>)"

text \<open>ON DELETE CASCADE for deliveries, ON DELETE RESTRICT for archives.\<close>

definition delete_messages :: "(message_row \<Rightarrow> bool) \<Rightarrow> database \<Rightarrow> (nat \<times> database) outcome" where
  "delete_messages p db =
     (let gone = mr_id ` set (filter p (t_messages db)) in
      if \<exists>a \<in> set (t_archives db). ar_message_id a \<in> gone then Inl (Sqlx ForeignKeyViolation)
      else Inr (length (filter p (t_messages db)),
        db\<lparr>t_messages := filter (\<lambda>m. \<not> p m) (t_messages db),
           t_deliveries := filter (\<lambda>d. dr_message_id d \<notin> gone) (t_deliveries db)\<rparr>))"

definition delete_consumers :: "(consumer_row \<Rightarrow> bool) \<Rightarrow> database \<Rightarrow> (nat \<times> database) outcome" where
  "delete_consumers p db =
     (let gone = cr_id ` set (filter p (t_consumers db)) in
      if \<exists>a \<in> set (t_archives db). ar_consumer_id a \<in> gone then Inl (Sqlx ForeignKeyViolation)
      else Inr (length (filter p (t_consumers db)),
        db\<lparr>t_consumers := filter (\<lambda>c. \<not> p c) (t_consumers db),
           t_deliveries := filter (\<lambda>d. dr_consumer_id d \<notin> gone) (t_deliveries db)\<rparr>))"

definition update_consumers ::
  "(consumer_row \<Rightarrow> bool) \<Rightarrow> (consumer_row \<Rightarrow> consumer_row) \<Rightarrow> database \<Rightarrow> (nat \<times> database) outcome" where
  "update_consumers p f db =
     (if \<exists>c \<in> set (t_consumers db). p c \<and> \<not> consumer_checks (f c) then Inl (Sqlx CheckViolation)
      else Inr (length (filter p (t_consumers db)),
        db\<lparr>t_consumers := map (\<lambda>c. if p c then f c else c) (t_consumers db)\<rparr>))"

text \<open>
  \<open>column + 1\<close> in an UPDATE: at the largest 64-bit integer SQLite yields a REAL, which a
  STRICT table refuses for an INTEGER column.
\<close>

definition sql_incr :: "int \<Rightarrow> int outcome" where
  "sql_incr n = (if n = i64_max then Inl (Sqlx DatatypeViolation) else Inr (n + 1))"

definition update_deliveries ::
  "(delivery_row \<Rightarrow> bool) \<Rightarrow> (delivery_row \<Rightarrow> delivery_row outcome) \<Rightarrow> database \<Rightarrow> (nat \<times> database) outcome" where
  "update_deliveries p f db =
     and_then (map_result (\<lambda>d. if p d then f d else Inr d) (t_deliveries db)) (\<lambda>ds.
       Inr (length (filter p (t_deliveries db)), db\<lparr>t_deliveries := ds\<rparr>))"

definition find_consumer :: "int \<Rightarrow> database \<Rightarrow> consumer_row option" where
  "find_consumer cid db = find (\<lambda>c. cr_id c = cid) (t_consumers db)"

definition find_consumer_by_name :: "utf8 \<Rightarrow> database \<Rightarrow> consumer_row option" where
  "find_consumer_by_name name db = find (\<lambda>c. cr_name c = name) (t_consumers db)"

text \<open>
  BEGIN ... COMMIT around a body: an error inside leaves the database as it was, because
  the transaction is dropped without a commit.
\<close>

definition transaction :: "(database \<Rightarrow> ('a \<times> database) outcome) \<Rightarrow> database \<Rightarrow> 'a outcome \<times> database" where
  "transaction body db = (case body db of Inl e \<Rightarrow> (Inl e, db) | Inr (x, db') \<Rightarrow> (Inr x, db'))"

subsection \<open>The invariant of the store\<close>

definition messages_inv :: "database \<Rightarrow> bool" where
  "messages_inv db \<longleftrightarrow> sorted_wrt (<) (map mr_id (t_messages db)) \<and>
     (\<forall>m \<in> set (t_messages db). 0 < mr_id m \<and> mr_id m \<le> seq_messages db) \<and>
     0 \<le> seq_messages db \<and> seq_messages db \<le> i64_max"

definition consumer_row_inv :: "database \<Rightarrow> consumer_row \<Rightarrow> bool" where
  "consumer_row_inv db c \<longleftrightarrow> 0 < cr_id c \<and> cr_id c \<le> seq_consumers db \<and> cr_name c \<noteq> [] \<and>
     0 \<le> cr_scan_cursor c \<and> cr_scan_cursor c \<le> seq_messages db \<and>
     (cr_draining_at c = None \<longleftrightarrow> cr_drain_cursor c = None) \<and>
     (\<forall>d. cr_drain_cursor c = Some d \<longrightarrow> cr_scan_cursor c \<le> d \<and> d \<le> seq_messages db)"

definition consumers_inv :: "database \<Rightarrow> bool" where
  "consumers_inv db \<longleftrightarrow> distinct (map cr_id (t_consumers db)) \<and>
     distinct (map cr_name (t_consumers db)) \<and>
     (\<forall>c \<in> set (t_consumers db). consumer_row_inv db c) \<and>
     0 \<le> seq_consumers db \<and> seq_consumers db \<le> i64_max"

text \<open>
  A consumer can hold a delivery or an archive of a message only once its cursor has passed
  the message, the message is retained, and its filter selects it.
\<close>

definition passed :: "database \<Rightarrow> int \<Rightarrow> int \<Rightarrow> bool" where
  "passed db cid mid \<longleftrightarrow>
     (\<exists>c \<in> set (t_consumers db). cr_id c = cid \<and> mid \<le> cr_scan_cursor c \<and>
       (\<exists>m \<in> set (t_messages db). mr_id m = mid \<and> topic_matches (cr_topic_filter c) (mr_topic m)))"

definition deliveries_inv :: "database \<Rightarrow> bool" where
  "deliveries_inv db \<longleftrightarrow> distinct (map dr_key (t_deliveries db)) \<and>
     (\<forall>d \<in> set (t_deliveries db). passed db (dr_consumer_id d) (dr_message_id d) \<and>
       0 \<le> dr_generation d \<and> dr_generation d \<le> i64_max \<and>
       0 \<le> dr_delivery_count d \<and> dr_delivery_count d \<le> i64_max)"

definition archives_inv :: "database \<Rightarrow> bool" where
  "archives_inv db \<longleftrightarrow> sorted_wrt (<) (map ar_id (t_archives db)) \<and>
     distinct (map ar_key (t_archives db)) \<and>
     (\<forall>a \<in> set (t_archives db). passed db (ar_consumer_id a) (ar_message_id a) \<and>
       0 < ar_id a \<and> ar_id a \<le> seq_archives db \<and>
       0 \<le> ar_delivery_count a \<and> ar_delivery_count a \<le> i64_max \<and>
       0 \<le> ar_last_generation a \<and> ar_last_generation a \<le> i64_max) \<and>
     0 \<le> seq_archives db \<and> seq_archives db \<le> i64_max"

definition ledger_inv :: "database \<Rightarrow> bool" where
  "ledger_inv db \<longleftrightarrow> distinct (map ir_key (t_idempotency db)) \<and>
     (\<forall>r \<in> set (t_idempotency db).
        \<exists>i. ir_message_id r = Some i \<and> 0 < i \<and> i \<le> seq_messages db)"

text \<open>No message is at once a delivery and an archive of the same consumer.\<close>

definition exclusive :: "database \<Rightarrow> bool" where
  "exclusive db \<longleftrightarrow> dr_key ` set (t_deliveries db) \<inter> ar_key ` set (t_archives db) = {}"

definition db_inv :: "database \<Rightarrow> bool" where
  "db_inv db \<longleftrightarrow> messages_inv db \<and> consumers_inv db \<and> deliveries_inv db \<and> archives_inv db \<and>
     ledger_inv db \<and> exclusive db"

lemma db_invI:
  "messages_inv db \<Longrightarrow> consumers_inv db \<Longrightarrow> deliveries_inv db \<Longrightarrow> archives_inv db \<Longrightarrow>
   ledger_inv db \<Longrightarrow> exclusive db \<Longrightarrow> db_inv db"
  by (simp add: db_inv_def)

lemma db_invD:
  assumes "db_inv db"
  shows "messages_inv db" "consumers_inv db" "deliveries_inv db" "archives_inv db"
    "ledger_inv db" "exclusive db"
  using assms by (simp_all add: db_inv_def)

lemma empty_database_inv: "db_inv empty_database"
  by (simp add: db_inv_def messages_inv_def consumers_inv_def deliveries_inv_def archives_inv_def
      ledger_inv_def exclusive_def empty_database_def)

subsection \<open>Which fields the parts of the invariant read\<close>

lemma passed_cong:
  "t_consumers db' = t_consumers db \<Longrightarrow> t_messages db' = t_messages db \<Longrightarrow>
   passed db' cid mid = passed db cid mid"
  by (simp add: passed_def)

lemma messages_inv_cong:
  "t_messages db' = t_messages db \<Longrightarrow> seq_messages db' = seq_messages db \<Longrightarrow>
   messages_inv db' = messages_inv db"
  by (simp add: messages_inv_def)

lemma consumers_inv_cong:
  "t_consumers db' = t_consumers db \<Longrightarrow> seq_consumers db' = seq_consumers db \<Longrightarrow>
   seq_messages db' = seq_messages db \<Longrightarrow> consumers_inv db' = consumers_inv db"
  by (simp add: consumers_inv_def consumer_row_inv_def)

lemma deliveries_inv_cong:
  "t_deliveries db' = t_deliveries db \<Longrightarrow> t_consumers db' = t_consumers db \<Longrightarrow>
   t_messages db' = t_messages db \<Longrightarrow> deliveries_inv db' = deliveries_inv db"
  by (simp add: deliveries_inv_def passed_def)

lemma archives_inv_cong:
  "t_archives db' = t_archives db \<Longrightarrow> seq_archives db' = seq_archives db \<Longrightarrow>
   t_consumers db' = t_consumers db \<Longrightarrow> t_messages db' = t_messages db \<Longrightarrow>
   archives_inv db' = archives_inv db"
  by (simp add: archives_inv_def passed_def)

lemma ledger_inv_cong:
  "t_idempotency db' = t_idempotency db \<Longrightarrow> seq_messages db' = seq_messages db \<Longrightarrow>
   ledger_inv db' = ledger_inv db"
  by (simp add: ledger_inv_def)

lemma exclusive_cong:
  "t_deliveries db' = t_deliveries db \<Longrightarrow> t_archives db' = t_archives db \<Longrightarrow>
   exclusive db' = exclusive db"
  by (simp add: exclusive_def)

lemmas inv_congs =
  messages_inv_cong consumers_inv_cong deliveries_inv_cong archives_inv_cong ledger_inv_cong
  exclusive_cong

end
