(* ===== verification/Storage.thy ===== *)
theory Storage
  imports Schema "HOL-Library.List_Lexorder" "HOL-Library.Char_ord"
begin

text \<open>
  \<open>storage.rs\<close>: the SQL variable limits, the shared transaction helpers (message insertion,
  snapshots, ledger expiry) and the receipt predicate.

  Choices that SQLite and the standard library leave open are collected in the record
  \<open>engine\<close>, an argument of the operations that depend on them: the order in which RETURNING
  lists rows, the iteration order of a hash set, and whether an insert that ends in
  ON CONFLICT DO NOTHING still consumes a row id. \<open>engine_ok\<close> is all that is documented of
  them: the listed elements are the given ones, in some order.
\<close>

definition MAX_SQL_VARIABLES :: nat where
  "MAX_SQL_VARIABLES = 999"

definition RECEIPTS_PER_CHUNK :: nat where
  "RECEIPTS_PER_CHUNK = (MAX_SQL_VARIABLES - 1) div 3"

definition PUBLISHES_PER_CHUNK :: nat where
  "PUBLISHES_PER_CHUNK = MAX_SQL_VARIABLES div 3"

record lease =
  ls_message_id :: int
  ls_generation :: int
  ls_delivery_count :: int

record archived_lease =
  al_consumer_id :: int
  al_message_id :: int
  al_generation :: int
  al_delivery_count :: int

record engine =
  eng_ids :: "int list \<Rightarrow> int list"
  eng_leases :: "lease list \<Rightarrow> lease list"
  eng_archived :: "archived_lease list \<Rightarrow> archived_lease list"
  eng_keys :: "blob list \<Rightarrow> blob list"
  eng_burns_rowid :: bool

definition engine_ok :: "engine \<Rightarrow> bool" where
  "engine_ok E \<longleftrightarrow> (\<forall>xs. mset (eng_ids E xs) = mset xs) \<and>
     (\<forall>xs. mset (eng_leases E xs) = mset xs) \<and>
     (\<forall>xs. mset (eng_archived E xs) = mset xs) \<and>
     (\<forall>xs. mset (eng_keys E xs) = mset xs)"

text \<open>An engine for the examples: every list comes back reversed.\<close>

definition reversing_engine :: engine where
  "reversing_engine =
     \<lparr>eng_ids = rev, eng_leases = rev, eng_archived = rev, eng_keys = rev, eng_burns_rowid = True\<rparr>"

lemma reversing_engine_ok [simp]: "engine_ok reversing_engine"
  by (simp add: engine_ok_def reversing_engine_def)

subsection \<open>Inserting messages\<close>

fun insert_values :: "int \<Rightarrow> publish list \<Rightarrow> database \<Rightarrow> (int list \<times> database) outcome" where
  "insert_values published_at [] db = Inr ([], db)"
| "insert_values published_at (p # ps) db =
     and_then (insert_message p published_at db) (\<lambda>(i, db1).
       and_then (insert_values published_at ps db1) (\<lambda>(ids, db2). Inr (i # ids, db2)))"

definition insert_message_chunk :: "engine \<Rightarrow> int \<Rightarrow> publish list \<Rightarrow> database \<Rightarrow> (int list \<times> database) outcome" where
  "insert_message_chunk E published_at ps db =
     and_then (insert_values published_at ps db) (\<lambda>(ids, db'). Inr (eng_ids E ids, db'))"

definition insert_message_rows :: "engine \<Rightarrow> publish list \<Rightarrow> int \<Rightarrow> database \<Rightarrow> (int list \<times> database) outcome" where
  "insert_message_rows E messages published_at db =
     and_then (run_chunks (insert_message_chunk E published_at) (chunks PUBLISHES_PER_CHUNK messages) db)
       (\<lambda>(idss, db'). Inr (sort (concat idss), db'))"

subsection \<open>Snapshots\<close>

definition count_from_row :: "int \<Rightarrow> nat outcome" where
  "count_from_row v = (if v < 0 then Inl CounterOutOfRange else Inr (nat v))"

text \<open>\<open>COALESCE(drain_cursor, high_water)\<close>, and the matching messages between the cursors.\<close>

definition scan_limit :: "database \<Rightarrow> consumer_row \<Rightarrow> int" where
  "scan_limit db c = (case cr_drain_cursor c of Some d \<Rightarrow> d | None \<Rightarrow> high_water db)"

definition unscanned :: "database \<Rightarrow> consumer_row \<Rightarrow> message_row list" where
  "unscanned db c = filter (\<lambda>m. cr_scan_cursor c < mr_id m \<and> mr_id m \<le> scan_limit db c
     \<and> topic_matches (cr_topic_filter c) (mr_topic m)) (t_messages db)"

definition deliveries_of :: "database \<Rightarrow> int \<Rightarrow> delivery_row list" where
  "deliveries_of db cid = filter (\<lambda>d. dr_consumer_id d = cid) (t_deliveries db)"

definition archives_of :: "database \<Rightarrow> int \<Rightarrow> archive_row list" where
  "archives_of db cid = filter (\<lambda>a. ar_consumer_id a = cid) (t_archives db)"

definition snapshot_row :: "database \<Rightarrow> int \<Rightarrow> consumer_row \<Rightarrow> consumer_snapshot outcome" where
  "snapshot_row db now c =
     (let mine = deliveries_of db (cr_id c);
          fresh = unscanned db c;
          held = (\<lambda>m. mr_id m \<in> dr_message_id ` set mine \<or> m \<in> set fresh)
      in and_then (count_from_row (int (length mine) + int (length fresh))) (\<lambda>outstanding.
         and_then (count_from_row (int (length (filter (\<lambda>d. dr_visible_at d \<le> now) mine))
                     + int (length fresh))) (\<lambda>ready.
         and_then (count_from_row (int (length (archives_of db (cr_id c))))) (\<lambda>archived.
         Inr \<lparr>cs_name = cr_name c,
              cs_filter = (case cr_topic_filter c of Some t \<Rightarrow> FilterTopic t | None \<Rightarrow> FilterAll),
              cs_state = (if cr_draining_at c \<noteq> None then Draining else Active),
              cs_created_at_ms = cr_created_at c,
              cs_draining_at_ms = cr_draining_at c,
              cs_outstanding = outstanding,
              cs_ready = ready,
              cs_next_ready_at_ms =
                min_opt (map dr_visible_at (filter (\<lambda>d. now < dr_visible_at d) mine)),
              cs_oldest_outstanding_at_ms =
                min_opt (map mr_published_at (filter held (t_messages db))),
              cs_archived = archived\<rparr>))))"

definition fetch_consumer_snapshots :: "int \<Rightarrow> int option \<Rightarrow> database \<Rightarrow> consumer_snapshot list outcome" where
  "fetch_consumer_snapshots now consumer_id db =
     map_result (snapshot_row db now)
       (sort_key cr_name
         (filter (\<lambda>c. case consumer_id of None \<Rightarrow> True | Some cid \<Rightarrow> cr_id c = cid) (t_consumers db)))"

subsection \<open>The ledger's expiry and the receipt predicate\<close>

definition purge_expired_idempotency :: "int \<Rightarrow> database \<Rightarrow> database" where
  "purge_expired_idempotency now db =
     db\<lparr>t_idempotency := filter (\<lambda>r. \<not> ir_expires_at r \<le> now) (t_idempotency db)\<rparr>"

definition receipt_key :: "receipt \<Rightarrow> int \<times> int \<times> int" where
  "receipt_key r = (rc_consumer_id r, rc_message_id r, rc_generation r)"

definition lease_key :: "delivery_row \<Rightarrow> int \<times> int \<times> int" where
  "lease_key d = (dr_consumer_id d, dr_message_id d, dr_generation d)"

definition push_receipt_predicate :: "receipt list \<Rightarrow> delivery_row \<Rightarrow> bool" where
  "push_receipt_predicate receipts d \<longleftrightarrow> lease_key d \<in> set (map receipt_key receipts)"

subsection \<open>Message insertion under every RETURNING order\<close>

fun message_rows :: "int \<Rightarrow> int \<Rightarrow> publish list \<Rightarrow> message_row list" where
  "message_rows i published_at [] = []"
| "message_rows i published_at (p # ps) =
     \<lparr>mr_id = i + 1, mr_topic = pb_topic p, mr_body = pb_body p, mr_published_at = published_at\<rparr>
       # message_rows (i + 1) published_at ps"

lemma length_message_rows [simp]: "length (message_rows i t ps) = length ps"
  by (induction ps arbitrary: i) auto

lemma map_id_message_rows: "map mr_id (message_rows i t ps) = [i + 1..i + int (length ps)]"
  by (induction ps arbitrary: i) (auto simp: upto_rec1 ac_simps)

lemma message_rows_append:
  "message_rows i t (ps @ qs) = message_rows i t ps @ message_rows (i + int (length ps)) t qs"
  by (induction ps arbitrary: i) (auto simp: ac_simps)

definition add_messages :: "int \<Rightarrow> publish list \<Rightarrow> database \<Rightarrow> database" where
  "add_messages published_at ps db =
     db\<lparr>t_messages := t_messages db @ message_rows (seq_messages db) published_at ps,
        seq_messages := seq_messages db + int (length ps)\<rparr>"

lemma insert_values_ok:
  "seq_messages db + int (length ps) \<le> i64_max \<Longrightarrow>
   insert_values t ps db =
     Inr ([seq_messages db + 1..seq_messages db + int (length ps)], add_messages t ps db)"
proof (induction ps arbitrary: db)
  case Nil
  then show ?case by (simp add: add_messages_def)
next
  case (Cons p ps)
  let ?db1 = "db\<lparr>t_messages := t_messages db @
      [\<lparr>mr_id = seq_messages db + 1, mr_topic = pb_topic p, mr_body = pb_body p, mr_published_at = t\<rparr>],
      seq_messages := seq_messages db + 1\<rparr>"
  have ins: "insert_message p t db = Inr (seq_messages db + 1, ?db1)"
    using Cons.prems by (simp add: insert_message_def Let_def)
  have up: "[seq_messages db + 1..seq_messages db + int (length (p # ps))]
      = (seq_messages db + 1) # [seq_messages db + 1 + 1..seq_messages db + 1 + int (length ps)]"
    by (simp add: upto_rec1 algebra_simps)
  have "insert_values t ps ?db1 = Inr ([seq_messages db + 1 + 1..seq_messages db + 1 + int (length ps)],
      add_messages t ps ?db1)"
    using Cons.IH [of ?db1] Cons.prems by simp
  with ins up show ?case
    by (simp add: add_messages_def algebra_simps)
qed

lemma insert_values_full:
  "seq_messages db \<le> i64_max \<Longrightarrow> \<not> seq_messages db + int (length ps) \<le> i64_max \<Longrightarrow>
   insert_values t ps db = Inl (Sqlx DatabaseFull)"
proof (induction ps arbitrary: db)
  case (Cons p ps)
  then show ?case
    by (cases "seq_messages db = i64_max") (auto simp: insert_message_def Let_def)
qed simp

lemma add_messages_append:
  "add_messages t (ps @ qs) db = add_messages t qs (add_messages t ps db)"
  by (simp add: add_messages_def message_rows_append algebra_simps)

lemma insert_values_append:
  "insert_values t (ps @ qs) db =
     and_then (insert_values t ps db) (\<lambda>(xs, db1).
       and_then (insert_values t qs db1) (\<lambda>(ys, db2). Inr (xs @ ys, db2)))"
proof (induction ps arbitrary: db)
  case Nil
  show ?case by (cases "insert_values t qs db") auto
next
  case (Cons p ps)
  show ?case
  proof (cases "insert_message p t db")
    case (Inr x)
    obtain i db1 where x: "x = (i, db1)" by (cases x)
    show ?thesis
      using Inr x Cons.IH [of db1]
      by (cases "insert_values t ps db1") (auto simp: and_then_assoc split: prod.splits
          intro!: and_then_cong)
  qed simp
qed

definition insert_values_mset :: "int \<Rightarrow> publish list \<Rightarrow> database \<Rightarrow> (int multiset \<times> database) outcome" where
  "insert_values_mset t ps db = map_sum id (map_prod mset id) (insert_values t ps db)"

interpretation message_chunks:
  chunked_stmt "insert_message_chunk E t" mset "insert_values_mset t" "\<lambda>_ _. engine_ok E"
  for E :: engine and t :: int
proof (unfold_locales, goal_cases)
  case (1 xs s)
  then show ?case
    by (cases "insert_values t xs s")
      (auto simp: insert_message_chunk_def insert_values_mset_def engine_ok_def)
next
  case (3 xs ys s)
  show ?case
  proof (cases "insert_values t xs s")
    case (Inr p)
    obtain ids1 db1 where p: "p = (ids1, db1)" by (cases p)
    show ?thesis
      using Inr p by (cases "insert_values t ys db1")
        (auto simp: insert_values_mset_def insert_values_append)
  qed (simp add: insert_values_mset_def insert_values_append)
qed (auto simp: insert_values_mset_def)

lemma PUBLISHES_PER_CHUNK_pos [simp]: "0 < PUBLISHES_PER_CHUNK"
  by (simp add: PUBLISHES_PER_CHUNK_def MAX_SQL_VARIABLES_def)

lemma RECEIPTS_PER_CHUNK_pos [simp]: "0 < RECEIPTS_PER_CHUNK"
  by (simp add: RECEIPTS_PER_CHUNK_def MAX_SQL_VARIABLES_def)

lemma insert_message_rows_ok:
  assumes "engine_ok E" and "seq_messages db + int (length ps) \<le> i64_max"
  shows "insert_message_rows E ps t db =
    Inr ([seq_messages db + 1..seq_messages db + int (length ps)], add_messages t ps db)"
proof -
  let ?ids = "[seq_messages db + 1..seq_messages db + int (length ps)]"
  have "insert_values_mset t ps db = Inr (mset ?ids, add_messages t ps db)"
    using insert_values_ok [OF assms(2)] by (simp add: insert_values_mset_def)
  from message_chunks.run_chunks_of_whole [OF PUBLISHES_PER_CHUNK_pos assms(1) this]
  obtain idss where
    run: "run_chunks (insert_message_chunk E t) (chunks PUBLISHES_PER_CHUNK ps) db
      = Inr (idss, add_messages t ps db)"
    and ids: "mset (concat idss) = mset ?ids"
    by (auto simp: sum_list_map_mset_concat)
  have "sort (concat idss) = ?ids"
    using ids by (rule sort_unique_mset) simp
  with run show ?thesis by (simp add: insert_message_rows_def)
qed

lemma insert_message_rows_full:
  assumes "engine_ok E" and "seq_messages db \<le> i64_max"
    and "\<not> seq_messages db + int (length ps) \<le> i64_max"
  shows "insert_message_rows E ps t db = Inl (Sqlx DatabaseFull)"
proof -
  have "insert_values_mset t ps db = Inl (Sqlx DatabaseFull)"
    using insert_values_full [OF assms(2,3)] by (simp add: insert_values_mset_def)
  then have "run_chunks (insert_message_chunk E t) (chunks PUBLISHES_PER_CHUNK ps) db
      = Inl (Sqlx DatabaseFull)"
    using message_chunks.run_chunks_Inl [OF PUBLISHES_PER_CHUNK_pos assms(1)] by blast
  then show ?thesis by (simp add: insert_message_rows_def)
qed

lemma insert_message_rows_cases:
  assumes "engine_ok E" and "messages_inv db" and "insert_message_rows E ps t db = Inr (ids, db')"
  shows "ids = [seq_messages db + 1..seq_messages db + int (length ps)]"
    and "db' = add_messages t ps db" and "seq_messages db + int (length ps) \<le> i64_max"
  using assms insert_message_rows_ok [OF assms(1), of db ps t]
    insert_message_rows_full [OF assms(1), of db ps t]
  by (cases "seq_messages db + int (length ps) \<le> i64_max"; auto simp: messages_inv_def)+

end
