(* ===== verification/Invariants.thy ===== *)
theory Invariants
  imports Storage
begin

text \<open>
  How the statements of the schema change the parts of \<open>db_inv\<close>: one lemma per kind of
  write, shared by the operations of every component.
\<close>

lemma passed_mono:
  assumes "passed db cid mid"
    and "\<And>c. c \<in> set (t_consumers db) \<Longrightarrow> cr_id c = cid \<Longrightarrow>
      \<exists>c' \<in> set (t_consumers db'). cr_id c' = cid \<and> cr_topic_filter c' = cr_topic_filter c \<and>
        cr_scan_cursor c \<le> cr_scan_cursor c'"
    and "\<And>m. m \<in> set (t_messages db) \<Longrightarrow> mr_id m = mid \<Longrightarrow> m \<in> set (t_messages db')"
  shows "passed db' cid mid"
  using assms unfolding passed_def by (metis order_trans)

lemma passedE:
  assumes "passed db cid mid"
  obtains c m where "c \<in> set (t_consumers db)" "cr_id c = cid" "mid \<le> cr_scan_cursor c"
    "m \<in> set (t_messages db)" "mr_id m = mid" "topic_matches (cr_topic_filter c) (mr_topic m)"
  using assms unfolding passed_def by blast

text \<open>A table replaced as a whole.\<close>

definition delivery_row_inv :: "database \<Rightarrow> delivery_row \<Rightarrow> bool" where
  "delivery_row_inv db d \<longleftrightarrow> passed db (dr_consumer_id d) (dr_message_id d) \<and>
     0 \<le> dr_generation d \<and> dr_generation d \<le> i64_max \<and>
     0 \<le> dr_delivery_count d \<and> dr_delivery_count d \<le> i64_max"

definition archive_row_inv :: "database \<Rightarrow> archive_row \<Rightarrow> bool" where
  "archive_row_inv db a \<longleftrightarrow> passed db (ar_consumer_id a) (ar_message_id a) \<and>
     0 < ar_id a \<and> ar_id a \<le> seq_archives db \<and>
     0 \<le> ar_delivery_count a \<and> ar_delivery_count a \<le> i64_max \<and>
     0 \<le> ar_last_generation a \<and> ar_last_generation a \<le> i64_max"

lemma deliveries_inv_rows:
  "deliveries_inv db \<longleftrightarrow> distinct (map dr_key (t_deliveries db)) \<and>
     (\<forall>d \<in> set (t_deliveries db). delivery_row_inv db d)"
  by (simp add: deliveries_inv_def delivery_row_inv_def)

lemma archives_inv_rows:
  "archives_inv db \<longleftrightarrow> sorted_wrt (<) (map ar_id (t_archives db)) \<and>
     distinct (map ar_key (t_archives db)) \<and> (\<forall>a \<in> set (t_archives db). archive_row_inv db a) \<and>
     0 \<le> seq_archives db \<and> seq_archives db \<le> i64_max"
  by (simp add: archives_inv_def archive_row_inv_def)

lemma passed_update [simp]:
  "passed (db\<lparr>t_deliveries := ds\<rparr>) = passed db"
  "passed (db\<lparr>t_archives := as\<rparr>) = passed db"
  "passed (db\<lparr>t_idempotency := ls\<rparr>) = passed db"
  "passed (db\<lparr>seq_archives := n\<rparr>) = passed db"
  by (simp_all add: passed_def fun_eq_iff)

lemma delivery_row_inv_update [simp]:
  "delivery_row_inv (db\<lparr>t_deliveries := ds\<rparr>) = delivery_row_inv db"
  "delivery_row_inv (db\<lparr>t_archives := as\<rparr>) = delivery_row_inv db"
  "delivery_row_inv (db\<lparr>t_idempotency := ls\<rparr>) = delivery_row_inv db"
  "delivery_row_inv (db\<lparr>seq_archives := n\<rparr>) = delivery_row_inv db"
  by (simp_all add: delivery_row_inv_def fun_eq_iff)

lemma archive_row_inv_update [simp]:
  "archive_row_inv (db\<lparr>t_deliveries := ds\<rparr>) = archive_row_inv db"
  "archive_row_inv (db\<lparr>t_archives := as\<rparr>) = archive_row_inv db"
  "archive_row_inv (db\<lparr>t_idempotency := ls\<rparr>) = archive_row_inv db"
  by (simp_all add: archive_row_inv_def fun_eq_iff)

lemma db_inv_set_deliveries:
  assumes "db_inv db" and "distinct (map dr_key ds)"
    and "\<And>d. d \<in> set ds \<Longrightarrow> delivery_row_inv db d"
    and "dr_key ` set ds \<inter> ar_key ` set (t_archives db) = {}"
  shows "db_inv (db\<lparr>t_deliveries := ds\<rparr>)"
  using assms
  by (auto simp: db_inv_def deliveries_inv_rows exclusive_def archives_inv_rows messages_inv_def
      consumers_inv_def consumer_row_inv_def ledger_inv_def)

lemma db_inv_set_ledger:
  assumes "db_inv db" and "ledger_inv (db\<lparr>t_idempotency := ls\<rparr>)"
  shows "db_inv (db\<lparr>t_idempotency := ls\<rparr>)"
  using assms
  by (auto simp: db_inv_def deliveries_inv_rows exclusive_def archives_inv_rows messages_inv_def
      consumers_inv_def consumer_row_inv_def)

lemma db_inv_set_archives:
  assumes "db_inv db" and "archives_inv (db\<lparr>t_archives := as, seq_archives := n\<rparr>)"
    and "dr_key ` set (t_deliveries db) \<inter> ar_key ` set as = {}"
  shows "db_inv (db\<lparr>t_archives := as, seq_archives := n\<rparr>)"
  using assms
  by (auto simp: db_inv_def deliveries_inv_rows exclusive_def messages_inv_def
      consumers_inv_def consumer_row_inv_def ledger_inv_def)

subsection \<open>Deliveries\<close>

lemma db_inv_filter_deliveries:
  assumes "db_inv db"
  shows "db_inv (db\<lparr>t_deliveries := filter p (t_deliveries db)\<rparr>)"
  by (rule db_inv_set_deliveries [OF assms])
    (use assms in \<open>auto simp: db_inv_def deliveries_inv_rows exclusive_def distinct_map_filter\<close>)

lemma db_inv_map_deliveries:
  assumes inv: "db_inv db"
    and key: "\<And>d. d \<in> set (t_deliveries db) \<Longrightarrow> dr_key (f d) = dr_key d"
    and row: "\<And>d. d \<in> set (t_deliveries db) \<Longrightarrow> delivery_row_inv db d \<Longrightarrow> delivery_row_inv db (f d)"
  shows "db_inv (db\<lparr>t_deliveries := map f (t_deliveries db)\<rparr>)"
proof (rule db_inv_set_deliveries [OF inv])
  have keys: "map dr_key (map f (t_deliveries db)) = map dr_key (t_deliveries db)"
    using key by simp
  show "distinct (map dr_key (map f (t_deliveries db)))"
    using inv unfolding keys by (simp add: db_inv_def deliveries_inv_def)
  have "dr_key ` set (map f (t_deliveries db)) = dr_key ` set (t_deliveries db)"
    using keys by (metis set_map)
  then show "dr_key ` set (map f (t_deliveries db)) \<inter> ar_key ` set (t_archives db) = {}"
    using inv by (simp add: db_inv_def exclusive_def)
  show "delivery_row_inv db d" if "d \<in> set (map f (t_deliveries db))" for d
    using that row inv by (auto simp: db_inv_def deliveries_inv_rows)
qed

lemma db_inv_append_deliveries:
  assumes inv: "db_inv db" and "distinct (map dr_key ds)"
    and "dr_key ` set ds \<inter> dr_key ` set (t_deliveries db) = {}"
    and "dr_key ` set ds \<inter> ar_key ` set (t_archives db) = {}"
    and "\<And>d. d \<in> set ds \<Longrightarrow> delivery_row_inv db d"
  shows "db_inv (db\<lparr>t_deliveries := t_deliveries db @ ds\<rparr>)"
  by (rule db_inv_set_deliveries [OF inv])
    (use assms in \<open>auto simp: db_inv_def deliveries_inv_rows exclusive_def\<close>)

text \<open>Inserting a batch of deliveries succeeds when its keys are new and its parents exist.\<close>

lemma insert_deliveries_ok:
  assumes "distinct (map dr_key ds)"
    and "dr_key ` set ds \<inter> dr_key ` set (t_deliveries db) = {}"
    and "\<And>d. d \<in> set ds \<Longrightarrow> delivery_checks d \<and> dr_consumer_id d \<in> cr_id ` set (t_consumers db) \<and>
      dr_message_id d \<in> mr_id ` set (t_messages db)"
  shows "insert_deliveries ds db = Inr (db\<lparr>t_deliveries := t_deliveries db @ ds\<rparr>)"
  using assms
proof (induction ds arbitrary: db)
  case (Cons d ds)
  have "insert_delivery d db = Inr (db\<lparr>t_deliveries := t_deliveries db @ [d]\<rparr>)"
    using Cons.prems by (auto simp: insert_delivery_def)
  moreover have "insert_deliveries ds (db\<lparr>t_deliveries := t_deliveries db @ [d]\<rparr>)
      = Inr (db\<lparr>t_deliveries := (t_deliveries db @ [d]) @ ds\<rparr>)"
    using Cons.prems by (subst Cons.IH) auto
  ultimately show ?case by simp
qed simp

lemma insert_deliveries_append:
  "insert_deliveries (xs @ ys) db = and_then (insert_deliveries xs db) (insert_deliveries ys)"
proof (induction xs arbitrary: db)
  case (Cons x xs)
  then show ?case by (cases "insert_delivery x db") simp_all
qed simp

subsection \<open>Messages\<close>

lemma set_add_messages:
  "set (t_messages (add_messages t ps db)) =
     set (t_messages db) \<union> set (message_rows (seq_messages db) t ps)"
  by (simp add: add_messages_def)

lemma add_messages_simps [simp]:
  "t_idempotency (add_messages t ps db) = t_idempotency db"
  "t_consumers (add_messages t ps db) = t_consumers db"
  "t_deliveries (add_messages t ps db) = t_deliveries db"
  "t_archives (add_messages t ps db) = t_archives db"
  "seq_messages (add_messages t ps db) = seq_messages db + int (length ps)"
  "seq_consumers (add_messages t ps db) = seq_consumers db"
  "seq_archives (add_messages t ps db) = seq_archives db"
  by (simp_all add: add_messages_def)

lemma message_rows_ids:
  "m \<in> set (message_rows i t ps) \<Longrightarrow> i < mr_id m \<and> mr_id m \<le> i + int (length ps)"
proof -
  assume "m \<in> set (message_rows i t ps)"
  then have "mr_id m \<in> set (map mr_id (message_rows i t ps))" by simp
  then show ?thesis unfolding map_id_message_rows by auto
qed

lemma add_messages_passed: "passed db cid mid \<Longrightarrow> passed (add_messages t ps db) cid mid"
  by (erule passed_mono) (auto simp: set_add_messages)

lemma add_messages_inv:
  assumes inv: "db_inv db" and cap: "seq_messages db + int (length ps) \<le> i64_max"
  shows "db_inv (add_messages t ps db)"
proof (rule db_invI)
  note parts = db_invD [OF inv]
  show "messages_inv (add_messages t ps db)"
    unfolding messages_inv_def
  proof (intro conjI ballI)
    show "sorted_wrt (<) (map mr_id (t_messages (add_messages t ps db)))"
      using parts(1) by (auto simp: add_messages_def sorted_wrt_append map_id_message_rows
          messages_inv_def)
  next
    fix m assume "m \<in> set (t_messages (add_messages t ps db))"
    then show "0 < mr_id m" "mr_id m \<le> seq_messages (add_messages t ps db)"
      using parts(1) message_rows_ids [of m "seq_messages db" t ps]
      by (auto simp: set_add_messages messages_inv_def)
  qed (use parts(1) cap in \<open>auto simp: messages_inv_def\<close>)
  show "consumers_inv (add_messages t ps db)"
    using parts(2) by (fastforce simp: consumers_inv_def consumer_row_inv_def)
  show "deliveries_inv (add_messages t ps db)"
    using parts(3) by (auto simp: deliveries_inv_def add_messages_passed)
  show "archives_inv (add_messages t ps db)"
    using parts(4) by (auto simp: archives_inv_def add_messages_passed)
  show "ledger_inv (add_messages t ps db)"
    using parts(5) by (fastforce simp: ledger_inv_def)
  show "exclusive (add_messages t ps db)"
    using parts(6) by (simp add: exclusive_def)
qed

subsection \<open>Consumers\<close>

lemma find_consumer_Some:
  assumes "consumers_inv db"
  shows "find_consumer cid db = Some c \<longleftrightarrow> c \<in> set (t_consumers db) \<and> cr_id c = cid"
  using assms find_key_Some_iff [of cr_id "t_consumers db" cid c]
  by (simp add: find_consumer_def consumers_inv_def)

lemma find_consumer_None:
  "find_consumer cid db = None \<longleftrightarrow> cid \<notin> cr_id ` set (t_consumers db)"
  by (simp add: find_consumer_def find_key_None_iff)

lemma find_consumer_by_name_Some:
  assumes "consumers_inv db"
  shows "find_consumer_by_name n db = Some c \<longleftrightarrow> c \<in> set (t_consumers db) \<and> cr_name c = n"
  using assms find_key_Some_iff [of cr_name "t_consumers db" n c]
  by (simp add: find_consumer_by_name_def consumers_inv_def)

lemma find_consumer_by_name_None:
  "find_consumer_by_name n db = None \<longleftrightarrow> n \<notin> cr_name ` set (t_consumers db)"
  by (simp add: find_consumer_by_name_def find_key_None_iff)

text \<open>
  Moving the cursors of consumers forward, or freezing them, keeps everything: the rest of
  the row stays, and the deliveries and archives stay behind the cursor.
\<close>

lemma db_inv_map_consumers:
  assumes inv: "db_inv db"
    and same: "\<And>c. c \<in> set (t_consumers db) \<Longrightarrow>
      cr_id (f c) = cr_id c \<and> cr_name (f c) = cr_name c \<and> cr_topic_filter (f c) = cr_topic_filter c \<and>
      cr_scan_cursor c \<le> cr_scan_cursor (f c)"
    and row: "\<And>c. c \<in> set (t_consumers db) \<Longrightarrow> consumer_row_inv db c \<Longrightarrow> consumer_row_inv db (f c)"
  shows "db_inv (db\<lparr>t_consumers := map f (t_consumers db)\<rparr>)" (is "db_inv ?db")
proof (rule db_invI)
  note parts = db_invD [OF inv]
  have p: "passed ?db cid mid" if "passed db cid mid" for cid mid
    using that by (rule passed_mono) (use same in auto)
  have keys: "map cr_id (map f (t_consumers db)) = map cr_id (t_consumers db)"
    "map cr_name (map f (t_consumers db)) = map cr_name (t_consumers db)"
    using same by auto
  have "consumer_row_inv ?db c = consumer_row_inv db c" for c
    by (simp add: consumer_row_inv_def)
  moreover have "distinct (map cr_id (map f (t_consumers db)))"
    "distinct (map cr_name (map f (t_consumers db)))"
    using parts(2) unfolding keys by (simp_all add: consumers_inv_def)
  ultimately show "consumers_inv ?db"
    using parts(2) row by (auto simp: consumers_inv_def)
  show "deliveries_inv ?db" using parts(3) p by (auto simp: deliveries_inv_def)
  show "archives_inv ?db" using parts(4) p by (auto simp: archives_inv_def)
qed (use db_invD [OF inv] in \<open>auto simp: messages_inv_def ledger_inv_def exclusive_def\<close>)

lemma db_inv_add_consumer:
  assumes inv: "db_inv db" and seq: "seq_consumers db < i64_max"
    and c: "consumer_row_inv (db\<lparr>seq_consumers := seq_consumers db + 1\<rparr>) c"
      "cr_id c = seq_consumers db + 1" "cr_name c \<notin> cr_name ` set (t_consumers db)"
  shows "db_inv (db\<lparr>t_consumers := t_consumers db @ [c], seq_consumers := seq_consumers db + 1\<rparr>)"
    (is "db_inv ?db")
proof (rule db_invI)
  note parts = db_invD [OF inv]
  have p: "passed ?db cid mid" if "passed db cid mid" for cid mid
    using that by (rule passed_mono) auto
  have r: "consumer_row_inv ?db x" if "consumer_row_inv db x" for x
    using that by (auto simp: consumer_row_inv_def)
  have "cr_id c \<notin> cr_id ` set (t_consumers db)"
    using parts(2) c(2) by (fastforce simp: consumers_inv_def consumer_row_inv_def)
  moreover have "consumer_row_inv ?db c"
    using c(1) by (simp add: consumer_row_inv_def)
  ultimately show "consumers_inv ?db"
    using parts(2) c seq r by (auto simp: consumers_inv_def)
  show "deliveries_inv ?db" using parts(3) p by (auto simp: deliveries_inv_def)
  show "archives_inv ?db" using parts(4) p by (auto simp: archives_inv_def)
qed (use db_invD [OF inv] in \<open>auto simp: messages_inv_def ledger_inv_def exclusive_def\<close>)

lemma db_inv_burn_consumer_id:
  assumes inv: "db_inv db" and seq: "seq_consumers db < i64_max"
  shows "db_inv (db\<lparr>seq_consumers := seq_consumers db + 1\<rparr>)"
proof -
  have "passed (db\<lparr>seq_consumers := seq_consumers db + 1\<rparr>) = passed db"
    by (simp add: passed_def fun_eq_iff)
  then show ?thesis
    using inv seq
    by (fastforce simp: db_inv_def deliveries_inv_def archives_inv_def messages_inv_def
        consumers_inv_def consumer_row_inv_def ledger_inv_def exclusive_def)
qed

subsection \<open>Deletions from the parent tables\<close>

lemma delete_messages_inv:
  assumes inv: "db_inv db" and del: "delete_messages p db = Inr (n, db')"
  shows "db_inv db'"
proof -
  let ?gone = "mr_id ` set (filter p (t_messages db))"
  note parts = db_invD [OF inv]
  have db': "db' = db\<lparr>t_messages := filter (\<lambda>m. \<not> p m) (t_messages db),
      t_deliveries := filter (\<lambda>d. dr_message_id d \<notin> ?gone) (t_deliveries db)\<rparr>"
    and free: "\<forall>a \<in> set (t_archives db). ar_message_id a \<notin> ?gone"
    using del by (auto simp: delete_messages_def Let_def split: if_splits)
  have p: "passed db' cid mid" if "passed db cid mid" "mid \<notin> ?gone" for cid mid
    using that(1) by (rule passed_mono) (use that(2) in \<open>auto simp: db'\<close>)
  show ?thesis
  proof (rule db_invI)
    show "messages_inv db'"
      using parts(1) by (auto simp: messages_inv_def db' sorted_wrt_map sorted_wrt_filter)
    show "consumers_inv db'"
      using parts(2) by (simp add: consumers_inv_def consumer_row_inv_def db')
    show "deliveries_inv db'"
      using parts(3) p by (auto simp: deliveries_inv_def db' distinct_map_filter)
    show "archives_inv db'"
      using parts(4) p free by (auto simp: archives_inv_def db')
    show "ledger_inv db'" using parts(5) by (simp add: ledger_inv_def db')
    show "exclusive db'" using parts(6) by (auto simp: exclusive_def db')
  qed
qed

lemma delete_consumers_inv:
  assumes inv: "db_inv db" and del: "delete_consumers p db = Inr (n, db')"
  shows "db_inv db'"
proof -
  let ?gone = "cr_id ` set (filter p (t_consumers db))"
  note parts = db_invD [OF inv]
  have db': "db' = db\<lparr>t_consumers := filter (\<lambda>c. \<not> p c) (t_consumers db),
      t_deliveries := filter (\<lambda>d. dr_consumer_id d \<notin> ?gone) (t_deliveries db)\<rparr>"
    and free: "\<forall>a \<in> set (t_archives db). ar_consumer_id a \<notin> ?gone"
    using del by (auto simp: delete_consumers_def Let_def split: if_splits)
  have p: "passed db' cid mid" if "passed db cid mid" "cid \<notin> ?gone" for cid mid
    using that(1) by (rule passed_mono) (use that(2) in \<open>auto simp: db' intro!: bexI\<close>)
  show ?thesis
  proof (rule db_invI)
    show "messages_inv db'" using parts(1) by (simp add: messages_inv_def db')
    show "consumers_inv db'"
      using parts(2) by (auto simp: consumers_inv_def consumer_row_inv_def db' distinct_map_filter)
    show "deliveries_inv db'"
      using parts(3) p by (auto simp: deliveries_inv_def db' distinct_map_filter)
    show "archives_inv db'"
      using parts(4) p free by (auto simp: archives_inv_def db')
    show "ledger_inv db'" using parts(5) by (simp add: ledger_inv_def db')
    show "exclusive db'" using parts(6) by (auto simp: exclusive_def db')
  qed
qed

lemma delete_archives_inv:
  assumes inv: "db_inv db" and del: "delete_archives p db = (rows, db')"
  shows "db_inv db'"
proof -
  have db': "db' = db\<lparr>t_archives := filter (\<lambda>a. \<not> p a) (t_archives db), seq_archives := seq_archives db\<rparr>"
    using del by (auto simp: delete_archives_def)
  show ?thesis
    unfolding db'
    by (rule db_inv_set_archives [OF inv])
      (use db_invD [OF inv] in \<open>auto simp: archives_inv_rows exclusive_def distinct_map_filter
        sorted_wrt_map sorted_wrt_filter archive_row_inv_def passed_def\<close>)
qed

end
