(* ===== verification/Signals.thy ===== *)
theory Signals
  imports Api
begin

text \<open>
  \<open>signals.rs\<close>: best-effort wake-ups inside one process. A \<open>Signal\<close> is a tokio \<open>watch\<close>
  channel that holds a wrapping \<open>u64\<close> generation; the registry \<open>Signals\<close> keeps weak
  references to the signals of topics and consumers.

  The channel is the interface \<open>watch_channel\<close>, with the laws tokio documents for it; here
  it is a value together with the number of sends, and a receiver is the number of sends it
  has seen. \<open>Arc\<close> and \<open>Weak\<close> are identifiers in a heap that counts strong references: an
  upgrade succeeds while the count is positive, and identifiers are never reused.
\<close>

subsection \<open>The watch channel\<close>

locale watch_channel =
  fixes subscribe :: "'c \<Rightarrow> 'r"
    and send_modify :: "('v \<Rightarrow> 'v) \<Rightarrow> 'c \<Rightarrow> 'c"
    and borrow_and_update :: "'c \<Rightarrow> 'r \<Rightarrow> 'r"
    and changed :: "'c \<Rightarrow> 'r \<Rightarrow> bool"
    and attached :: "'c \<Rightarrow> 'r \<Rightarrow> bool"
  assumes subscribe_attached: "attached c (subscribe c)"
    and subscribe_seen: "\<not> changed c (subscribe c)"
    and update_attached: "attached c r \<Longrightarrow> attached c (borrow_and_update c r)"
    and update_seen: "attached c r \<Longrightarrow> \<not> changed c (borrow_and_update c r)"
    and send_attached: "attached c r \<Longrightarrow> attached (send_modify f c) r"
    and send_changes: "attached c r \<Longrightarrow> changed (send_modify f c) r"
begin

lemma sends_attached: "attached c r \<Longrightarrow> attached (fold send_modify fs c) r"
  by (induction fs arbitrary: c) (auto intro: send_attached)

text \<open>A receiver sees every send since its last update, however many there were.\<close>

lemma sends_change: "attached c r \<Longrightarrow> fs \<noteq> [] \<Longrightarrow> changed (fold send_modify fs c) r"
  by (induction fs rule: rev_induct) (auto intro: send_changes sends_attached)

lemma no_lost_wakeup:
  "attached c r \<Longrightarrow> changed (fold send_modify fs c) (borrow_and_update c r) \<longleftrightarrow> fs \<noteq> []"
  using sends_change update_attached update_seen by (cases "fs = []") auto

end

record watch =
  w_generation :: "64 word"
  w_sends :: nat

type_synonym receiver = nat

definition watch_new :: watch where
  "watch_new = \<lparr>w_generation = 0, w_sends = 0\<rparr>"

definition watch_subscribe :: "watch \<Rightarrow> receiver" where
  "watch_subscribe c = w_sends c"

definition watch_send_modify :: "(64 word \<Rightarrow> 64 word) \<Rightarrow> watch \<Rightarrow> watch" where
  "watch_send_modify f c = \<lparr>w_generation = f (w_generation c), w_sends = Suc (w_sends c)\<rparr>"

definition watch_borrow_and_update :: "watch \<Rightarrow> receiver \<Rightarrow> receiver" where
  "watch_borrow_and_update c r = w_sends c"

definition watch_changed :: "watch \<Rightarrow> receiver \<Rightarrow> bool" where
  "watch_changed c r \<longleftrightarrow> r \<noteq> w_sends c"

definition watch_attached :: "watch \<Rightarrow> receiver \<Rightarrow> bool" where
  "watch_attached c r \<longleftrightarrow> r \<le> w_sends c"

interpretation wc: watch_channel watch_subscribe watch_send_modify watch_borrow_and_update
  watch_changed watch_attached
  by unfold_locales
    (auto simp: watch_subscribe_def watch_send_modify_def watch_borrow_and_update_def
      watch_changed_def watch_attached_def)

text \<open>\<open>Signal::notify\<close>: the generation wraps around.\<close>

definition signal_notify :: "watch \<Rightarrow> watch" where
  "signal_notify c = watch_send_modify (\<lambda>generation. generation + 1) c"

subsection \<open>Reference counts and the registry\<close>

record signal_heap =
  sh_watch :: "nat \<Rightarrow> watch"
  sh_strong :: "nat \<Rightarrow> nat"
  sh_next :: nat

record signals =
  sg_heap :: signal_heap
  sg_all_publishes :: nat
  sg_topics :: "utf8 \<rightharpoonup> nat"
  sg_consumers :: "int \<rightharpoonup> nat"

definition signal_new :: "signal_heap \<Rightarrow> nat \<times> signal_heap" where
  "signal_new h =
     (sh_next h, h\<lparr>sh_watch := (sh_watch h)(sh_next h := watch_new),
                   sh_strong := (sh_strong h)(sh_next h := 1),
                   sh_next := Suc (sh_next h)\<rparr>)"

definition signals_new :: signals where
  "signals_new =
     (let (s, h) = signal_new \<lparr>sh_watch = (\<lambda>_. watch_new), sh_strong = (\<lambda>_. 0), sh_next = 0\<rparr>
      in \<lparr>sg_heap = h, sg_all_publishes = s, sg_topics = Map.empty, sg_consumers = Map.empty\<rparr>)"

definition arc_clone :: "nat \<Rightarrow> signal_heap \<Rightarrow> signal_heap" where
  "arc_clone s h = h\<lparr>sh_strong := (sh_strong h)(s := Suc (sh_strong h s))\<rparr>"

definition arc_drop :: "nat \<Rightarrow> signal_heap \<Rightarrow> signal_heap" where
  "arc_drop s h = h\<lparr>sh_strong := (sh_strong h)(s := sh_strong h s - 1)\<rparr>"

text \<open>\<open>signals.get(key).and_then(Weak::upgrade)\<close>: the live signal of a key, if any.\<close>

definition live_signal :: "('k \<rightharpoonup> nat) \<Rightarrow> signal_heap \<Rightarrow> 'k \<Rightarrow> nat option" where
  "live_signal reg h key =
     (case reg key of Some s \<Rightarrow> if 0 < sh_strong h s then Some s else None | None \<Rightarrow> None)"

definition heap_notify :: "nat \<Rightarrow> signal_heap \<Rightarrow> signal_heap" where
  "heap_notify s h = h\<lparr>sh_watch := (sh_watch h)(s := signal_notify (sh_watch h s))\<rparr>"

definition signal_for_key :: "('k \<rightharpoonup> nat) \<Rightarrow> 'k \<Rightarrow> signal_heap \<Rightarrow> nat \<times> ('k \<rightharpoonup> nat) \<times> signal_heap" where
  "signal_for_key reg key h =
     (case live_signal reg h key of
        Some s \<Rightarrow> (s, reg, arc_clone s h)
      | None \<Rightarrow> (let (s, h') = signal_new h in (s, reg(key \<mapsto> s), h')))"

fun publishes_for :: "filter_spec \<Rightarrow> signals \<Rightarrow> nat \<times> signals" where
  "publishes_for FilterAll sg =
     (sg_all_publishes sg, sg\<lparr>sg_heap := arc_clone (sg_all_publishes sg) (sg_heap sg)\<rparr>)"
| "publishes_for (FilterTopic t) sg =
     (let (s, reg, h) = signal_for_key (sg_topics sg) t (sg_heap sg)
      in (s, sg\<lparr>sg_topics := reg, sg_heap := h\<rparr>))"

definition consumer_signal :: "int \<Rightarrow> signals \<Rightarrow> nat \<times> signals" where
  "consumer_signal i sg =
     (let (s, reg, h) = signal_for_key (sg_consumers sg) i (sg_heap sg)
      in (s, sg\<lparr>sg_consumers := reg, sg_heap := h\<rparr>))"

text \<open>One turn of the loop over the published topics: notify a live signal, drop a dead entry.\<close>

definition notify_topic :: "utf8 \<Rightarrow> signals \<Rightarrow> signals" where
  "notify_topic t sg =
     (case live_signal (sg_topics sg) (sg_heap sg) t of
        Some s \<Rightarrow> sg\<lparr>sg_heap := heap_notify s (sg_heap sg)\<rparr>
      | None \<Rightarrow> sg\<lparr>sg_topics := (sg_topics sg)(t := None)\<rparr>)"

definition notify_publishes :: "utf8 option list \<Rightarrow> signals \<Rightarrow> signals" where
  "notify_publishes topics sg =
     fold notify_topic (remdups (List.map_filter id topics))
       (sg\<lparr>sg_heap := heap_notify (sg_all_publishes sg) (sg_heap sg)\<rparr>)"

definition notify_consumer :: "int \<Rightarrow> signals \<Rightarrow> signals" where
  "notify_consumer i sg =
     (case live_signal (sg_consumers sg) (sg_heap sg) i of
        Some s \<Rightarrow> sg\<lparr>sg_heap := heap_notify s (sg_heap sg)\<rparr>
      | None \<Rightarrow> sg\<lparr>sg_consumers := (sg_consumers sg)(i := None)\<rparr>)"

text \<open>\<open>self.consumer_signal.notify()\<close> and the drop of a handle that owns a signal.\<close>

definition notify_signal :: "nat \<Rightarrow> signals \<Rightarrow> signals" where
  "notify_signal s sg = sg\<lparr>sg_heap := heap_notify s (sg_heap sg)\<rparr>"

definition drop_signal :: "nat \<Rightarrow> signals \<Rightarrow> signals" where
  "drop_signal s sg = sg\<lparr>sg_heap := arc_drop s (sg_heap sg)\<rparr>"

subsection \<open>The registry's invariant\<close>

definition registry_inv :: "nat \<Rightarrow> nat \<Rightarrow> ('k \<rightharpoonup> nat) \<Rightarrow> bool" where
  "registry_inv n all reg \<longleftrightarrow> (\<forall>k s. reg k = Some s \<longrightarrow> s < n \<and> s \<noteq> all) \<and>
     (\<forall>k k' s. reg k = Some s \<longrightarrow> reg k' = Some s \<longrightarrow> k = k')"

definition signals_inv :: "signals \<Rightarrow> bool" where
  "signals_inv sg \<longleftrightarrow> sg_all_publishes sg < sh_next (sg_heap sg) \<and>
     registry_inv (sh_next (sg_heap sg)) (sg_all_publishes sg) (sg_topics sg) \<and>
     registry_inv (sh_next (sg_heap sg)) (sg_all_publishes sg) (sg_consumers sg) \<and>
     (\<forall>t i s. sg_topics sg t = Some s \<longrightarrow> sg_consumers sg i \<noteq> Some s)"

lemma live_signal_Some:
  "live_signal reg h k = Some s \<longleftrightarrow> reg k = Some s \<and> 0 < sh_strong h s"
  by (auto simp: live_signal_def split: option.splits)

lemma live_signal_heap_notify [simp]: "live_signal reg (heap_notify s h) = live_signal reg h"
  by (auto simp: live_signal_def heap_notify_def fun_eq_iff split: option.splits)

lemma heap_notify_simps [simp]:
  "sh_strong (heap_notify s h) = sh_strong h"
  "sh_next (heap_notify s h) = sh_next h"
  "sh_watch (heap_notify s h) x = (if x = s then signal_notify (sh_watch h s) else sh_watch h x)"
  by (simp_all add: heap_notify_def)

lemma signals_new_inv: "signals_inv signals_new"
  by (simp add: signals_inv_def registry_inv_def signals_new_def signal_new_def)

lemma registry_invD:
  assumes "registry_inv n all reg" and "reg k = Some s"
  shows "s < n" and "s \<noteq> all" and "reg k' = Some s \<Longrightarrow> k = k'"
proof -
  have reg: "\<forall>k s. reg k = Some s \<longrightarrow> s < n \<and> s \<noteq> all"
    and inj: "\<forall>k k' s. reg k = Some s \<longrightarrow> reg k' = Some s \<longrightarrow> k = k'"
    using assms(1) by (simp_all add: registry_inv_def)
  show "s < n" "s \<noteq> all" using reg assms(2) by simp_all
  show "reg k' = Some s \<Longrightarrow> k = k'" using inj assms(2) by simp
qed

lemma registry_inv_update:
  "registry_inv n all reg \<Longrightarrow> all < n \<Longrightarrow> registry_inv (Suc n) all (reg(k \<mapsto> n))"
  unfolding registry_inv_def by (fastforce simp: less_Suc_eq split: if_splits)

lemma registry_inv_Suc: "registry_inv n all reg \<Longrightarrow> registry_inv (Suc n) all reg"
  unfolding registry_inv_def by (blast intro: less_SucI)

lemma registry_inv_delete: "registry_inv n all reg \<Longrightarrow> registry_inv n all (reg(k := None))"
  unfolding registry_inv_def by (metis fun_upd_apply option.distinct(1))

lemma signal_for_key_cases:
  assumes "signal_for_key reg key h = (s, reg', h')"
  obtains (live) "reg key = Some s" "0 < sh_strong h s" "reg' = reg" "h' = arc_clone s h"
    | (fresh) "s = sh_next h" "reg' = reg(key \<mapsto> s)" "h' = snd (signal_new h)"
        "live_signal reg h key = None"
proof (cases "live_signal reg h key")
  case None
  then have "s = sh_next h" "reg' = reg(key \<mapsto> s)" "h' = snd (signal_new h)"
    using assms by (auto simp: signal_for_key_def signal_new_def)
  then show thesis using None by (rule fresh)
next
  case (Some x)
  then have "s = x" "reg' = reg" "h' = arc_clone s h"
    using assms by (auto simp: signal_for_key_def)
  moreover have "reg key = Some x" "0 < sh_strong h x"
    using Some by (simp_all add: live_signal_Some)
  ultimately show thesis using live by blast
qed

lemma signals_invD:
  assumes "signals_inv sg"
  shows "sg_all_publishes sg < sh_next (sg_heap sg)"
    and "registry_inv (sh_next (sg_heap sg)) (sg_all_publishes sg) (sg_topics sg)"
    and "registry_inv (sh_next (sg_heap sg)) (sg_all_publishes sg) (sg_consumers sg)"
    and "sg_topics sg t = Some s \<Longrightarrow> sg_consumers sg i \<noteq> Some s"
  using assms by (simp_all add: signals_inv_def)

lemma publishes_for_inv:
  assumes inv: "signals_inv sg" and eq: "publishes_for flt sg = (s, sg')"
  shows "signals_inv sg'"
proof (cases flt)
  case FilterAll
  with eq have "sg' = sg\<lparr>sg_heap := arc_clone (sg_all_publishes sg) (sg_heap sg)\<rparr>" by auto
  with inv show ?thesis by (simp add: signals_inv_def arc_clone_def)
next
  case (FilterTopic t)
  obtain s1 reg h where k: "signal_for_key (sg_topics sg) t (sg_heap sg) = (s1, reg, h)"
    by (cases "signal_for_key (sg_topics sg) t (sg_heap sg)") auto
  with eq FilterTopic have sg': "sg' = sg\<lparr>sg_topics := reg, sg_heap := h\<rparr>" by simp
  note inv_facts = signals_invD [OF inv]
  from k show ?thesis
  proof (cases rule: signal_for_key_cases)
    case live
    with inv sg' show ?thesis by (simp add: signals_inv_def arc_clone_def)
  next
    case fresh
    have "sg_consumers sg i \<noteq> Some (sh_next (sg_heap sg))" for i
      using registry_invD(1) [OF inv_facts(3), of i] by blast
    with fresh sg' inv_facts show ?thesis
      by (auto simp: signals_inv_def signal_new_def registry_inv_update registry_inv_Suc)
  qed
qed

lemma consumer_signal_inv:
  assumes inv: "signals_inv sg" and eq: "consumer_signal i sg = (s, sg')"
  shows "signals_inv sg'"
proof -
  obtain s1 reg h where k: "signal_for_key (sg_consumers sg) i (sg_heap sg) = (s1, reg, h)"
    by (cases "signal_for_key (sg_consumers sg) i (sg_heap sg)") auto
  with eq have sg': "sg' = sg\<lparr>sg_consumers := reg, sg_heap := h\<rparr>"
    by (simp add: consumer_signal_def)
  note inv_facts = signals_invD [OF inv]
  from k show ?thesis
  proof (cases rule: signal_for_key_cases)
    case live
    with inv sg' show ?thesis by (simp add: signals_inv_def arc_clone_def)
  next
    case fresh
    have "sg_topics sg t \<noteq> Some (sh_next (sg_heap sg))" for t
      using registry_invD(1) [OF inv_facts(2), of t] by blast
    with fresh sg' inv_facts show ?thesis
      by (auto simp: signals_inv_def signal_new_def registry_inv_update registry_inv_Suc)
  qed
qed

lemma notify_topic_inv: "signals_inv sg \<Longrightarrow> signals_inv (notify_topic t sg)"
  by (auto simp: notify_topic_def signals_inv_def registry_inv_delete split: option.splits)

lemma fold_notify_topic_inv: "signals_inv sg \<Longrightarrow> signals_inv (fold notify_topic ts sg)"
  by (induction ts arbitrary: sg) (auto intro: notify_topic_inv)

lemma notify_publishes_inv: "signals_inv sg \<Longrightarrow> signals_inv (notify_publishes topics sg)"
  unfolding notify_publishes_def
  by (rule fold_notify_topic_inv) (simp add: signals_inv_def)

lemma notify_consumer_inv: "signals_inv sg \<Longrightarrow> signals_inv (notify_consumer i sg)"
  by (auto simp: notify_consumer_def signals_inv_def registry_inv_delete split: option.splits)

lemma notify_signal_inv: "signals_inv sg \<Longrightarrow> signals_inv (notify_signal s sg)"
  by (simp add: notify_signal_def signals_inv_def)

lemma drop_signal_inv: "signals_inv sg \<Longrightarrow> signals_inv (drop_signal s sg)"
  by (simp add: drop_signal_def signals_inv_def arc_drop_def)

end
