(* ===== verification/Litefan.thy ===== *)
theory Litefan
  imports Durable_Time Invariants Signals
begin

text \<open>
  The store handle of \<open>store.rs\<close>: \<open>Inner\<close>, shared by every clone of \<open>LiteFan\<close>, and the
  consumer handle of \<open>consumer.rs\<close>. An operation takes the store and returns its result
  together with the store it leaves behind, also when it fails.
\<close>

record litefan =
  lf_pool :: database
  lf_max_batch_size :: nat
  lf_cross_process_poll_interval :: duration
  lf_idempotency_window_ms :: int
  lf_signals :: signals

type_synonym 'a handler = "litefan \<Rightarrow> 'a outcome \<times> litefan"

record consumer =
  co_publish_signal :: nat
  co_consumer_signal :: nat
  co_id :: int
  co_name :: utf8
  co_filter :: filter_spec

definition ensure_batch_size :: "litefan \<Rightarrow> nat \<Rightarrow> unit outcome" where
  "ensure_batch_size fan requested =
     (if lf_max_batch_size fan < requested then Inl (BatchTooLarge requested (lf_max_batch_size fan))
      else Inr ())"

text \<open>
  What holds of a store between two operations: the database invariant, a registry in
  order, and the configuration that \<open>validate_config\<close> accepted.
\<close>

definition fan_inv :: "litefan \<Rightarrow> bool" where
  "fan_inv fan \<longleftrightarrow> db_inv (lf_pool fan) \<and> signals_inv (lf_signals fan) \<and>
     0 < lf_max_batch_size fan \<and> int (lf_max_batch_size fan) \<le> i64_max \<and>
     0 < lf_idempotency_window_ms fan \<and> lf_idempotency_window_ms fan \<le> i64_max"

lemma fan_invD:
  assumes "fan_inv fan"
  shows "db_inv (lf_pool fan)" "signals_inv (lf_signals fan)"
    "0 < lf_max_batch_size fan" "int (lf_max_batch_size fan) \<le> i64_max"
    "0 < lf_idempotency_window_ms fan"
  using assms by (simp_all add: fan_inv_def)

lemma fan_inv_update:
  "fan_inv fan \<Longrightarrow> db_inv db \<Longrightarrow> signals_inv sg \<Longrightarrow> fan_inv (fan\<lparr>lf_pool := db, lf_signals := sg\<rparr>)"
  "fan_inv fan \<Longrightarrow> db_inv db \<Longrightarrow> fan_inv (fan\<lparr>lf_pool := db\<rparr>)"
  "fan_inv fan \<Longrightarrow> signals_inv sg \<Longrightarrow> fan_inv (fan\<lparr>lf_signals := sg\<rparr>)"
  by (simp_all add: fan_inv_def)

lemma ensure_batch_size_Inr [simp]:
  "ensure_batch_size fan n = Inr u \<longleftrightarrow> n \<le> lf_max_batch_size fan"
  by (auto simp: ensure_batch_size_def)

lemma ensure_batch_size_Inl:
  "ensure_batch_size fan n = Inl e \<longleftrightarrow>
     lf_max_batch_size fan < n \<and> e = BatchTooLarge n (lf_max_batch_size fan)"
  by (auto simp: ensure_batch_size_def)

lemma transaction_Inr: "transaction body db = (Inr x, db') \<longleftrightarrow> body db = Inr (x, db')"
  by (auto simp: transaction_def split: sum.splits)

lemma transaction_Inl: "transaction body db = (Inl e, db') \<longleftrightarrow> body db = Inl e \<and> db' = db"
  by (auto simp: transaction_def split: sum.splits)

text \<open>
  The two ways an operation ends: it stores what its transaction committed, and where the
  transaction touched rows other workers wait for, it notifies its consumer's signal.
\<close>

lemma committed_inv:
  assumes "fan_inv fan" and "\<And>x db. body (lf_pool fan) = Inr (x, db) \<Longrightarrow> db_inv db"
    and "(case transaction body (lf_pool fan) of
        (Inl e, db) \<Rightarrow> (Inl e, fan\<lparr>lf_pool := db\<rparr>)
      | (Inr x, db) \<Rightarrow> (res x, fan\<lparr>lf_pool := db\<rparr>)) = (r, fan')"
  shows "fan_inv fan'"
  using assms
  by (cases "body (lf_pool fan)") (auto simp: transaction_def fan_inv_update(2))

lemma committed_notify_inv:
  assumes "fan_inv fan" and "\<And>n db. body (lf_pool fan) = Inr (n, db) \<Longrightarrow> db_inv db"
    and "(case transaction body (lf_pool fan) of
        (Inl e, db) \<Rightarrow> (Inl e, fan\<lparr>lf_pool := db\<rparr>)
      | (Inr n, db) \<Rightarrow>
          (res n, if 0 < n then fan\<lparr>lf_pool := db, lf_signals := notify_signal s (lf_signals fan)\<rparr>
                  else fan\<lparr>lf_pool := db\<rparr>)) = (r, fan')"
  shows "fan_inv fan'"
  using assms
  by (cases "body (lf_pool fan)")
    (auto simp: transaction_def fan_inv_update(1,2) notify_signal_inv fan_invD(2) split: if_splits)

end
