(* ===== verification/Publishing.thy ===== *)
theory Publishing
  imports Litefan
begin

text \<open>
  The publishing half of \<open>store.rs\<close>. The keyed path is the code's set-based algorithm, with
  its chunked statements, its position list and its two passes over the ledger;
  \<open>publish_each\<close> is the reference: one message after the other against a ledger map.
\<close>

subsection \<open>The keyed path\<close>

text \<open>\<open>INSERT INTO litefan_idempotency ... ON CONFLICT DO NOTHING\<close>.\<close>

fun insert_keys :: "int \<Rightarrow> blob list \<Rightarrow> database \<Rightarrow> database" where
  "insert_keys expires_at [] db = db"
| "insert_keys expires_at (k # ks) db =
     insert_keys expires_at ks
       (if k \<in> ir_key ` set (t_idempotency db) then db
        else db\<lparr>t_idempotency := t_idempotency db @
               [\<lparr>ir_key = k, ir_message_id = None, ir_expires_at = expires_at\<rparr>]\<rparr>)"

definition insert_key_chunk :: "int \<Rightarrow> blob list \<Rightarrow> database \<Rightarrow> (nat \<times> database) outcome" where
  "insert_key_chunk expires_at ks db = Inr (0, insert_keys expires_at ks db)"

definition select_ledger_chunk :: "blob list \<Rightarrow> database \<Rightarrow> ((blob \<times> int option) list \<times> database) outcome" where
  "select_ledger_chunk ks db =
     Inr (map (\<lambda>r. (ir_key r, ir_message_id r))
            (filter (\<lambda>r. ir_key r \<in> set ks) (t_idempotency db)), db)"

fun schedule :: "(blob \<rightharpoonup> int option) \<Rightarrow> blob set \<Rightarrow> nat \<Rightarrow> publish list \<Rightarrow> (nat \<times> publish) list" where
  "schedule ledger scheduled i [] = []"
| "schedule ledger scheduled i (m # ms) =
     (case pb_idempotency_key m of
        None \<Rightarrow> (i, m) # schedule ledger scheduled (Suc i) ms
      | Some k \<Rightarrow>
          if ledger k = Some None \<and> k \<notin> scheduled
          then (i, m) # schedule ledger (insert k scheduled) (Suc i) ms
          else schedule ledger scheduled (Suc i) ms)"

text \<open>\<open>SET message_id = (SELECT ... WHERE updates.key = key) WHERE key IN (SELECT key FROM updates)\<close>.\<close>

definition set_entry :: "(blob \<times> int) list \<Rightarrow> idempotency_row \<Rightarrow> idempotency_row" where
  "set_entry updates r =
     (if ir_key r \<in> fst ` set updates
      then r\<lparr>ir_message_id := map_of updates (ir_key r)\<rparr> else r)"

definition update_ledger_chunk :: "(blob \<times> int) list \<Rightarrow> database \<Rightarrow> (nat \<times> database) outcome" where
  "update_ledger_chunk updates db =
     Inr (0, db\<lparr>t_idempotency := map (set_entry updates) (t_idempotency db)\<rparr>)"

definition outcome_at :: "(nat \<rightharpoonup> int) \<Rightarrow> (blob \<rightharpoonup> int option) \<Rightarrow> nat \<times> publish \<Rightarrow> publish_outcome outcome" where
  "outcome_at published_ids ledger im =
     (case published_ids (fst im) of
        Some i \<Rightarrow> Inr (Published (MessageId i))
      | None \<Rightarrow>
          and_then (ok_or (Option.bind (Option.bind (pb_idempotency_key (snd im)) ledger) id)
              IncompleteIdempotencyEntry)
            (\<lambda>i. Inr (Duplicate (MessageId i))))"

text \<open>
  From the ledger that was read: choose the messages to insert, insert them, complete their
  ledger entries, and list the outcomes.
\<close>

definition message_key_updates :: "publish list \<Rightarrow> nat list \<Rightarrow> int list \<Rightarrow> (blob \<times> int) list" where
  "message_key_updates messages publish_positions ids =
     List.map_filter
       (\<lambda>(index, i). map_option (\<lambda>k. (k, i)) (pb_idempotency_key (messages ! index)))
       (zip publish_positions ids)"

definition publish_scheduled :: "engine \<Rightarrow> int \<Rightarrow> publish list \<Rightarrow> (blob \<rightharpoonup> int option) \<Rightarrow> database
    \<Rightarrow> ((publish_outcome list \<times> publish list) \<times> database) outcome" where
  "publish_scheduled E published_at messages ledger db2 =
     (let scheduled = schedule ledger {} 0 messages;
          publish_positions = map fst scheduled;
          to_publish = map snd scheduled in
      and_then (insert_message_rows E to_publish published_at db2) (\<lambda>(ids, db3).
      let published_ids = map_of (zip publish_positions ids);
          updates = message_key_updates messages publish_positions ids in
      and_then (run_chunks update_ledger_chunk (chunks (MAX_SQL_VARIABLES div 2) updates) db3)
        (\<lambda>(_, db4).
      let ledger' = fold (\<lambda>(k, i) m. m(k \<mapsto> Some i)) updates ledger in
      and_then (map_result (outcome_at published_ids ledger') (enumerate 0 messages)) (\<lambda>outcomes.
      Inr ((outcomes, to_publish), db4)))))"

definition publish_keyed_txn :: "engine \<Rightarrow> int \<Rightarrow> int \<Rightarrow> publish list \<Rightarrow> database
    \<Rightarrow> ((publish_outcome list \<times> publish list) \<times> database) outcome" where
  "publish_keyed_txn E published_at expires_at messages db =
     (let db1 = purge_expired_idempotency published_at db;
          unique_keys = eng_keys E (remdups (List.map_filter pb_idempotency_key messages)) in
      and_then (run_chunks (insert_key_chunk expires_at) (chunks (MAX_SQL_VARIABLES div 2) unique_keys) db1)
        (\<lambda>(_, db2).
      and_then (run_chunks select_ledger_chunk (chunks MAX_SQL_VARIABLES unique_keys) db2)
        (\<lambda>(rows, _).
      let ledger = fold (\<lambda>(k, v) m. m(k \<mapsto> v)) (concat rows) Map.empty in
      publish_scheduled E published_at messages ledger db2)))"

subsection \<open>The operations\<close>

definition publish_unkeyed_batch :: "engine \<Rightarrow> clock \<Rightarrow> publish list \<Rightarrow> publish_outcome list handler" where
  "publish_unkeyed_batch E clk messages fan =
     (case now_ms clk of
        Inl e \<Rightarrow> (Inl e, fan)
      | Inr published_at \<Rightarrow>
          (case transaction (insert_message_rows E messages published_at) (lf_pool fan) of
             (Inl e, db) \<Rightarrow> (Inl e, fan\<lparr>lf_pool := db\<rparr>)
           | (Inr ids, db) \<Rightarrow>
               (Inr (map (\<lambda>i. Published (MessageId i)) ids),
                fan\<lparr>lf_pool := db,
                    lf_signals := notify_publishes (map pb_topic messages) (lf_signals fan)\<rparr>)))"

definition publish_batch :: "engine \<Rightarrow> clock \<Rightarrow> publish list \<Rightarrow> publish_outcome list handler" where
  "publish_batch E clk messages fan =
     (if messages = [] then (Inr [], fan)
      else case ensure_batch_size fan (length messages) of
        Inl e \<Rightarrow> (Inl e, fan)
      | Inr _ \<Rightarrow>
      if \<forall>m \<in> set messages. pb_idempotency_key m = None
      then publish_unkeyed_batch E clk messages fan
      else case and_then (now_ms clk) (\<lambda>published_at.
             and_then (ok_or (checked_add published_at (lf_idempotency_window_ms fan)) DurationOutOfRange)
               (\<lambda>expires_at. Inr (published_at, expires_at))) of
        Inl e \<Rightarrow> (Inl e, fan)
      | Inr (published_at, expires_at) \<Rightarrow>
          (case transaction (publish_keyed_txn E published_at expires_at messages) (lf_pool fan) of
             (Inl e, db) \<Rightarrow> (Inl e, fan\<lparr>lf_pool := db\<rparr>)
           | (Inr (outcomes, to_publish), db) \<Rightarrow>
               (Inr outcomes,
                (if to_publish = [] then fan\<lparr>lf_pool := db\<rparr>
                 else fan\<lparr>lf_pool := db,
                          lf_signals := notify_publishes (map pb_topic to_publish) (lf_signals fan)\<rparr>))))"

text \<open>\<open>remove(0)\<close> panics on an empty vector; a batch of one has one outcome.\<close>

definition publish :: "engine \<Rightarrow> clock \<Rightarrow> publish \<Rightarrow> publish_outcome handler" where
  "publish E clk message fan =
     (case publish_batch E clk [message] fan of
        (Inl e, fan') \<Rightarrow> (Inl e, fan')
      | (Inr outcomes, fan') \<Rightarrow> (Inr (hd outcomes), fan'))"

subsection \<open>The reference: one message at a time\<close>

fun publish_each :: "(blob \<rightharpoonup> int) \<Rightarrow> int \<Rightarrow> publish list \<Rightarrow> publish_outcome list \<times> publish list \<times> (blob \<rightharpoonup> int)" where
  "publish_each ledger n [] = ([], [], ledger)"
| "publish_each ledger n (m # ms) =
     (case pb_idempotency_key m of
        None \<Rightarrow>
          (let (os, ps, ledger') = publish_each ledger (n + 1) ms
           in (Published (MessageId (n + 1)) # os, m # ps, ledger'))
      | Some k \<Rightarrow>
          (case ledger k of
             Some i \<Rightarrow>
               (let (os, ps, ledger') = publish_each ledger n ms
                in (Duplicate (MessageId i) # os, ps, ledger'))
           | None \<Rightarrow>
               (let (os, ps, ledger') = publish_each (ledger(k \<mapsto> n + 1)) (n + 1) ms
                in (Published (MessageId (n + 1)) # os, m # ps, ledger'))))"

text \<open>The ledger that is in force at a time: what survives the purge of expired entries.\<close>

definition live_ledger :: "int \<Rightarrow> database \<Rightarrow> blob \<rightharpoonup> int" where
  "live_ledger now db k =
     (case find (\<lambda>r. ir_key r = k) (t_idempotency (purge_expired_idempotency now db)) of
        None \<Rightarrow> None | Some r \<Rightarrow> ir_message_id r)"

subsection \<open>The statements of the keyed path, chunk by chunk\<close>

lemma insert_keys_append: "insert_keys e (xs @ ys) db = insert_keys e ys (insert_keys e xs db)"
  by (induction xs arbitrary: db) auto

interpretation key_chunks:
  chunked_stmt "insert_key_chunk e" "\<lambda>n::nat. n" "insert_key_chunk e" "\<lambda>_ _. True"
  for e :: int
  by unfold_locales (auto simp: insert_key_chunk_def insert_keys_append)

text \<open>The rows of the ledger map, and the closed form of the key insertion.\<close>

definition new_entry :: "int \<Rightarrow> blob \<Rightarrow> idempotency_row" where
  "new_entry e k = \<lparr>ir_key = k, ir_message_id = None, ir_expires_at = e\<rparr>"

lemma insert_keys_closed:
  "distinct ks \<Longrightarrow> insert_keys e ks db =
     db\<lparr>t_idempotency := t_idempotency db @
        map (new_entry e) (filter (\<lambda>k. k \<notin> ir_key ` set (t_idempotency db)) ks)\<rparr>"
proof (induction ks arbitrary: db)
  case (Cons k ks)
  show ?case
  proof (cases "k \<in> ir_key ` set (t_idempotency db)")
    case True
    with Cons show ?thesis by simp
  next
    case False
    let ?db1 = "db\<lparr>t_idempotency := t_idempotency db @ [new_entry e k]\<rparr>"
    have "filter (\<lambda>k'. k' \<notin> ir_key ` set (t_idempotency ?db1)) ks
        = filter (\<lambda>k'. k' \<notin> ir_key ` set (t_idempotency db)) ks"
      using Cons.prems by (intro filter_cong) (auto simp: new_entry_def)
    with Cons False show ?thesis by (simp add: new_entry_def)
  qed
qed simp

lemma run_insert_keys:
  "0 < n \<Longrightarrow> \<exists>rs. run_chunks (insert_key_chunk e) (chunks n ks) db = Inr (rs, insert_keys e ks db)"
  using key_chunks.run_chunks_of_whole [where n = n and xs = ks and s = db and m = 0
      and s' = "insert_keys e ks db" and e = e]
  by (auto simp: insert_key_chunk_def)

text \<open>Reading the ledger back in chunks gives the rows of the requested keys.\<close>

lemma run_select_ledger_gen:
  "\<exists>rows. run_chunks select_ledger_chunk kss db = Inr (rows, db) \<and>
     set (concat rows) = (\<lambda>r. (ir_key r, ir_message_id r)) `
       {r \<in> set (t_idempotency db). ir_key r \<in> set (concat kss)}"
proof (induction kss)
  case Nil
  then show ?case by simp
next
  case (Cons ks kss)
  then obtain rows where rows: "run_chunks select_ledger_chunk kss db = Inr (rows, db)"
    "set (concat rows) = (\<lambda>r. (ir_key r, ir_message_id r)) `
       {r \<in> set (t_idempotency db). ir_key r \<in> set (concat kss)}"
    by blast
  have "{r \<in> set (t_idempotency db). ir_key r \<in> set (concat (ks # kss))}
      = {r \<in> set (t_idempotency db). ir_key r \<in> set ks}
        \<union> {r \<in> set (t_idempotency db). ir_key r \<in> set (concat kss)}"
    by auto
  with rows show ?case
    by (intro exI [of _ "map (\<lambda>r. (ir_key r, ir_message_id r))
        (filter (\<lambda>r. ir_key r \<in> set ks) (t_idempotency db)) # rows"])
      (simp add: select_ledger_chunk_def [of ks] image_Un del: set_concat)
qed

lemma run_select_ledger:
  assumes "0 < n"
  shows "\<exists>rows. run_chunks select_ledger_chunk (chunks n ks) db = Inr (rows, db) \<and>
     set (concat rows) = (\<lambda>r. (ir_key r, ir_message_id r)) `
       {r \<in> set (t_idempotency db). ir_key r \<in> set ks}"
  using run_select_ledger_gen [of "chunks n ks" db] assms by simp

lemma fold_map_update_notin:
  "k \<notin> fst ` set xs \<Longrightarrow> fold (\<lambda>(k, v) m. m(k \<mapsto> v)) xs m0 k = m0 k"
  by (induction xs arbitrary: m0) auto

lemma fold_map_update_in:
  "(k, v) \<in> set xs \<Longrightarrow> \<forall>v'. (k, v') \<in> set xs \<longrightarrow> v' = v \<Longrightarrow>
   fold (\<lambda>(k, v) m. m(k \<mapsto> v)) xs m0 k = Some v"
proof (induction xs arbitrary: m0)
  case (Cons x xs)
  obtain k1 v1 where x: "x = (k1, v1)" by (cases x)
  have uniq: "\<forall>v'. (k, v') \<in> set xs \<longrightarrow> v' = v" using Cons.prems(2) by auto
  show ?case
  proof (cases "(k, v) \<in> set xs")
    case True
    have "fold (\<lambda>(k, v) m. m(k \<mapsto> v)) xs (m0(k1 \<mapsto> v1)) k = Some v"
      using True uniq by (rule Cons.IH)
    with x show ?thesis by (simp only: fold.simps comp_apply prod.case)
  next
    case False
    with uniq have "k \<notin> fst ` set xs" by auto
    moreover have "k1 = k" "v1 = v" using Cons.prems(1) False x by auto
    moreover have "fold (\<lambda>(k, v) m. m(k \<mapsto> v)) xs (m0(k1 \<mapsto> v1)) k = (m0(k1 \<mapsto> v1)) k"
      by (rule fold_map_update_notin) fact
    ultimately show ?thesis using x by (simp only: fold.simps comp_apply prod.case) simp
  qed
qed simp

lemma update_ledger_chunk_append:
  assumes "distinct (map fst (xs @ ys))"
  shows "update_ledger_chunk (xs @ ys) db =
    and_then (update_ledger_chunk xs db) (\<lambda>(m, s1).
      and_then (update_ledger_chunk ys s1) (\<lambda>(k, s2). Inr (m + k, s2)))"
proof -
  have disj: "fst ` set xs \<inter> fst ` set ys = {}" using assms by auto
  have lk: "map_of (xs @ ys) k = map_of xs k" if "k \<in> fst ` set xs" for k
    using that disj by (auto simp: map_add_def map_of_eq_None_iff split: option.splits)
  have rk: "map_of (xs @ ys) k = map_of ys k" if "k \<in> fst ` set ys" for k
  proof -
    have "k \<notin> fst ` set xs" using that disj by auto
    then have "map_of xs k = None" by (simp add: map_of_eq_None_iff)
    then show ?thesis by (simp add: map_add_def split: option.splits)
  qed
  have "set_entry (xs @ ys) = set_entry ys \<circ> set_entry xs"
  proof
    fix r
    show "set_entry (xs @ ys) r = (set_entry ys \<circ> set_entry xs) r"
    proof (cases "ir_key r \<in> fst ` set xs")
      case True
      moreover from this disj have "ir_key r \<notin> fst ` set ys" by auto
      ultimately show ?thesis
        using lk [of "ir_key r"] by (simp add: set_entry_def image_Un del: map_of_append)
    next
      case False
      then show ?thesis
        using rk [of "ir_key r"] by (simp add: set_entry_def image_Un del: map_of_append)
    qed
  qed
  then show ?thesis
    by (simp add: update_ledger_chunk_def)
qed

lemma set_entry_Nil [simp]: "set_entry [] = (\<lambda>r. r)"
  by (auto simp: set_entry_def)

interpretation ledger_chunks:
  chunked_stmt update_ledger_chunk "\<lambda>n::nat. n" update_ledger_chunk
    "\<lambda>updates _. distinct (map fst updates)"
proof (unfold_locales, goal_cases)
  case (3 xs ys s)
  then show ?case by (rule update_ledger_chunk_append)
qed (auto simp: update_ledger_chunk_def)

lemma run_update_ledger:
  assumes "0 < n" and "distinct (map fst updates)"
  shows "\<exists>rs. run_chunks update_ledger_chunk (chunks n updates) db =
    Inr (rs, snd (projr (update_ledger_chunk updates db)))"
  using ledger_chunks.run_chunks_of_whole [of n updates db 0] assms
  by (auto simp: update_ledger_chunk_def)

subsection \<open>The scheduled messages are the reference's\<close>

definition assigned :: "(nat \<times> publish) list \<Rightarrow> int list \<Rightarrow> (blob \<times> int) list" where
  "assigned sched ids =
     List.map_filter (\<lambda>(im, i). map_option (\<lambda>k. (k, i)) (pb_idempotency_key (snd im))) (zip sched ids)"

text \<open>The ledger read before scheduling agrees with the reference's on the keys still to come.\<close>

definition ledgers_agree :: "publish list \<Rightarrow> (blob \<rightharpoonup> int option) \<Rightarrow> blob set \<Rightarrow> (blob \<rightharpoonup> int) \<Rightarrow> bool" where
  "ledgers_agree ms ledger S L \<longleftrightarrow>
     (\<forall>m \<in> set ms. \<forall>k. pb_idempotency_key m = Some k \<longrightarrow>
        (ledger k = Some None \<and> k \<notin> S \<longleftrightarrow> L k = None))"

lemma ledgers_agree_Cons:
  "ledgers_agree (m # ms) ledger S L \<Longrightarrow> ledgers_agree ms ledger S L"
  by (simp add: ledgers_agree_def)

lemma ledgers_agree_insert:
  "ledgers_agree ms ledger S L \<Longrightarrow> ledgers_agree ms ledger (insert k S) (L(k \<mapsto> i))"
  by (simp add: ledgers_agree_def)

lemma ledgers_agree_head:
  "ledgers_agree (m # ms) ledger S L \<Longrightarrow> pb_idempotency_key m = Some k \<Longrightarrow>
   (ledger k = Some None \<and> k \<notin> S) = (L k = None)"
  by (simp add: ledgers_agree_def)

lemma publish_each_ConsE:
  assumes "publish_each L n (m # ms) = (os, ps, L')"
  obtains (unkeyed) os1 ps1 where "pb_idempotency_key m = None"
      "publish_each L (n + 1) ms = (os1, ps1, L')"
      "os = Published (MessageId (n + 1)) # os1" "ps = m # ps1"
    | (known) k i os1 where "pb_idempotency_key m = Some k" "L k = Some i"
      "publish_each L n ms = (os1, ps, L')" "os = Duplicate (MessageId i) # os1"
    | (first) k os1 ps1 where "pb_idempotency_key m = Some k" "L k = None"
      "publish_each (L(k \<mapsto> n + 1)) (n + 1) ms = (os1, ps1, L')"
      "os = Published (MessageId (n + 1)) # os1" "ps = m # ps1"
proof (cases "pb_idempotency_key m")
  case None
  with assms show thesis by (auto split: prod.splits intro: unkeyed)
next
  case (Some k)
  note key = this
  show thesis
  proof (cases "L k")
    case None
    with assms key show thesis by (auto split: prod.splits intro: first)
  next
    case (Some i)
    with assms key show thesis by (auto split: prod.splits intro: known)
  qed
qed

lemma publish_each_length: "publish_each L n ms = (os, ps, L') \<Longrightarrow> length os = length ms"
proof (induction ms arbitrary: L n os ps)
  case (Cons m ms)
  from Cons.prems show ?case by (cases rule: publish_each_ConsE) (auto dest: Cons.IH)
qed simp

lemma publish_each_mono: "publish_each L n ms = (os, ps, L') \<Longrightarrow> L k = Some i \<Longrightarrow> L' k = Some i"
proof (induction ms arbitrary: L n os ps)
  case (Cons m ms)
  from Cons.prems(1) show ?case
  proof (cases rule: publish_each_ConsE)
    case (first k1 os1 ps1)
    with Cons.prems(2) have "(L(k1 \<mapsto> n + 1)) k = Some i" by auto
    with first(3) show ?thesis by (rule Cons.IH)
  qed (use Cons in blast)+
qed simp

lemma publish_each_keys:
  "publish_each L n ms = (os, ps, L') \<Longrightarrow> m \<in> set ms \<Longrightarrow> pb_idempotency_key m = Some k \<Longrightarrow>
   \<exists>i. L' k = Some i"
proof (induction ms arbitrary: L n os ps)
  case (Cons m1 ms)
  from Cons.prems(1) show ?case
  proof (cases rule: publish_each_ConsE)
    case (unkeyed os1 ps1)
    with Cons.prems(2,3) have "m \<in> set ms" by auto
    with unkeyed(2) show ?thesis using Cons.prems(3) by (rule Cons.IH)
  next
    case (known k1 i os1)
    show ?thesis
    proof (cases "m = m1")
      case True
      then show ?thesis using known publish_each_mono Cons.prems(3) by fastforce
    next
      case False
      with Cons.prems(2) have "m \<in> set ms" by simp
      with known(3) show ?thesis using Cons.prems(3) by (rule Cons.IH)
    qed
  next
    case (first k1 os1 ps1)
    show ?thesis
    proof (cases "m = m1")
      case True
      then have "(L(k1 \<mapsto> n + 1)) k = Some (n + 1)" using first(1) Cons.prems(3) by simp
      with first(3) show ?thesis using publish_each_mono by blast
    next
      case False
      with Cons.prems(2) have "m \<in> set ms" by simp
      with first(3) show ?thesis using Cons.prems(3) by (rule Cons.IH)
    qed
  qed
qed simp

lemma schedule_messages:
  "publish_each L n ms = (os, ps, L') \<Longrightarrow> ledgers_agree ms ledger S L \<Longrightarrow>
   map snd (schedule ledger S i ms) = ps"
proof (induction ms arbitrary: L n S i os ps)
  case (Cons m ms)
  note agree = ledgers_agree_Cons [OF Cons.prems(2)]
  from Cons.prems(1) show ?case
  proof (cases rule: publish_each_ConsE)
    case (unkeyed os1 ps1)
    with Cons.IH [OF unkeyed(2) agree] show ?thesis by simp
  next
    case (known k j os1)
    with Cons.IH [OF known(3) agree] ledgers_agree_head [OF Cons.prems(2) known(1)]
    show ?thesis by auto
  next
    case (first k os1 ps1)
    with Cons.IH [OF first(3) ledgers_agree_insert [OF agree]]
      ledgers_agree_head [OF Cons.prems(2) first(1)]
    show ?thesis by simp
  qed
qed simp

lemma schedule_Cons_cases:
  assumes "x \<in> set (schedule ledger S i (m # ms))"
  obtains "x = (i, m)" | S' where "x \<in> set (schedule ledger S' (Suc i) ms)"
  using assms by (cases "pb_idempotency_key m") (auto split: if_splits)

lemma schedule_positions:
  "(j, m) \<in> set (schedule ledger S i ms) \<Longrightarrow> i \<le> j \<and> j < i + length ms \<and> ms ! (j - i) = m"
proof (induction ms arbitrary: S i)
  case (Cons m' ms)
  from Cons.prems show ?case
  proof (cases rule: schedule_Cons_cases)
    case 1
    then show ?thesis by simp
  next
    case (2 S')
    from Cons.IH [OF 2] have "Suc i \<le> j" "j < Suc i + length ms" "ms ! (j - Suc i) = m" by auto
    then have "j - i = Suc (j - Suc i)" by simp
    with \<open>ms ! (j - Suc i) = m\<close> \<open>Suc i \<le> j\<close> \<open>j < Suc i + length ms\<close> show ?thesis by simp
  qed
qed simp

lemma upto_Cons_length:
  "[n + 1..n + int (length (m # ps))] = (n + 1) # [n + 1 + 1..n + 1 + int (length ps)]"
  by (simp add: upto_rec1 algebra_simps)

lemma assigned_Cons [simp]:
  "assigned ((i, m) # sched) (x # ids) =
     (case pb_idempotency_key m of None \<Rightarrow> assigned sched ids | Some k \<Rightarrow> (k, x) # assigned sched ids)"
  by (simp add: assigned_def List.map_filter_def split: option.splits)

lemma assigned_Nil [simp]: "assigned [] ids = []"
  by (simp add: assigned_def List.map_filter_def)

text \<open>What the ledger update writes: the keys the reference adds to its ledger, once each.\<close>

lemma assigned_ledger:
  "publish_each L n ms = (os, ps, L') \<Longrightarrow> ledgers_agree ms ledger S L \<Longrightarrow>
   (map_of (assigned (schedule ledger S i ms) [n + 1..n + int (length ps)]) k = Some j
      \<longleftrightarrow> L k = None \<and> L' k = Some j)
   \<and> distinct (map fst (assigned (schedule ledger S i ms) [n + 1..n + int (length ps)]))"
proof (induction ms arbitrary: L n S i os ps k j)
  case Nil
  then show ?case by auto
next
  case (Cons m ms)
  note agree = ledgers_agree_Cons [OF Cons.prems(2)]
  from Cons.prems(1) show ?case
  proof (cases rule: publish_each_ConsE)
    case (unkeyed os1 ps1)
    with Cons.IH [OF unkeyed(2) agree] show ?thesis
      by (simp only: schedule.simps option.case upto_Cons_length assigned_Cons)
  next
    case (known k1 x os1)
    with Cons.IH [OF known(3) agree] ledgers_agree_head [OF Cons.prems(2) known(1)]
    show ?thesis by auto
  next
    case (first k1 os1 ps1)
    let ?U = "assigned (schedule ledger (insert k1 S) (Suc i) ms) [n + 1 + 1..n + 1 + int (length ps1)]"
    note IH = Cons.IH [OF first(3) ledgers_agree_insert [OF agree]]
    have go: "ledger k1 = Some None \<and> k1 \<notin> S"
      using ledgers_agree_head [OF Cons.prems(2) first(1)] first(2) by simp
    then have U: "assigned (schedule ledger S i (m # ms)) [n + 1..n + int (length ps)] = (k1, n + 1) # ?U"
      using first(1) unfolding first(5) upto_Cons_length by simp
    have new: "L' k1 = Some (n + 1)" using publish_each_mono [OF first(3), of k1] by simp
    have "map_of ?U k1 = None" using IH [where k = k1] by (cases "map_of ?U k1") auto
    then have "k1 \<notin> fst ` set ?U" by (simp add: map_of_eq_None_iff)
    moreover have "map_of ((k1, n + 1) # ?U) k = Some j \<longleftrightarrow> L k = None \<and> L' k = Some j"
      using IH [where k = k and j = j] new first(2) by auto
    ultimately show ?thesis unfolding U using IH by simp
  qed
qed

text \<open>The outcome list, read off the position map and the completed ledger.\<close>

lemma outcomes_reference:
  "publish_each L n ms = (os, ps, L') \<Longrightarrow> ledgers_agree ms ledger S L \<Longrightarrow>
   (\<And>j. i \<le> j \<Longrightarrow> pm j =
      map_of (zip (map fst (schedule ledger S i ms)) [n + 1..n + int (length ps)]) j) \<Longrightarrow>
   (\<And>m k j. m \<in> set ms \<Longrightarrow> pb_idempotency_key m = Some k \<Longrightarrow> L' k = Some j \<Longrightarrow>
      final k = Some (Some j)) \<Longrightarrow>
   map_result (outcome_at pm final) (enumerate i ms) = Inr os"
proof (induction ms arbitrary: L n S i os ps)
  case (Cons m ms)
  note agree = ledgers_agree_Cons [OF Cons.prems(2)]
  have notin: "i \<notin> fst ` set (schedule ledger S' (Suc i) ms)" for S'
    using schedule_positions [where i = "Suc i"] by fastforce
  have none: "map_of (zip (map fst (schedule ledger S' (Suc i) ms)) xs) i = None" for S' xs
    using notin [of S'] by (auto simp: map_of_eq_None_iff dest: set_zip_leftD)
  from Cons.prems(1) show ?case
  proof (cases rule: publish_each_ConsE)
    case (unkeyed os1 ps1)
    let ?sched = "schedule ledger S (Suc i) ms"
    have pm: "pm j = map_of (zip (i # map fst ?sched)
        ((n + 1) # [n + 1 + 1..n + 1 + int (length ps1)])) j" if "i \<le> j" for j
      using Cons.prems(3) [OF that] unkeyed(1) unfolding unkeyed(4) upto_Cons_length by simp
    have "map_result (outcome_at pm final) (enumerate (Suc i) ms) = Inr os1"
      using pm Cons.prems(4) by (intro Cons.IH [OF unkeyed(2) agree]) auto
    moreover have "pm i = Some (n + 1)" using pm [of i] by simp
    ultimately show ?thesis using unkeyed(3)
      by (simp add: outcome_at_def [where im = "(i, m)"])
  next
    case (known k x os1)
    have sched: "schedule ledger S i (m # ms) = schedule ledger S (Suc i) ms"
      using ledgers_agree_head [OF Cons.prems(2) known(1)] known(1,2) by auto
    have "map_result (outcome_at pm final) (enumerate (Suc i) ms) = Inr os1"
      using Cons.prems(3,4) sched by (intro Cons.IH [OF known(3) agree]) auto
    moreover have "pm i = None" using Cons.prems(3) [of i] none unfolding sched by simp
    moreover have "final k = Some (Some x)"
      using Cons.prems(4) known(1) publish_each_mono [OF known(3) known(2)] by auto
    ultimately show ?thesis using known(1,4)
      by (simp add: outcome_at_def [where im = "(i, m)"])
  next
    case (first k os1 ps1)
    let ?sched = "schedule ledger (insert k S) (Suc i) ms"
    have "schedule ledger S i (m # ms) = (i, m) # ?sched"
      using ledgers_agree_head [OF Cons.prems(2) first(1)] first(1,2) by auto
    then have pm: "pm j = map_of (zip (i # map fst ?sched)
        ((n + 1) # [n + 1 + 1..n + 1 + int (length ps1)])) j" if "i \<le> j" for j
      using Cons.prems(3) [OF that] unfolding first(5) upto_Cons_length by simp
    have "map_result (outcome_at pm final) (enumerate (Suc i) ms) = Inr os1"
      using pm Cons.prems(4)
      by (intro Cons.IH [OF first(3) ledgers_agree_insert [OF agree]]) auto
    moreover have "pm i = Some (n + 1)" using pm [of i] by simp
    ultimately show ?thesis using first(4)
      by (simp add: outcome_at_def [where im = "(i, m)"])
  qed
qed simp

subsection \<open>The keyed transaction in closed form\<close>

definition batch_keys :: "engine \<Rightarrow> publish list \<Rightarrow> blob list" where
  "batch_keys E ms = eng_keys E (remdups (List.map_filter pb_idempotency_key ms))"

lemma map_filter_cong:
  "(\<And>x. x \<in> set xs \<Longrightarrow> f x = g x) \<Longrightarrow> List.map_filter f xs = List.map_filter g xs"
  by (induction xs) (auto simp: List.map_filter_simps split: option.splits)

lemma map_filter_map: "List.map_filter f (map h xs) = List.map_filter (\<lambda>x. f (h x)) xs"
  by (induction xs) (auto simp: List.map_filter_simps split: option.splits)

lemma set_map_filter: "set (List.map_filter f xs) = {y. \<exists>x \<in> set xs. f x = Some y}"
  by (induction xs) (auto simp: List.map_filter_simps split: option.splits)

lemma batch_keys_facts:
  assumes "engine_ok E"
  shows "distinct (batch_keys E ms)"
    and "set (batch_keys E ms) = {k. \<exists>m \<in> set ms. pb_idempotency_key m = Some k}"
proof -
  have m: "mset (batch_keys E ms) = mset (remdups (List.map_filter pb_idempotency_key ms))"
    using assms by (simp add: engine_ok_def batch_keys_def)
  then show "distinct (batch_keys E ms)"
    using distinct_remdups mset_eq_imp_distinct_iff by blast
  show "set (batch_keys E ms) = {k. \<exists>m \<in> set ms. pb_idempotency_key m = Some k}"
    using mset_eq_setD [OF m] by (simp add: set_map_filter)
qed

lemma purge_expired_simps [simp]:
  "t_messages (purge_expired_idempotency t db) = t_messages db"
  "t_consumers (purge_expired_idempotency t db) = t_consumers db"
  "t_deliveries (purge_expired_idempotency t db) = t_deliveries db"
  "t_archives (purge_expired_idempotency t db) = t_archives db"
  "seq_messages (purge_expired_idempotency t db) = seq_messages db"
  "seq_consumers (purge_expired_idempotency t db) = seq_consumers db"
  "seq_archives (purge_expired_idempotency t db) = seq_archives db"
  by (simp_all add: purge_expired_idempotency_def)

lemma purge_ledger_inv: "ledger_inv db \<Longrightarrow> ledger_inv (purge_expired_idempotency t db)"
  by (auto simp: ledger_inv_def purge_expired_idempotency_def distinct_map_filter)

lemma live_ledger_row:
  assumes "ledger_inv db" and "r \<in> set (t_idempotency (purge_expired_idempotency t db))"
  shows "live_ledger t db (ir_key r) = ir_message_id r" and "\<exists>i. ir_message_id r = Some i"
proof -
  have inv: "ledger_inv (purge_expired_idempotency t db)" using assms(1) by (rule purge_ledger_inv)
  then have "find (\<lambda>r'. ir_key r' = ir_key r) (t_idempotency (purge_expired_idempotency t db)) = Some r"
    using assms(2) by (intro find_Some_unique) (auto simp: ledger_inv_def)
  then show "live_ledger t db (ir_key r) = ir_message_id r" by (simp add: live_ledger_def)
  show "\<exists>i. ir_message_id r = Some i" using inv assms(2) by (auto simp: ledger_inv_def)
qed

lemma live_ledger_None:
  assumes "ledger_inv db"
  shows "live_ledger t db k = None \<longleftrightarrow>
    k \<notin> ir_key ` set (t_idempotency (purge_expired_idempotency t db))"
proof
  assume none: "live_ledger t db k = None"
  show "k \<notin> ir_key ` set (t_idempotency (purge_expired_idempotency t db))"
  proof
    assume "k \<in> ir_key ` set (t_idempotency (purge_expired_idempotency t db))"
    then obtain r where r: "r \<in> set (t_idempotency (purge_expired_idempotency t db))" "k = ir_key r"
      by blast
    with live_ledger_row [OF assms r(1)] none show False by auto
  qed
next
  assume "k \<notin> ir_key ` set (t_idempotency (purge_expired_idempotency t db))"
  then have "find (\<lambda>r. ir_key r = k) (t_idempotency (purge_expired_idempotency t db)) = None"
    by (auto simp: find_None_iff)
  then show "live_ledger t db k = None" by (simp add: live_ledger_def)
qed

lemma live_ledger_Some:
  assumes "ledger_inv db" and "live_ledger t db k = Some i"
  shows "\<exists>r \<in> set (t_idempotency (purge_expired_idempotency t db)). ir_key r = k \<and> ir_message_id r = Some i"
  using assms(2) live_ledger_None [OF assms(1), of t k] live_ledger_row [OF assms(1), of _ t]
  by fastforce

text \<open>The ledger read back by the code, on the keys of the batch.\<close>

lemma ledger_read:
  assumes inv: "ledger_inv db" and E: "engine_ok E"
    and rows: "set (concat rows) = (\<lambda>r. (ir_key r, ir_message_id r)) `
      {r \<in> set (t_idempotency (insert_keys e (batch_keys E ms) (purge_expired_idempotency t db))).
        ir_key r \<in> set (batch_keys E ms)}"
    and k: "k \<in> set (batch_keys E ms)"
  shows "fold (\<lambda>(k, v) m. m(k \<mapsto> v)) (concat rows) Map.empty k = Some (live_ledger t db k)"
proof -
  let ?P = "purge_expired_idempotency t db"
  let ?new = "filter (\<lambda>k. k \<notin> ir_key ` set (t_idempotency ?P)) (batch_keys E ms)"
  have idem: "t_idempotency (insert_keys e (batch_keys E ms) ?P)
      = t_idempotency ?P @ map (new_entry e) ?new"
    by (simp add: insert_keys_closed [OF batch_keys_facts(1) [OF E]])
  have row: "(k, v) \<in> set (concat rows) \<longleftrightarrow>
      (\<exists>r \<in> set (t_idempotency ?P). ir_key r = k \<and> ir_message_id r = v) \<or> (k \<in> set ?new \<and> v = None)" for v
  proof -
    have "(k, v) \<in> set (concat rows) \<longleftrightarrow>
        (\<exists>r \<in> set (t_idempotency ?P @ map (new_entry e) ?new). ir_key r = k \<and> ir_message_id r = v)"
      unfolding rows idem using k by blast
    then show ?thesis
      by (simp only: set_append set_map bex_Un bex_simps) (auto simp: new_entry_def)
  qed
  have val: "(k, v) \<in> set (concat rows) \<longleftrightarrow> v = live_ledger t db k" for v
  proof (cases "k \<in> ir_key ` set (t_idempotency ?P)")
    case True
    then obtain r where r: "r \<in> set (t_idempotency ?P)" "ir_key r = k" by blast
    have L: "live_ledger t db k = ir_message_id r" using live_ledger_row [OF inv r(1)] r(2) by simp
    have "x = r" if "x \<in> set (t_idempotency ?P)" "ir_key x = k" for x
      using distinct_map_inj [of ir_key "t_idempotency ?P" x r] that r purge_ledger_inv [OF inv]
      by (simp add: ledger_inv_def)
    moreover have "k \<notin> set ?new" using True by simp
    ultimately show ?thesis unfolding row L using r by blast
  next
    case False
    then have "live_ledger t db k = None" using live_ledger_None [OF inv] by blast
    moreover have "k \<in> set ?new" using False k by simp
    moreover have "\<not> (\<exists>r \<in> set (t_idempotency ?P). ir_key r = k \<and> ir_message_id r = v)"
      using False by blast
    ultimately show ?thesis unfolding row by (simp only: simp_thms)
  qed
  show ?thesis
    by (rule fold_map_update_in) (simp_all only: val, simp)
qed

text \<open>The ledger rows as the transaction has claimed them, and as it leaves them.\<close>

definition reserved_keys :: "engine \<Rightarrow> int \<Rightarrow> publish list \<Rightarrow> database \<Rightarrow> blob list" where
  "reserved_keys E t ms db = filter (\<lambda>k. live_ledger t db k = None) (batch_keys E ms)"

definition reserved_db :: "engine \<Rightarrow> int \<Rightarrow> int \<Rightarrow> publish list \<Rightarrow> database \<Rightarrow> database" where
  "reserved_db E t e ms db =
     (purge_expired_idempotency t db)\<lparr>t_idempotency :=
        t_idempotency (purge_expired_idempotency t db) @ map (new_entry e) (reserved_keys E t ms db)\<rparr>"

definition ledger_entry :: "int \<Rightarrow> (blob \<rightharpoonup> int) \<Rightarrow> blob \<Rightarrow> idempotency_row" where
  "ledger_entry e L k = \<lparr>ir_key = k, ir_message_id = L k, ir_expires_at = e\<rparr>"

definition keyed_result :: "engine \<Rightarrow> int \<Rightarrow> int \<Rightarrow> publish list \<Rightarrow> database \<Rightarrow> database" where
  "keyed_result E t e ms db =
     (let (os, ps, L') = publish_each (live_ledger t db) (seq_messages db) ms in
      (add_messages t ps db)\<lparr>t_idempotency :=
         t_idempotency (purge_expired_idempotency t db) @ map (ledger_entry e L') (reserved_keys E t ms db)\<rparr>)"

lemma insert_batch_keys:
  assumes "engine_ok E" and "ledger_inv db"
  shows "insert_keys e (batch_keys E ms) (purge_expired_idempotency t db) = reserved_db E t e ms db"
  using live_ledger_None [OF assms(2), of t]
  by (simp add: insert_keys_closed [OF batch_keys_facts(1) [OF assms(1)]] reserved_db_def reserved_keys_def)

text \<open>First half: the ledger the code reads is the live ledger on the keys of the batch.\<close>

lemma publish_keyed_txn_reads:
  assumes E: "engine_ok E" and inv: "ledger_inv db"
  obtains ledger where
    "publish_keyed_txn E t e ms db = publish_scheduled E t ms ledger (reserved_db E t e ms db)"
    and "\<And>k. k \<in> set (batch_keys E ms) \<Longrightarrow> ledger k = Some (live_ledger t db k)"
    and "ledgers_agree ms ledger {} (live_ledger t db)"
proof -
  let ?ks = "batch_keys E ms" and ?P = "purge_expired_idempotency t db"
  have V: "0 < MAX_SQL_VARIABLES div 2" "0 < MAX_SQL_VARIABLES"
    by (simp_all add: MAX_SQL_VARIABLES_def)
  obtain r1 where r1: "run_chunks (insert_key_chunk e) (chunks (MAX_SQL_VARIABLES div 2) ?ks) ?P
      = Inr (r1, reserved_db E t e ms db)"
    using run_insert_keys [OF V(1)] insert_batch_keys [OF E inv] by metis
  obtain rows where rows: "run_chunks select_ledger_chunk (chunks MAX_SQL_VARIABLES ?ks) (reserved_db E t e ms db)
      = Inr (rows, reserved_db E t e ms db)"
    and rows_set: "set (concat rows) = (\<lambda>r. (ir_key r, ir_message_id r)) `
        {r \<in> set (t_idempotency (reserved_db E t e ms db)). ir_key r \<in> set ?ks}"
    using run_select_ledger [OF V(2)] by blast
  let ?ledger = "fold (\<lambda>(k, v) m. m(k \<mapsto> v)) (concat rows) Map.empty"
  have ledger: "?ledger k = Some (live_ledger t db k)" if "k \<in> set ?ks" for k
    by (rule ledger_read [OF inv E _ that]) (simp only: insert_batch_keys [OF E inv] rows_set)
  have "k \<in> set ?ks" if "m \<in> set ms" "pb_idempotency_key m = Some k" for m k
    using that batch_keys_facts(2) [OF E] by blast
  then have "ledgers_agree ms ?ledger {} (live_ledger t db)"
    unfolding ledgers_agree_def using ledger by fastforce
  moreover have "publish_keyed_txn E t e ms db = publish_scheduled E t ms ?ledger (reserved_db E t e ms db)"
    unfolding publish_keyed_txn_def Let_def batch_keys_def [symmetric] using r1 rows by simp
  ultimately show thesis using ledger that by blast
qed

text \<open>The updates the code derives from its positions are those of the scheduled messages.\<close>

lemma message_key_updates_assigned:
  "message_key_updates ms (map fst (schedule ledger {} 0 ms)) ids = assigned (schedule ledger {} 0 ms) ids"
proof -
  let ?sched = "schedule ledger {} 0 ms"
  have pos: "ms ! fst im = snd im" if "(im, i) \<in> set (zip ?sched ids)" for im i
    using schedule_positions [of "fst im" "snd im" ledger "{}" 0 ms] set_zip_leftD [OF that] by simp
  show ?thesis
    unfolding message_key_updates_def assigned_def zip_map1 map_filter_map
  proof (rule map_filter_cong)
    fix x assume x: "x \<in> set (zip ?sched ids)"
    obtain im i where im: "x = (im, i)" by (cases x)
    with x have "(im, i) \<in> set (zip ?sched ids)" by simp
    from pos [OF this] show "(case case x of (im, y) \<Rightarrow> (fst im, y) of
        (index, i) \<Rightarrow> map_option (\<lambda>k. (k, i)) (pb_idempotency_key (ms ! index)))
      = (case x of (im, i) \<Rightarrow> map_option (\<lambda>k. (k, i)) (pb_idempotency_key (snd im)))"
      by (simp add: im)
  qed
qed

text \<open>The ledger map after the updates answers every key of the batch with its message.\<close>

lemma updated_ledger:
  assumes U: "\<And>k j. map_of U k = Some j \<longleftrightarrow> L k = None \<and> L' k = Some j" "distinct (map fst U)"
    and mono: "\<And>k i. L k = Some i \<Longrightarrow> L' k = Some i"
    and ledger: "ledger k = Some (L k)" and L': "L' k = Some j"
  shows "fold (\<lambda>(k, i) m. m(k \<mapsto> Some i)) U ledger k = Some (Some j)"
proof -
  have f: "fold (\<lambda>(k, i) m. m(k \<mapsto> Some i)) U ledger
      = fold (\<lambda>(k, v) m. m(k \<mapsto> v)) (map (\<lambda>(k, i). (k, Some i)) U) ledger"
    by (simp add: fold_map comp_def split_def)
  show ?thesis
  proof (cases "L k")
    case None
    then have "map_of U k = Some j" using U(1) L' by simp
    then have kj: "(k, j) \<in> set U" by (rule map_of_SomeD)
    then have "(k, Some j) \<in> set (map (\<lambda>(k, i). (k, Some i)) U)" by force
    moreover have "\<forall>v. (k, v) \<in> set U \<longrightarrow> v = j"
      using U(2) kj by (blast dest: eq_key_imp_eq_value)
    then have "\<forall>v. (k, v) \<in> set (map (\<lambda>(k, i). (k, Some i)) U) \<longrightarrow> v = Some j"
      by auto
    ultimately show ?thesis unfolding f by (rule fold_map_update_in)
  next
    case (Some i)
    then have "k \<notin> fst ` set U" using U(1) [of k] by (cases "map_of U k") (auto simp: map_of_eq_None_iff)
    then have "fold (\<lambda>(k, i) m. m(k \<mapsto> Some i)) U ledger k = ledger k"
      unfolding f by (intro fold_map_update_notin) force
    then show ?thesis using mono [OF Some] ledger Some L' by simp
  qed
qed

text \<open>The rows after the updates: old rows untouched, the claimed ones completed.\<close>

lemma updated_rows:
  assumes U: "\<And>k j. map_of U k = Some j \<longleftrightarrow> live_ledger t db k = None \<and> L' k = Some j"
    and E: "engine_ok E" and inv: "ledger_inv db"
    and ref: "publish_each (live_ledger t db) n ms = (os, ps, L')"
  shows "map (set_entry U) (t_idempotency (reserved_db E t e ms db)) =
    t_idempotency (purge_expired_idempotency t db) @ map (ledger_entry e L') (reserved_keys E t ms db)"
proof -
  have old: "set_entry U r = r" if "r \<in> set (t_idempotency (purge_expired_idempotency t db))" for r
  proof -
    have "map_of U (ir_key r) \<noteq> Some j" for j
      using live_ledger_row [OF inv that] U(1) [of "ir_key r" j] by auto
    then have "map_of U (ir_key r) = None" by blast
    then show ?thesis by (simp add: set_entry_def map_of_eq_None_iff)
  qed
  have fresh: "set_entry U (new_entry e k) = ledger_entry e L' k" if k: "k \<in> set (reserved_keys E t ms db)" for k
  proof -
    obtain m where "m \<in> set ms" "pb_idempotency_key m = Some k"
      using k batch_keys_facts(2) [OF E, of ms] by (auto simp: reserved_keys_def)
    then obtain j where "L' k = Some j" using publish_each_keys [OF ref] by blast
    moreover from this have "map_of U k = Some j" using k U(1) by (simp add: reserved_keys_def)
    moreover from this have "k \<in> fst ` set U" by (force dest: map_of_SomeD)
    ultimately show ?thesis by (simp add: set_entry_def new_entry_def ledger_entry_def)
  qed
  show ?thesis using old fresh by (simp add: reserved_db_def map_idI)
qed

text \<open>
  The set-based transaction computes what publishing the messages one at a time would,
  whatever order the engine returns rows and keys in, and wherever the chunks are cut.
\<close>

lemma publish_keyed_txn_ok:
  assumes E: "engine_ok E" and inv: "ledger_inv db"
    and ref: "publish_each (live_ledger t db) (seq_messages db) ms = (os, ps, L')"
    and cap: "seq_messages db + int (length ps) \<le> i64_max"
  shows "publish_keyed_txn E t e ms db = Inr ((os, ps), keyed_result E t e ms db)"
proof -
  obtain ledger where txn: "publish_keyed_txn E t e ms db = publish_scheduled E t ms ledger (reserved_db E t e ms db)"
    and ledger: "\<And>k. k \<in> set (batch_keys E ms) \<Longrightarrow> ledger k = Some (live_ledger t db k)"
    and agree: "ledgers_agree ms ledger {} (live_ledger t db)"
    using publish_keyed_txn_reads [OF E inv] by blast
  let ?sched = "schedule ledger {} 0 ms"
  let ?ids = "[seq_messages db + 1..seq_messages db + int (length ps)]"
  let ?U = "assigned ?sched ?ids"
  let ?db3 = "add_messages t ps (reserved_db E t e ms db)"
  have ps: "map snd ?sched = ps" by (rule schedule_messages [OF ref agree])
  have ins: "insert_message_rows E ps t (reserved_db E t e ms db) = Inr (?ids, ?db3)"
    using insert_message_rows_ok [OF E, of "reserved_db E t e ms db" ps t] cap
    by (simp add: reserved_db_def)
  have U: "map_of ?U k = Some j \<longleftrightarrow> live_ledger t db k = None \<and> L' k = Some j" "distinct (map fst ?U)" for k j
    using assigned_ledger [OF ref agree] by blast+
  have "0 < MAX_SQL_VARIABLES div 2" by (simp add: MAX_SQL_VARIABLES_def)
  from run_update_ledger [OF this U(2), of ?db3] obtain r4 where
    upd: "run_chunks update_ledger_chunk (chunks (MAX_SQL_VARIABLES div 2) ?U) ?db3
      = Inr (r4, ?db3\<lparr>t_idempotency := map (set_entry ?U) (t_idempotency ?db3)\<rparr>)"
    by (auto simp: update_ledger_chunk_def)
  have final: "fold (\<lambda>(k, i) m. m(k \<mapsto> Some i)) ?U ledger k = Some (Some j)"
    if "m \<in> set ms" "pb_idempotency_key m = Some k" "L' k = Some j" for m k j
  proof -
    have "k \<in> set (batch_keys E ms)" using that batch_keys_facts(2) [OF E] by blast
    note known = ledger [OF this]
    show ?thesis
      by (rule updated_ledger [where L = "live_ledger t db" and L' = L' and U = ?U
            and ledger = ledger and k = k and j = j,
            OF U publish_each_mono [OF ref] known that(3)])
  qed
  have out: "map_result (outcome_at (map_of (zip (map fst ?sched) ?ids))
      (fold (\<lambda>(k, i) m. m(k \<mapsto> Some i)) ?U ledger)) (enumerate 0 ms) = Inr os"
    using final by (intro outcomes_reference [OF ref agree]) auto
  have "?db3\<lparr>t_idempotency := map (set_entry ?U) (t_idempotency ?db3)\<rparr> = keyed_result E t e ms db"
    using updated_rows [OF U(1) E inv ref]
    by (simp add: keyed_result_def ref add_messages_def reserved_db_def purge_expired_idempotency_def)
  then show ?thesis
    unfolding txn publish_scheduled_def Let_def message_key_updates_assigned
    using ps ins upd out by simp
qed

lemma publish_keyed_txn_full:
  assumes E: "engine_ok E" and inv: "ledger_inv db" and m: "messages_inv db"
    and ref: "publish_each (live_ledger t db) (seq_messages db) ms = (os, ps, L')"
    and cap: "\<not> seq_messages db + int (length ps) \<le> i64_max"
  shows "publish_keyed_txn E t e ms db = Inl (Sqlx DatabaseFull)"
proof -
  obtain ledger where txn: "publish_keyed_txn E t e ms db = publish_scheduled E t ms ledger (reserved_db E t e ms db)"
    and agree: "ledgers_agree ms ledger {} (live_ledger t db)"
    using publish_keyed_txn_reads [OF E inv] by blast
  have "map snd (schedule ledger {} 0 ms) = ps" by (rule schedule_messages [OF ref agree])
  moreover have "insert_message_rows E ps t (reserved_db E t e ms db) = Inl (Sqlx DatabaseFull)"
    using insert_message_rows_full [OF E, of "reserved_db E t e ms db" ps t] cap m
    by (simp add: reserved_db_def messages_inv_def)
  ultimately show ?thesis unfolding txn publish_scheduled_def Let_def by simp
qed

text \<open>Every run of the transaction, at a glance.\<close>

lemma publish_keyed_txn_eq:
  assumes "engine_ok E" and "ledger_inv db" and "messages_inv db"
  shows "publish_keyed_txn E t e ms db =
    (case publish_each (live_ledger t db) (seq_messages db) ms of (os, ps, L') \<Rightarrow>
       if seq_messages db + int (length ps) \<le> i64_max
       then Inr ((os, ps), keyed_result E t e ms db) else Inl (Sqlx DatabaseFull))"
  using publish_keyed_txn_ok [OF assms(1,2)] publish_keyed_txn_full [OF assms]
  by (auto split: prod.splits)

subsection \<open>The invariant and the operations in terms of the reference\<close>

lemma publish_each_bounds:
  "publish_each L n ms = (os, ps, L') \<Longrightarrow> L' k = Some j \<Longrightarrow>
   L k = Some j \<or> n < j \<and> j \<le> n + int (length ps)"
proof (induction ms arbitrary: L n os ps)
  case (Cons m ms)
  from Cons.prems(1) show ?case
  proof (cases rule: publish_each_ConsE)
    case (unkeyed os1 ps1)
    from Cons.IH [OF unkeyed(2) Cons.prems(2)] unkeyed(4) show ?thesis by auto
  next
    case (known k1 i os1)
    from Cons.IH [OF known(3) Cons.prems(2)] show ?thesis .
  next
    case (first k1 os1 ps1)
    from Cons.IH [OF first(3) Cons.prems(2)] first(5) show ?thesis by (auto split: if_splits)
  qed
qed simp

lemma publish_each_unkeyed:
  "\<forall>m \<in> set ms. pb_idempotency_key m = None \<Longrightarrow>
   publish_each L n ms = (map (\<lambda>i. Published (MessageId i)) [n + 1..n + int (length ms)], ms, L)"
proof (induction ms arbitrary: n)
  case (Cons m ms)
  then show ?case unfolding upto_Cons_length by simp
qed simp

lemma keyed_result_ref:
  assumes "publish_each (live_ledger t db) (seq_messages db) ms = (os, ps, L')"
  shows "keyed_result E t e ms db = (add_messages t ps db)\<lparr>t_idempotency :=
     t_idempotency (purge_expired_idempotency t db) @ map (ledger_entry e L') (reserved_keys E t ms db)\<rparr>"
  by (simp add: keyed_result_def assms)

lemma reserved_keys_new:
  assumes "engine_ok E" and "ledger_inv db"
  shows "distinct (reserved_keys E t ms db)"
    and "set (reserved_keys E t ms db) \<inter> ir_key ` set (t_idempotency (purge_expired_idempotency t db)) = {}"
  using batch_keys_facts(1) [OF assms(1)] live_ledger_None [OF assms(2), of t]
  by (auto simp: reserved_keys_def)

lemma keyed_result_inv:
  assumes inv: "db_inv db" and E: "engine_ok E"
    and ref: "publish_each (live_ledger t db) (seq_messages db) ms = (os, ps, L')"
    and cap: "seq_messages db + int (length ps) \<le> i64_max"
  shows "db_inv (keyed_result E t e ms db)"
  unfolding keyed_result_ref [OF ref]
proof (rule db_inv_set_ledger [OF add_messages_inv [OF inv cap]])
  note ledger = db_invD(5) [OF inv]
  have old: "\<exists>i. ir_message_id r = Some i \<and> 0 < i \<and> i \<le> seq_messages db + int (length ps)"
    if "r \<in> set (t_idempotency (purge_expired_idempotency t db))" for r
    using that purge_ledger_inv [OF ledger, of t] by (fastforce simp: ledger_inv_def)
  have new: "\<exists>i. L' k = Some i \<and> 0 < i \<and> i \<le> seq_messages db + int (length ps)"
    if k: "k \<in> set (reserved_keys E t ms db)" for k
  proof -
    obtain m where "m \<in> set ms" "pb_idempotency_key m = Some k"
      using k batch_keys_facts(2) [OF E, of ms] by (auto simp: reserved_keys_def)
    then obtain j where j: "L' k = Some j" using publish_each_keys [OF ref] by blast
    moreover have "live_ledger t db k = None" using k by (simp add: reserved_keys_def)
    ultimately show ?thesis
      using publish_each_bounds [OF ref j] db_invD(1) [OF inv] by (auto simp: messages_inv_def)
  qed
  have "distinct (map ir_key (t_idempotency (purge_expired_idempotency t db)))"
    using purge_ledger_inv [OF ledger] by (simp add: ledger_inv_def)
  moreover have "map ir_key (map (ledger_entry e L') (reserved_keys E t ms db)) = reserved_keys E t ms db"
    by (simp add: ledger_entry_def comp_def)
  ultimately show "ledger_inv (add_messages t ps db\<lparr>t_idempotency :=
      t_idempotency (purge_expired_idempotency t db) @ map (ledger_entry e L') (reserved_keys E t ms db)\<rparr>)"
    using reserved_keys_new [OF E ledger, of t ms] old new
    by (auto simp: ledger_inv_def ledger_entry_def disjoint_iff)
qed

text \<open>What the ledger answers later, from the state the transaction leaves.\<close>

lemma live_ledger_SomeI:
  assumes "ledger_inv db" and "r \<in> set (t_idempotency db)" and "t < ir_expires_at r"
  shows "live_ledger t db (ir_key r) = ir_message_id r"
  using assms by (intro live_ledger_row(1)) (auto simp: purge_expired_idempotency_def)

lemma live_ledger_SomeD:
  assumes "ledger_inv db" and "live_ledger t db k = Some i"
  obtains r where "r \<in> set (t_idempotency db)" "ir_key r = k" "ir_message_id r = Some i" "t < ir_expires_at r"
  using live_ledger_Some [OF assms] by (auto simp: purge_expired_idempotency_def)

lemma live_ledger_antimono:
  assumes "ledger_inv db" and "live_ledger t db k = Some i" and "t' \<le> t"
  shows "live_ledger t' db k = Some i"
proof -
  obtain r where "r \<in> set (t_idempotency db)" "ir_key r = k" "ir_message_id r = Some i" "t < ir_expires_at r"
    using live_ledger_SomeD [OF assms(1,2)] .
  with live_ledger_SomeI [OF assms(1), of r t'] assms(3) show ?thesis by simp
qed

lemma keyed_result_ledger:
  assumes inv: "db_inv db" and E: "engine_ok E"
    and ref: "publish_each (live_ledger t db) (seq_messages db) ms = (os, ps, L')"
    and cap: "seq_messages db + int (length ps) \<le> i64_max"
    and k: "m \<in> set ms" "pb_idempotency_key m = Some k" "live_ledger t db k = None" and t': "t' < e"
  shows "live_ledger t' (keyed_result E t e ms db) k = L' k"
proof -
  have "k \<in> set (reserved_keys E t ms db)"
    using k batch_keys_facts(2) [OF E, of ms] by (auto simp: reserved_keys_def)
  then have "ledger_entry e L' k \<in> set (t_idempotency (keyed_result E t e ms db))"
    by (simp add: keyed_result_ref [OF ref])
  from live_ledger_SomeI [OF db_invD(5) [OF keyed_result_inv [OF inv E ref cap]] this, of t'] t'
  show ?thesis by (simp add: ledger_entry_def)
qed

text \<open>Entries that are still in force survive a keyed publish, with their expiry.\<close>

lemma keyed_result_keeps:
  assumes inv: "db_inv db" and E: "engine_ok E"
    and ref: "publish_each (live_ledger t db) (seq_messages db) ms = (os, ps, L')"
    and cap: "seq_messages db + int (length ps) \<le> i64_max"
    and k: "live_ledger t' db k = Some i" and t': "t \<le> t'"
  shows "live_ledger t' (keyed_result E t e ms db) k = Some i"
proof -
  obtain r where r: "r \<in> set (t_idempotency db)" "ir_key r = k" "ir_message_id r = Some i" "t' < ir_expires_at r"
    using live_ledger_SomeD [OF db_invD(5) [OF inv] k] .
  then have "r \<in> set (t_idempotency (keyed_result E t e ms db))"
    using t' by (simp add: keyed_result_ref [OF ref] purge_expired_idempotency_def)
  from live_ledger_SomeI [OF db_invD(5) [OF keyed_result_inv [OF inv E ref cap]] this r(4)] r(2,3)
  show ?thesis by simp
qed

subsection \<open>The batch operation\<close>

text \<open>The database a successful batch leaves, and the wake-ups it sends.\<close>

definition batch_unkeyed :: "publish list \<Rightarrow> bool" where
  "batch_unkeyed ms \<longleftrightarrow> (\<forall>m \<in> set ms. pb_idempotency_key m = None)"

definition published_db :: "engine \<Rightarrow> int \<Rightarrow> int \<Rightarrow> publish list \<Rightarrow> database \<Rightarrow> database" where
  "published_db E t e ms db = (if batch_unkeyed ms then add_messages t ms db else keyed_result E t e ms db)"

definition wake_publishes :: "publish list \<Rightarrow> signals \<Rightarrow> signals" where
  "wake_publishes ps sg = (if ps = [] then sg else notify_publishes (map pb_topic ps) sg)"

lemma published_db_simps:
  assumes "publish_each (live_ledger t db) (seq_messages db) ms = (os, ps, L')"
  shows "t_messages (published_db E t e ms db) = t_messages db @ message_rows (seq_messages db) t ps"
    and "seq_messages (published_db E t e ms db) = seq_messages db + int (length ps)"
    and "t_consumers (published_db E t e ms db) = t_consumers db"
    and "t_deliveries (published_db E t e ms db) = t_deliveries db"
    and "t_archives (published_db E t e ms db) = t_archives db"
    and "seq_consumers (published_db E t e ms db) = seq_consumers db"
    and "seq_archives (published_db E t e ms db) = seq_archives db"
  using assms publish_each_unkeyed [of ms "live_ledger t db" "seq_messages db"]
  by (auto simp: published_db_def batch_unkeyed_def keyed_result_def add_messages_def)

lemma published_db_inv:
  assumes "db_inv db" and "engine_ok E"
    and "publish_each (live_ledger t db) (seq_messages db) ms = (os, ps, L')"
    and "seq_messages db + int (length ps) \<le> i64_max"
  shows "db_inv (published_db E t e ms db)"
  using assms keyed_result_inv [OF assms] add_messages_inv [OF assms(1), of ms t]
    publish_each_unkeyed [of ms "live_ledger t db" "seq_messages db"]
  by (auto simp: published_db_def batch_unkeyed_def)

text \<open>A batch as an equation over its reference, on both paths.\<close>

lemma unkeyed_batch_eq:
  assumes inv: "fan_inv fan" and E: "engine_ok E" and ms: "ms \<noteq> []" "length ms \<le> lf_max_batch_size fan"
    and unkeyed: "batch_unkeyed ms" and t: "now_ms clk = Inr t"
    and ref: "publish_each (live_ledger t (lf_pool fan)) (seq_messages (lf_pool fan)) ms = (os, ps, L')"
  shows "publish_batch E clk ms fan =
    (if seq_messages (lf_pool fan) + int (length ps) \<le> i64_max
     then (Inr os, fan\<lparr>lf_pool := published_db E t (t + lf_idempotency_window_ms fan) ms (lf_pool fan),
             lf_signals := wake_publishes ps (lf_signals fan)\<rparr>)
     else (Inl (Sqlx DatabaseFull), fan))"
proof -
  let ?db = "lf_pool fan"
  have all: "\<forall>m \<in> set ms. pb_idempotency_key m = None" using unkeyed by (simp add: batch_unkeyed_def)
  have ref': "os = map (\<lambda>i. Published (MessageId i)) [seq_messages ?db + 1..seq_messages ?db + int (length ms)]" "ps = ms"
    using trans [OF ref [symmetric] publish_each_unkeyed [OF all]] by simp_all
  have batch: "publish_batch E clk ms fan = publish_unkeyed_batch E clk ms fan"
    using ms all by (simp add: publish_batch_def ensure_batch_size_def)
  show ?thesis
  proof (cases "seq_messages ?db + int (length ms) \<le> i64_max")
    case True
    from batch insert_message_rows_ok [OF E this, of t] ms(1) t ref' unkeyed True show ?thesis
      by (simp add: publish_unkeyed_batch_def transaction_def published_db_def wake_publishes_def)
  next
    case False
    have "seq_messages ?db \<le> i64_max" using db_invD(1) [OF fan_invD(1) [OF inv]] by (simp add: messages_inv_def)
    from batch insert_message_rows_full [OF E this False, of t] t ref' False show ?thesis
      by (simp add: publish_unkeyed_batch_def transaction_def)
  qed
qed

lemma keyed_batch_eq:
  assumes inv: "fan_inv fan" and E: "engine_ok E" and ms: "ms \<noteq> []" "length ms \<le> lf_max_batch_size fan"
    and keyed: "\<not> batch_unkeyed ms" and t: "now_ms clk = Inr t"
    and ref: "publish_each (live_ledger t (lf_pool fan)) (seq_messages (lf_pool fan)) ms = (os, ps, L')"
  shows "publish_batch E clk ms fan =
    (if \<not> in_i64 (t + lf_idempotency_window_ms fan) then (Inl DurationOutOfRange, fan)
     else if seq_messages (lf_pool fan) + int (length ps) \<le> i64_max
     then (Inr os, fan\<lparr>lf_pool := published_db E t (t + lf_idempotency_window_ms fan) ms (lf_pool fan),
             lf_signals := wake_publishes ps (lf_signals fan)\<rparr>)
     else (Inl (Sqlx DatabaseFull), fan))"
proof -
  note db = fan_invD(1) [OF inv]
  have keyed': "\<not> (\<forall>m \<in> set ms. pb_idempotency_key m = None)" using keyed by (simp add: batch_unkeyed_def)
  have txn: "publish_keyed_txn E t e ms (lf_pool fan) =
    (if seq_messages (lf_pool fan) + int (length ps) \<le> i64_max
     then Inr ((os, ps), keyed_result E t e ms (lf_pool fan)) else Inl (Sqlx DatabaseFull))" for e
    using publish_keyed_txn_eq [OF E db_invD(5) [OF db] db_invD(1) [OF db], of t e ms] ref by simp
  show ?thesis
    unfolding publish_batch_def if_not_P [OF ms(1)] if_not_P [OF keyed']
    using ms(2) t keyed
    by (simp add: ensure_batch_size_def transaction_def txn published_db_def wake_publishes_def checked_add_def)
qed

lemma publish_batch_eq:
  assumes inv: "fan_inv fan" and E: "engine_ok E" and ms: "ms \<noteq> []" "length ms \<le> lf_max_batch_size fan"
    and ref: "\<And>t. now_ms clk = Inr t \<Longrightarrow>
      publish_each (live_ledger t (lf_pool fan)) (seq_messages (lf_pool fan)) ms = (os t, ps t, L' t)"
  shows "publish_batch E clk ms fan =
    (case now_ms clk of
       Inl e \<Rightarrow> (Inl e, fan)
     | Inr t \<Rightarrow>
         if \<not> batch_unkeyed ms \<and> \<not> in_i64 (t + lf_idempotency_window_ms fan) then (Inl DurationOutOfRange, fan)
         else if seq_messages (lf_pool fan) + int (length (ps t)) \<le> i64_max
         then (Inr (os t), fan\<lparr>lf_pool := published_db E t (t + lf_idempotency_window_ms fan) ms (lf_pool fan),
                 lf_signals := wake_publishes (ps t) (lf_signals fan)\<rparr>)
         else (Inl (Sqlx DatabaseFull), fan))"
proof (cases "now_ms clk")
  case (Inl e)
  with ms show ?thesis by (simp add: publish_batch_def publish_unkeyed_batch_def ensure_batch_size_def)
next
  case (Inr t)
  with unkeyed_batch_eq [OF inv E ms _ Inr ref [OF Inr]] keyed_batch_eq [OF inv E ms _ Inr ref [OF Inr]]
  show ?thesis by (cases "batch_unkeyed ms") simp_all
qed

lemma publish_batch_Inr:
  assumes inv: "fan_inv fan" and E: "engine_ok E" and ms: "ms \<noteq> []"
    and run: "publish_batch E clk ms fan = (Inr os, fan')"
  obtains t ps L' where "now_ms clk = Inr t" "length ms \<le> lf_max_batch_size fan"
    "publish_each (live_ledger t (lf_pool fan)) (seq_messages (lf_pool fan)) ms = (os, ps, L')"
    "seq_messages (lf_pool fan) + int (length ps) \<le> i64_max"
    "batch_unkeyed ms \<or> t + lf_idempotency_window_ms fan \<le> i64_max"
    "fan' = fan\<lparr>lf_pool := published_db E t (t + lf_idempotency_window_ms fan) ms (lf_pool fan),
               lf_signals := wake_publishes ps (lf_signals fan)\<rparr>"
proof -
  have size: "length ms \<le> lf_max_batch_size fan"
    using run ms by (auto simp: publish_batch_def ensure_batch_size_def split: if_splits)
  let ?ref = "\<lambda>t. publish_each (live_ledger t (lf_pool fan)) (seq_messages (lf_pool fan)) ms"
  have ref: "?ref t = (fst (?ref t), fst (snd (?ref t)), snd (snd (?ref t)))" for t by simp
  note eq = publish_batch_eq [OF inv E ms size ref]
  obtain t where t: "now_ms clk = Inr t" using run eq by (auto split: sum.splits)
  show thesis
    by (rule that [OF t size, of "fst (snd (?ref t))" "snd (snd (?ref t))"])
      (use run eq t ref [of t] in \<open>auto simp: in_i64_def split: if_splits\<close>)
qed

lemma publish_batch_Inl:
  assumes "publish_batch E clk ms fan = (Inl e, fan')"
  shows "fan' = fan"
  using assms
  by (auto simp: publish_batch_def publish_unkeyed_batch_def transaction_def
      split: if_splits sum.splits prod.splits)

lemma publish_batch_inv:
  assumes inv: "fan_inv fan" and E: "engine_ok E" and run: "publish_batch E clk ms fan = (r, fan')"
  shows "fan_inv fan'"
proof (cases r)
  case (Inl e)
  with run inv publish_batch_Inl show ?thesis by blast
next
  case (Inr os)
  show ?thesis
  proof (cases "ms = []")
    case True
    with run inv show ?thesis by (simp add: publish_batch_def)
  next
    case False
    from run Inr have "publish_batch E clk ms fan = (Inr os, fan')" by simp
    then show ?thesis
      by (rule publish_batch_Inr [OF inv E False])
        (simp add: fan_inv_update(1) inv published_db_inv fan_invD(1) E fan_invD(2)
          wake_publishes_def notify_publishes_inv)
  qed
qed

end
