(* ===== verification/Receipts.thy ===== *)
theory Receipts
  imports Litefan
begin

text \<open>
  The receipt operations of \<open>consumer.rs\<close>: acknowledgement, release for retry and extension
  of a lease. Each cuts its receipts into chunks of \<open>RECEIPTS_PER_CHUNK\<close> and adds up the rows
  the statements touched. Acknowledging can be cut anywhere without a change of the result
  (\<open>chunked_stmt\<close>). Extending and releasing can not: an extended row still matches the receipt in
  a later chunk, and a released row matches a receipt for its next generation there (\<open>nack_hits\<close>).
\<close>

definition receipt_clause :: "int \<Rightarrow> receipt list \<Rightarrow> delivery_row \<Rightarrow> bool" where
  "receipt_clause cid receipts d \<longleftrightarrow> dr_consumer_id d = cid \<and> push_receipt_predicate receipts d"

definition ack_chunk :: "int \<Rightarrow> receipt list \<Rightarrow> database \<Rightarrow> (nat \<times> database) outcome" where
  "ack_chunk cid receipts db =
     (case delete_deliveries (receipt_clause cid receipts) db of (rows, db') \<Rightarrow> Inr (length rows, db'))"

definition nack_row :: "int \<Rightarrow> delivery_row \<Rightarrow> delivery_row outcome" where
  "nack_row visible_at d =
     and_then (sql_incr (dr_generation d)) (\<lambda>generation.
       Inr (d\<lparr>dr_visible_at := visible_at, dr_generation := generation\<rparr>))"

definition nack_chunk :: "int \<Rightarrow> int \<Rightarrow> receipt list \<Rightarrow> database \<Rightarrow> (nat \<times> database) outcome" where
  "nack_chunk visible_at cid receipts db =
     update_deliveries (receipt_clause cid receipts) (nack_row visible_at) db"

definition extend_chunk :: "int \<Rightarrow> int \<Rightarrow> receipt list \<Rightarrow> database \<Rightarrow> (nat \<times> database) outcome" where
  "extend_chunk visible_at cid receipts db =
     update_deliveries (receipt_clause cid receipts)
       (\<lambda>d. Inr (d\<lparr>dr_visible_at := max (dr_visible_at d) visible_at\<rparr>)) db"

text \<open>The chunk loop of a receipt transaction: \<open>applied += rows_affected\<close>.\<close>

definition receipts_txn :: "(receipt list \<Rightarrow> database \<Rightarrow> (nat \<times> database) outcome)
    \<Rightarrow> receipt list \<Rightarrow> database \<Rightarrow> (nat \<times> database) outcome" where
  "receipts_txn stmt receipts db =
     and_then (run_chunks stmt (chunks RECEIPTS_PER_CHUNK receipts) db)
       (\<lambda>(ns, db'). Inr (sum_list ns, db'))"

definition batch_result_of :: "receipt list \<Rightarrow> nat \<Rightarrow> batch_result" where
  "batch_result_of receipts applied = \<lparr>br_applied = applied, br_stale = length receipts - applied\<rparr>"

definition ack_batch :: "consumer \<Rightarrow> receipt list \<Rightarrow> batch_result handler" where
  "ack_batch self receipts fan =
     (if receipts = [] then (Inr default_batch_result, fan)
      else case ensure_batch_size fan (length receipts) of
        Inl e \<Rightarrow> (Inl e, fan)
      | Inr _ \<Rightarrow>
          (case transaction (receipts_txn (ack_chunk (co_id self)) receipts) (lf_pool fan) of
             (Inl e, db) \<Rightarrow> (Inl e, fan\<lparr>lf_pool := db\<rparr>)
           | (Inr applied, db) \<Rightarrow> (Inr (batch_result_of receipts applied), fan\<lparr>lf_pool := db\<rparr>)))"

definition nack_batch :: "clock \<Rightarrow> consumer \<Rightarrow> receipt list \<Rightarrow> retry \<Rightarrow> batch_result handler" where
  "nack_batch clk self receipts retry fan =
     (if receipts = [] then (Inr default_batch_result, fan)
      else case and_then (ensure_batch_size fan (length receipts)) (\<lambda>_.
             and_then (now_ms clk) (\<lambda>now. add_duration now (retry_delay retry))) of
        Inl e \<Rightarrow> (Inl e, fan)
      | Inr visible_at \<Rightarrow>
          (case transaction (receipts_txn (nack_chunk visible_at (co_id self)) receipts) (lf_pool fan) of
             (Inl e, db) \<Rightarrow> (Inl e, fan\<lparr>lf_pool := db\<rparr>)
           | (Inr applied, db) \<Rightarrow>
               (Inr (batch_result_of receipts applied),
                if 0 < applied
                then fan\<lparr>lf_pool := db,
                         lf_signals := notify_signal (co_consumer_signal self) (lf_signals fan)\<rparr>
                else fan\<lparr>lf_pool := db\<rparr>)))"

definition extend_visibility_batch :: "clock \<Rightarrow> consumer \<Rightarrow> receipt list \<Rightarrow> duration \<Rightarrow> batch_result handler" where
  "extend_visibility_batch clk self receipts visibility_timeout fan =
     (if receipts = [] then (Inr default_batch_result, fan)
      else case and_then (ensure_batch_size fan (length receipts)) (\<lambda>_.
             and_then (duration_ms visibility_timeout) (\<lambda>ms.
             if ms = 0 then Inl InvalidVisibilityTimeout
             else and_then (now_ms clk) (\<lambda>now. add_duration now visibility_timeout))) of
        Inl e \<Rightarrow> (Inl e, fan)
      | Inr visible_at \<Rightarrow>
          (case transaction (receipts_txn (extend_chunk visible_at (co_id self)) receipts) (lf_pool fan) of
             (Inl e, db) \<Rightarrow> (Inl e, fan\<lparr>lf_pool := db\<rparr>)
           | (Inr applied, db) \<Rightarrow> (Inr (batch_result_of receipts applied), fan\<lparr>lf_pool := db\<rparr>)))"

definition applied_one :: "batch_result outcome \<times> litefan \<Rightarrow> bool outcome \<times> litefan" where
  "applied_one r = (case r of (Inl e, fan) \<Rightarrow> (Inl e, fan) | (Inr b, fan) \<Rightarrow> (Inr (br_applied b = 1), fan))"

definition ack :: "consumer \<Rightarrow> receipt \<Rightarrow> bool handler" where
  "ack self receipt fan = applied_one (ack_batch self [receipt] fan)"

definition nack :: "clock \<Rightarrow> consumer \<Rightarrow> receipt \<Rightarrow> retry \<Rightarrow> bool handler" where
  "nack clk self receipt retry fan = applied_one (nack_batch clk self [receipt] retry fan)"

definition extend_visibility :: "clock \<Rightarrow> consumer \<Rightarrow> receipt \<Rightarrow> duration \<Rightarrow> bool handler" where
  "extend_visibility clk self receipt visibility_timeout fan =
     applied_one (extend_visibility_batch clk self [receipt] visibility_timeout fan)"

subsection \<open>Which leases a batch holds\<close>

lemma receipt_clause_append:
  "receipt_clause cid (xs @ ys) d \<longleftrightarrow> receipt_clause cid xs d \<or> receipt_clause cid ys d"
  by (auto simp: receipt_clause_def push_receipt_predicate_def)

lemma receipt_clause_append_fun:
  "receipt_clause cid (xs @ ys) = (\<lambda>d. receipt_clause cid xs d \<or> receipt_clause cid ys d)"
  by (rule ext) (rule receipt_clause_append)

lemma receipt_clause_Nil [simp]: "receipt_clause cid [] d \<longleftrightarrow> False"
  by (simp add: receipt_clause_def push_receipt_predicate_def)

lemma receipt_clause_singleton:
  "receipt_clause cid [r] d \<longleftrightarrow> dr_consumer_id d = cid \<and> lease_key d = receipt_key r"
  by (auto simp: receipt_clause_def push_receipt_predicate_def)

text \<open>The leases of a consumer that the receipts name: each counts once, however often it is named.\<close>

definition held_leases :: "int \<Rightarrow> receipt list \<Rightarrow> database \<Rightarrow> (int \<times> int \<times> int) set" where
  "held_leases cid receipts db =
     receipt_key ` set receipts \<inter> lease_key ` set (deliveries_of db cid)"

lemma lease_key_inj:
  assumes "deliveries_inv db"
  shows "inj_on lease_key (set (t_deliveries db))"
proof (rule inj_onI)
  fix d d' assume d: "d \<in> set (t_deliveries db)" "d' \<in> set (t_deliveries db)" "lease_key d = lease_key d'"
  then have "dr_key d = dr_key d'" by (simp add: lease_key_def dr_key_def)
  with d assms show "d = d'"
    using distinct_map_inj [of dr_key "t_deliveries db" d d'] by (simp add: deliveries_inv_def)
qed

lemma length_held:
  assumes "deliveries_inv db"
  shows "length (filter (receipt_clause cid rs) (t_deliveries db)) = card (held_leases cid rs db)"
proof -
  let ?D = "set (filter (receipt_clause cid rs) (t_deliveries db))"
  have "distinct (t_deliveries db)"
    using assms by (simp add: deliveries_inv_def distinct_map)
  then have "length (filter (receipt_clause cid rs) (t_deliveries db)) = card ?D"
    by (metis distinct_card distinct_filter)
  also have "\<dots> = card (lease_key ` ?D)"
    using lease_key_inj [OF assms] by (intro card_image [symmetric]) (auto simp: inj_on_def)
  also have "lease_key ` ?D = held_leases cid rs db"
    by (auto simp: held_leases_def receipt_clause_def push_receipt_predicate_def deliveries_of_def)
  finally show ?thesis .
qed

lemma held_leases_le: "card (held_leases cid rs db) \<le> length rs"
proof -
  have "card (held_leases cid rs db) \<le> card (receipt_key ` set rs)"
    unfolding held_leases_def by (rule card_mono) auto
  also have "\<dots> \<le> length rs" by (metis card_length set_map length_map)
  finally show ?thesis .
qed

subsection \<open>Acknowledgement\<close>

interpretation ack_chunks:
  chunked_stmt "ack_chunk cid" "\<lambda>n::nat. n" "ack_chunk cid" "\<lambda>_ _. True"
  for cid :: int
proof (unfold_locales, goal_cases)
  case (3 xs ys s)
  let ?x = "receipt_clause cid xs" and ?y = "receipt_clause cid ys"
  have count: "length (filter (\<lambda>d. ?x d \<or> ?y d) ds)
      = length (filter ?x ds) + length (filter (\<lambda>d. \<not> ?x d \<and> ?y d) ds)" for ds
    by (induction ds) auto
  show ?case
    by (simp add: ack_chunk_def delete_deliveries_def receipt_clause_append_fun count conj_commute)
qed (auto simp: ack_chunk_def delete_deliveries_def)

definition acked_db :: "int \<Rightarrow> receipt list \<Rightarrow> database \<Rightarrow> database" where
  "acked_db cid rs db =
     db\<lparr>t_deliveries := filter (\<lambda>d. \<not> receipt_clause cid rs d) (t_deliveries db)\<rparr>"

lemma ack_txn_eq:
  assumes "deliveries_inv db"
  shows "receipts_txn (ack_chunk cid) rs db = Inr (card (held_leases cid rs db), acked_db cid rs db)"
proof -
  have "ack_chunk cid rs db = Inr (card (held_leases cid rs db), acked_db cid rs db)"
    using length_held [OF assms] by (simp add: ack_chunk_def delete_deliveries_def acked_db_def)
  from ack_chunks.run_chunks_of_whole [OF RECEIPTS_PER_CHUNK_pos _ this]
  show ?thesis by (auto simp: receipts_txn_def)
qed

lemma ack_batch_eq:
  assumes "fan_inv fan" and "rs \<noteq> []" and "length rs \<le> lf_max_batch_size fan"
  shows "ack_batch self rs fan =
    (Inr (batch_result_of rs (card (held_leases (co_id self) rs (lf_pool fan)))),
     fan\<lparr>lf_pool := acked_db (co_id self) rs (lf_pool fan)\<rparr>)"
  using assms(2,3) ack_txn_eq [OF db_invD(3) [OF fan_invD(1) [OF assms(1)]]]
  by (simp add: ack_batch_def transaction_def ensure_batch_size_def)

lemma acked_db_inv: "db_inv db \<Longrightarrow> db_inv (acked_db cid rs db)"
  unfolding acked_db_def by (rule db_inv_filter_deliveries)

lemma ack_batch_inv:
  assumes "fan_inv fan" and "ack_batch self rs fan = (r, fan')"
  shows "fan_inv fan'"
proof (cases "rs \<noteq> [] \<and> length rs \<le> lf_max_batch_size fan")
  case True
  with assms ack_batch_eq [OF assms(1), of rs self] show ?thesis
    by (auto simp: fan_inv_update(2) acked_db_inv fan_invD(1))
next
  case False
  with assms show ?thesis by (auto simp: ack_batch_def ensure_batch_size_def split: if_splits)
qed

subsection \<open>Release for retry\<close>

lemma map_result_if:
  assumes "\<And>d. f d = (if bad d then Inl e else Inr (g d))"
  shows "map_result (\<lambda>d. if p d then f d else Inr d) ds =
    (if \<exists>d \<in> set ds. p d \<and> bad d then Inl e else Inr (map (\<lambda>d. if p d then g d else d) ds))"
  by (induction ds) (auto simp: assms)

definition nacked_row :: "int \<Rightarrow> delivery_row \<Rightarrow> delivery_row" where
  "nacked_row visible_at d = d\<lparr>dr_visible_at := visible_at, dr_generation := dr_generation d + 1\<rparr>"

definition nacked_db :: "int \<Rightarrow> int \<Rightarrow> receipt list \<Rightarrow> database \<Rightarrow> database" where
  "nacked_db visible_at cid rs db = db\<lparr>t_deliveries :=
     map (\<lambda>d. if receipt_clause cid rs d then nacked_row visible_at d else d) (t_deliveries db)\<rparr>"

text \<open>No lease the receipts name has used up its generations.\<close>

definition generation_room :: "int \<Rightarrow> receipt list \<Rightarrow> database \<Rightarrow> bool" where
  "generation_room cid rs db \<longleftrightarrow>
     (\<forall>d \<in> set (t_deliveries db). receipt_clause cid rs d \<longrightarrow> dr_generation d \<noteq> i64_max)"

lemma nack_chunk_eq:
  "nack_chunk v cid rs db =
     (if generation_room cid rs db
      then Inr (length (filter (receipt_clause cid rs) (t_deliveries db)), nacked_db v cid rs db)
      else Inl (Sqlx DatatypeViolation))"
proof -
  have "nack_row v d = (if dr_generation d = i64_max then Inl (Sqlx DatatypeViolation)
      else Inr (nacked_row v d))" for d
    by (simp add: nack_row_def sql_incr_def nacked_row_def)
  from map_result_if [where f = "nack_row v", OF this] show ?thesis
    by (auto simp: nack_chunk_def update_deliveries_def generation_room_def nacked_db_def)
qed

text \<open>
  A batch is regular in a state when no receipt of it names a generation that is still to
  come. Receipts come from claims, so only a batch with receipts from before a redrive can
  fail to be regular.
\<close>

definition receipts_regular :: "receipt list \<Rightarrow> database \<Rightarrow> bool" where
  "receipts_regular rs db \<longleftrightarrow>
     (\<forall>r \<in> set rs. \<forall>d \<in> set (t_deliveries db).
        dr_key d = (rc_consumer_id r, rc_message_id r) \<longrightarrow> rc_generation r \<le> dr_generation d)"

lemma nacked_db_inv:
  assumes inv: "db_inv db" and room: "generation_room cid rs db"
  shows "db_inv (nacked_db v cid rs db)"
  unfolding nacked_db_def
proof (rule db_inv_map_deliveries [OF inv])
  fix d assume d: "d \<in> set (t_deliveries db)" "delivery_row_inv db d"
  then show "delivery_row_inv db (if receipt_clause cid rs d then nacked_row v d else d)"
    using room by (auto simp: delivery_row_inv_def nacked_row_def generation_room_def)
qed (simp add: nacked_row_def dr_key_def)

text \<open>Any loop of statements that keep the invariant keeps it.\<close>

lemma run_chunks_inv:
  assumes "\<And>xs s r s'. P s \<Longrightarrow> stmt xs s = Inr (r, s') \<Longrightarrow> P s'"
    and "P s" and "run_chunks stmt xss s = Inr (rs, s')"
  shows "P s'"
  using assms(2,3)
proof (induction xss arbitrary: s rs)
  case (Cons xs xss)
  then show ?case using assms(1) by (auto split: prod.splits) blast
qed simp

lemma receipts_txn_inv:
  assumes "\<And>xs s r s'. db_inv s \<Longrightarrow> stmt xs s = Inr (r, s') \<Longrightarrow> db_inv s'"
    and "db_inv db" and "receipts_txn stmt rs db = Inr (n, db')"
  shows "db_inv db'"
  using assms(3) run_chunks_inv [where P = db_inv, OF assms(1,2)]
  by (auto simp: receipts_txn_def)

lemma nack_chunk_inv: "db_inv s \<Longrightarrow> nack_chunk v cid xs s = Inr (r, s') \<Longrightarrow> db_inv s'"
  by (auto simp: nack_chunk_eq nacked_db_inv split: if_splits)

lemma nack_batch_inv:
  assumes inv: "fan_inv fan" and run: "nack_batch clk self rs retry fan = (r, fan')"
  shows "fan_inv fan'"
proof (cases "rs = []")
  case True
  with inv run show ?thesis by (simp add: nack_batch_def)
next
  case False
  show ?thesis
  proof (cases "and_then (ensure_batch_size fan (length rs)) (\<lambda>_.
      and_then (now_ms clk) (\<lambda>now. add_duration now (retry_delay retry)))")
    case (Inl e)
    with inv run False show ?thesis by (simp only: nack_batch_def if_False sum.case prod.inject)
  next
    case (Inr v)
    show ?thesis
    proof (rule committed_notify_inv [OF inv])
      show "(case transaction (receipts_txn (nack_chunk v (co_id self)) rs) (lf_pool fan) of
          (Inl e, db) \<Rightarrow> (Inl e, fan\<lparr>lf_pool := db\<rparr>)
        | (Inr n, db) \<Rightarrow> (Inr (batch_result_of rs n), if 0 < n
            then fan\<lparr>lf_pool := db, lf_signals := notify_signal (co_consumer_signal self) (lf_signals fan)\<rparr>
            else fan\<lparr>lf_pool := db\<rparr>)) = (r, fan')"
        using run False Inr by (simp only: nack_batch_def if_False sum.case)
    qed (auto intro: receipts_txn_inv [OF _ fan_invD(1) [OF inv]] nack_chunk_inv)
  qed
qed

subsection \<open>Extension of a lease\<close>

definition extended_row :: "int \<Rightarrow> delivery_row \<Rightarrow> delivery_row" where
  "extended_row visible_at d = d\<lparr>dr_visible_at := max (dr_visible_at d) visible_at\<rparr>"

definition extended_db :: "int \<Rightarrow> int \<Rightarrow> receipt list \<Rightarrow> database \<Rightarrow> database" where
  "extended_db visible_at cid rs db = db\<lparr>t_deliveries :=
     map (\<lambda>d. if receipt_clause cid rs d then extended_row visible_at d else d) (t_deliveries db)\<rparr>"

lemma extend_chunk_eq:
  "extend_chunk v cid rs db =
     Inr (length (filter (receipt_clause cid rs) (t_deliveries db)), extended_db v cid rs db)"
proof -
  have "map_result (\<lambda>d. if receipt_clause cid rs d then Inr (d\<lparr>dr_visible_at := max (dr_visible_at d) v\<rparr>)
      else Inr d) (t_deliveries db)
    = (Inr (map (\<lambda>d. if receipt_clause cid rs d then extended_row v d else d) (t_deliveries db)) :: delivery_row list outcome)"
    by (rule map_result_all_Inr) (simp add: extended_row_def)
  then show ?thesis unfolding extend_chunk_def update_deliveries_def extended_db_def by simp
qed

lemma receipt_clause_extended [simp]:
  "receipt_clause cid rs (extended_row v d) \<longleftrightarrow> receipt_clause cid rs d"
  by (simp add: receipt_clause_def push_receipt_predicate_def lease_key_def extended_row_def)

text \<open>The chunks leave the rows one statement would; the counts add up chunk by chunk.\<close>

lemma extend_run:
  "run_chunks (extend_chunk v cid) rss db =
     Inr (map (\<lambda>rs. length (filter (receipt_clause cid rs) (t_deliveries db))) rss,
          extended_db v cid (concat rss) db)"
proof (induction rss arbitrary: db)
  case Nil
  show ?case by (simp add: extended_db_def)
next
  case (Cons rs rss)
  have count: "length (filter (receipt_clause cid xs) (t_deliveries (extended_db v cid rs db)))
      = length (filter (receipt_clause cid xs) (t_deliveries db))" for xs
    unfolding extended_db_def
    by (simp add: filter_map) (intro arg_cong [where f = length] filter_cong; auto)
  have "extended_db v cid (concat rss) (extended_db v cid rs db) = extended_db v cid (concat (rs # rss)) db"
    by (auto simp: extended_db_def receipt_clause_append extended_row_def)
  then show ?case by (simp add: extend_chunk_eq [of v cid rs db] Cons.IH count)
qed

lemma extend_txn_eq:
  "receipts_txn (extend_chunk v cid) rs db =
     Inr (\<Sum>xs \<leftarrow> chunks RECEIPTS_PER_CHUNK rs. length (filter (receipt_clause cid xs) (t_deliveries db)),
          extended_db v cid rs db)"
  by (simp add: receipts_txn_def extend_run)

text \<open>Within one statement's variable limit the count is exact.\<close>

lemma extend_txn_short:
  assumes "deliveries_inv db" and "rs \<noteq> []" and "length rs \<le> RECEIPTS_PER_CHUNK"
  shows "receipts_txn (extend_chunk v cid) rs db = Inr (card (held_leases cid rs db), extended_db v cid rs db)"
  using length_held [OF assms(1)] by (simp add: extend_txn_eq chunks_short [OF assms(2,3)])

lemma extended_db_inv: "db_inv db \<Longrightarrow> db_inv (extended_db v cid rs db)"
  unfolding extended_db_def
  by (rule db_inv_map_deliveries) (auto simp: extended_row_def dr_key_def delivery_row_inv_def)

lemma extend_visibility_batch_inv:
  assumes inv: "fan_inv fan" and run: "extend_visibility_batch clk self rs timeout fan = (r, fan')"
  shows "fan_inv fan'"
  using run fan_inv_update(2) [OF inv] extended_db_inv [OF fan_invD(1) [OF inv]] inv
  by (auto simp: extend_visibility_batch_def transaction_def extend_txn_eq split: if_splits sum.splits)

text \<open>The receipt operations with their row selection and updates written out.\<close>

lemma receipt_clause_iff:
  "receipt_clause cid rs d \<longleftrightarrow> dr_consumer_id d = cid \<and> (\<exists>r \<in> set rs. lease_key d = receipt_key r)"
  by (auto simp: receipt_clause_def push_receipt_predicate_def)

lemma extended_db_explicit:
  "extended_db v cid rs db = db\<lparr>t_deliveries := map (\<lambda>d.
     if dr_consumer_id d = cid \<and> (\<exists>r \<in> set rs. lease_key d = receipt_key r)
     then d\<lparr>dr_visible_at := max (dr_visible_at d) v\<rparr> else d) (t_deliveries db)\<rparr>"
  by (simp add: extended_db_def extended_row_def receipt_clause_iff cong: if_cong)

subsection \<open>Release chunk by chunk\<close>

text \<open>
  A release by one chunk gives the delivery its next generation, so a receipt for that
  generation in a later chunk releases it again. How often the chunks release a delivery:
\<close>

fun nack_hits :: "int \<Rightarrow> receipt list list \<Rightarrow> int \<times> int \<times> int \<Rightarrow> nat" where
  "nack_hits cid [] key = 0"
| "nack_hits cid (rs # rss) (c, m, g) =
     (if c = cid \<and> (c, m, g) \<in> receipt_key ` set rs then Suc (nack_hits cid rss (c, m, g + 1))
      else nack_hits cid rss (c, m, g))"

definition released_row :: "int \<Rightarrow> nat \<Rightarrow> delivery_row \<Rightarrow> delivery_row" where
  "released_row v n d =
     (if n = 0 then d else d\<lparr>dr_visible_at := v, dr_generation := dr_generation d + int n\<rparr>)"

lemma nack_hits_step:
  "nack_hits cid (rs # rss) (lease_key d) = (if receipt_clause cid rs d then 1 else 0) +
     nack_hits cid rss (lease_key (if receipt_clause cid rs d then nacked_row v d else d))"
  by (auto simp: receipt_clause_def push_receipt_predicate_def nacked_row_def lease_key_def)

lemma released_row_step:
  "released_row v ((if b then 1 else 0) + n) d = released_row v n (if b then nacked_row v d else d)"
  by (simp add: released_row_def nacked_row_def)

lemma nacked_generation:
  "dr_generation d + int ((if b then 1 else 0) + n) = dr_generation (if b then nacked_row v d else d) + int n"
  by (simp add: nacked_row_def)

lemma nack_hits_sum:
  "(\<Sum>d \<leftarrow> ds. nack_hits cid (rs # rss) (lease_key d)) = length (filter (receipt_clause cid rs) ds) +
     (\<Sum>d \<leftarrow> map (\<lambda>d. if receipt_clause cid rs d then nacked_row v d else d) ds. nack_hits cid rss (lease_key d))"
  by (induction ds) (simp_all only: list.map sum_list.Nil sum_list.Cons filter.simps nack_hits_step [where v = v], auto)

text \<open>A batch releases every delivery as often as its chunks do, unless a generation is used up.\<close>

lemma nack_chunks_hits:
  assumes "\<forall>d \<in> set (t_deliveries db). dr_generation d \<le> i64_max"
  shows "map_sum id (map_prod sum_list id) (run_chunks (nack_chunk v cid) rss db) =
    (if \<forall>d \<in> set (t_deliveries db). dr_generation d + int (nack_hits cid rss (lease_key d)) \<le> i64_max
     then Inr (\<Sum>d \<leftarrow> t_deliveries db. nack_hits cid rss (lease_key d),
       db\<lparr>t_deliveries := map (\<lambda>d. released_row v (nack_hits cid rss (lease_key d)) d) (t_deliveries db)\<rparr>)
     else Inl (Sqlx DatatypeViolation))"
  using assms
proof (induction rss arbitrary: db)
  case Nil
  then show ?case by (simp add: released_row_def sum_list_0 map_idI)
next
  case (Cons rs rss)
  let ?D = "t_deliveries db" and ?p = "receipt_clause cid rs"
  let ?f = "\<lambda>d. if ?p d then nacked_row v d else d"
  let ?n = "\<lambda>d. nack_hits cid rss (lease_key d)"
  note hits = nack_hits_step [where v = v]
  show ?case
  proof (cases "generation_room cid rs db")
    case False
    then obtain d where d: "d \<in> set ?D" "?p d" "dr_generation d = i64_max"
      by (auto simp: generation_room_def)
    then have "\<not> dr_generation d + int (nack_hits cid (rs # rss) (lease_key d)) \<le> i64_max" by (simp add: hits)
    with d(1) have "\<not> (\<forall>d \<in> set ?D. dr_generation d + int (nack_hits cid (rs # rss) (lease_key d)) \<le> i64_max)" by blast
    with False show ?thesis by (simp only: run_chunks.simps nack_chunk_eq) simp
  next
    case True
    have rows: "t_deliveries (nacked_db v cid rs db) = map ?f ?D" by (simp add: nacked_db_def)
    have "\<forall>d \<in> set (t_deliveries (nacked_db v cid rs db)). dr_generation d \<le> i64_max"
      using True Cons.prems by (force simp: generation_room_def rows nacked_row_def)
    note ih = Cons.IH [OF this, unfolded rows]
    have room: "(\<forall>d \<in> set ?D. dr_generation d + int (nack_hits cid (rs # rss) (lease_key d)) \<le> i64_max) \<longleftrightarrow>
        (\<forall>d \<in> set (map ?f ?D). dr_generation d + int (?n d) \<le> i64_max)"
      by (simp only: hits nacked_generation [where v = v] set_map ball_simps)
    note sum = nack_hits_sum [of cid rs rss ?D v]
    have db: "(nacked_db v cid rs db)\<lparr>t_deliveries := map (\<lambda>d. released_row v (?n d) d) (map ?f ?D)\<rparr> =
        db\<lparr>t_deliveries := map (\<lambda>d. released_row v (nack_hits cid (rs # rss) (lease_key d)) d) ?D\<rparr>"
      by (simp add: nacked_db_def hits released_row_step del: nack_hits.simps)
    have "map_sum id (map_prod sum_list id) (run_chunks (nack_chunk v cid) (rs # rss) db) =
        map_sum id (map_prod ((+) (length (filter ?p ?D))) id)
          (map_sum id (map_prod sum_list id) (run_chunks (nack_chunk v cid) rss (nacked_db v cid rs db)))"
      using True by (cases "run_chunks (nack_chunk v cid) rss (nacked_db v cid rs db)") (auto simp: nack_chunk_eq)
    then show ?thesis
      unfolding ih room sum db [symmetric]
      by (simp only: if_distrib [of "map_sum _ _"] map_sum.simps map_prod_simp id_def)
  qed
qed

lemma nack_txn_hits:
  assumes "deliveries_inv db"
  shows "receipts_txn (nack_chunk v cid) rs db =
    (let hits = \<lambda>d. nack_hits cid (chunks RECEIPTS_PER_CHUNK rs) (lease_key d) in
     if \<forall>d \<in> set (t_deliveries db). dr_generation d + int (hits d) \<le> i64_max
     then Inr (\<Sum>d \<leftarrow> t_deliveries db. hits d,
       db\<lparr>t_deliveries := map (\<lambda>d. released_row v (hits d) d) (t_deliveries db)\<rparr>)
     else Inl (Sqlx DatatypeViolation))"
proof -
  have "\<forall>d \<in> set (t_deliveries db). dr_generation d \<le> i64_max"
    using assms by (simp add: deliveries_inv_def)
  note run = nack_chunks_hits [OF this, of v cid "chunks RECEIPTS_PER_CHUNK rs"]
  show ?thesis
    using run by (cases "run_chunks (nack_chunk v cid) (chunks RECEIPTS_PER_CHUNK rs) db")
      (auto simp: receipts_txn_def Let_def split: if_splits)
qed

text \<open>Within one chunk, or when no receipt is ahead of its delivery, that is once at most.\<close>

lemma nack_hits_none:
  assumes "\<forall>rs \<in> set rss. \<forall>r \<in> set rs. rc_consumer_id r = c \<and> rc_message_id r = m \<longrightarrow> rc_generation r < g"
  shows "nack_hits cid rss (c, m, g) = 0"
  using assms by (induction rss) (auto simp: receipt_key_def)

lemma nack_hits_once:
  assumes "\<forall>rs \<in> set rss. \<forall>r \<in> set rs. rc_consumer_id r = c \<and> rc_message_id r = m \<longrightarrow> rc_generation r \<le> g"
  shows "nack_hits cid rss (c, m, g) = (if c = cid \<and> (c, m, g) \<in> receipt_key ` set (concat rss) then 1 else 0)"
  using assms
proof (induction rss)
  case (Cons rs rss)
  have "nack_hits cid rss (c, m, g + 1) = 0"
    by (rule nack_hits_none) (use Cons.prems in force)
  moreover have "set (concat (rs # rss)) = set rs \<union> set (concat rss)" by simp
  ultimately show ?case using Cons by (auto simp: image_Un simp del: set_concat)
qed simp

lemma nack_hits_regular:
  assumes "receipts_regular rs db \<or> length rs \<le> RECEIPTS_PER_CHUNK" and "d \<in> set (t_deliveries db)"
  shows "nack_hits cid (chunks RECEIPTS_PER_CHUNK rs) (lease_key d) = (if receipt_clause cid rs d then 1 else 0)"
proof (cases "receipts_regular rs db")
  case True
  have "nack_hits cid (chunks RECEIPTS_PER_CHUNK rs) (dr_consumer_id d, dr_message_id d, dr_generation d) =
      (if dr_consumer_id d = cid \<and> (dr_consumer_id d, dr_message_id d, dr_generation d)
          \<in> receipt_key ` set (concat (chunks RECEIPTS_PER_CHUNK rs)) then 1 else 0)"
  proof (rule nack_hits_once, intro ballI impI)
    fix chunk r assume "chunk \<in> set (chunks RECEIPTS_PER_CHUNK rs)" "r \<in> set chunk"
      "rc_consumer_id r = dr_consumer_id d \<and> rc_message_id r = dr_message_id d"
    moreover from this have "r \<in> set (concat (chunks RECEIPTS_PER_CHUNK rs))" unfolding set_concat by blast
    then have "r \<in> set rs" by (simp only: concat_chunks [OF RECEIPTS_PER_CHUNK_pos])
    ultimately show "rc_generation r \<le> dr_generation d"
      using True assms(2) by (simp add: receipts_regular_def dr_key_def)
  qed
  then show ?thesis
    by (simp add: RECEIPTS_PER_CHUNK_pos lease_key_def receipt_clause_def push_receipt_predicate_def)
next
  case False
  with assms(1) have "chunks RECEIPTS_PER_CHUNK rs = (if rs = [] then [] else [rs])"
    by (simp add: chunks_short)
  then show ?thesis
    by (auto simp: lease_key_def receipt_clause_def push_receipt_predicate_def)
qed

lemma sum_list_indicator: "(\<Sum>x \<leftarrow> xs. if P x then 1 else 0 :: nat) = length (filter P xs)"
  by (induction xs) auto

lemma nack_hits_card:
  assumes "deliveries_inv db" and reg: "receipts_regular rs db \<or> length rs \<le> RECEIPTS_PER_CHUNK"
  shows "(\<Sum>d \<leftarrow> t_deliveries db. nack_hits cid (chunks RECEIPTS_PER_CHUNK rs) (lease_key d))
    = card (held_leases cid rs db)"
proof -
  have "(\<Sum>d \<leftarrow> t_deliveries db. nack_hits cid (chunks RECEIPTS_PER_CHUNK rs) (lease_key d))
      = (\<Sum>d \<leftarrow> t_deliveries db. if receipt_clause cid rs d then 1 else 0)"
    using nack_hits_regular [OF reg] by (intro arg_cong [where f = sum_list] map_cong) simp_all
  also have "\<dots> = card (held_leases cid rs db)"
    by (simp only: sum_list_indicator length_held [OF assms(1)])
  finally show ?thesis .
qed

lemma nack_batch_txn:
  assumes "rs \<noteq> []" "length rs \<le> lf_max_batch_size fan" "now_ms clk = Inr now" "add_duration now (retry_delay retry) = Inr v"
  shows "nack_batch clk self rs retry fan =
    (case receipts_txn (nack_chunk v (co_id self)) rs (lf_pool fan) of
       Inl e \<Rightarrow> (Inl e, fan)
     | Inr (n, db) \<Rightarrow> (Inr (batch_result_of rs n), fan\<lparr>lf_pool := db,
         lf_signals := (if 0 < n then notify_signal (co_consumer_signal self) (lf_signals fan) else lf_signals fan)\<rparr>))"
  using assms by (simp add: nack_batch_def transaction_def ensure_batch_size_def split: sum.split prod.split)

end
