(* ===== verification/Archives.thy ===== *)
theory Archives
  imports Receipts
begin

text \<open>
  Archives, from \<open>consumer.rs\<close>: a current delivery moves to the archive table, is listed in
  pages, moves back by a redrive, or is purged. The move deletes in chunks with RETURNING,
  collects the rows in whatever order they come, and inserts them again in chunks of another
  size; the lemmas show that neither the order nor the chunk sizes matter, and that under
  the invariant no constraint can stop the move half-way.
\<close>

definition ARCHIVES_PER_CHUNK :: nat where
  "ARCHIVES_PER_CHUNK = MAX_SQL_VARIABLES div 6"

definition REDRIVE_IDS_PER_CHUNK :: nat where
  "REDRIVE_IDS_PER_CHUNK = MAX_SQL_VARIABLES - 1"

definition DELIVERIES_PER_CHUNK :: nat where
  "DELIVERIES_PER_CHUNK = MAX_SQL_VARIABLES div 5"

lemma chunk_sizes_pos [simp]:
  "0 < ARCHIVES_PER_CHUNK" "0 < REDRIVE_IDS_PER_CHUNK" "0 < DELIVERIES_PER_CHUNK"
  by (simp_all add: ARCHIVES_PER_CHUNK_def REDRIVE_IDS_PER_CHUNK_def DELIVERIES_PER_CHUNK_def
      MAX_SQL_VARIABLES_def)

subsection \<open>Archiving current deliveries\<close>

definition archived_lease_from_row :: "delivery_row \<Rightarrow> archived_lease" where
  "archived_lease_from_row d =
     \<lparr>al_consumer_id = dr_consumer_id d, al_message_id = dr_message_id d,
      al_generation = dr_generation d, al_delivery_count = dr_delivery_count d\<rparr>"

definition take_leases_chunk :: "engine \<Rightarrow> int \<Rightarrow> receipt list \<Rightarrow> database
    \<Rightarrow> (archived_lease list \<times> database) outcome" where
  "take_leases_chunk E cid receipts db =
     (case delete_deliveries (receipt_clause cid receipts) db of
        (rows, db') \<Rightarrow> Inr (eng_archived E (map archived_lease_from_row rows), db'))"

definition archive_row_of :: "int \<Rightarrow> utf8 option \<Rightarrow> archived_lease \<Rightarrow> int \<Rightarrow> archive_row" where
  "archive_row_of archived_at detail l i =
     \<lparr>ar_id = i, ar_consumer_id = al_consumer_id l, ar_message_id = al_message_id l,
      ar_archived_at = archived_at, ar_delivery_count = al_delivery_count l,
      ar_last_generation = al_generation l, ar_detail = detail\<rparr>"

fun insert_archive_values :: "int \<Rightarrow> utf8 option \<Rightarrow> archived_lease list \<Rightarrow> database \<Rightarrow> (unit \<times> database) outcome" where
  "insert_archive_values archived_at detail [] db = Inr ((), db)"
| "insert_archive_values archived_at detail (l # ls) db =
     and_then (insert_archive (archive_row_of archived_at detail l) db)
       (insert_archive_values archived_at detail ls)"

definition insert_archived_leases :: "archived_lease list \<Rightarrow> int \<Rightarrow> utf8 option \<Rightarrow> database \<Rightarrow> database outcome" where
  "insert_archived_leases leases archived_at detail db =
     and_then (run_chunks (insert_archive_values archived_at detail) (chunks ARCHIVES_PER_CHUNK leases) db)
       (\<lambda>(_, db'). Inr db')"

definition archive_txn :: "engine \<Rightarrow> int \<Rightarrow> receipt list \<Rightarrow> int \<Rightarrow> utf8 option \<Rightarrow> database
    \<Rightarrow> (nat \<times> database) outcome" where
  "archive_txn E cid receipts archived_at detail db =
     and_then (run_chunks (take_leases_chunk E cid) (chunks RECEIPTS_PER_CHUNK receipts) db)
       (\<lambda>(lss, db1). let archived = sort_key al_message_id (concat lss) in
         and_then (insert_archived_leases archived archived_at detail db1)
           (\<lambda>db2. Inr (length archived, db2)))"

definition archive_batch_with_detail :: "engine \<Rightarrow> clock \<Rightarrow> consumer \<Rightarrow> receipt list \<Rightarrow> utf8 option
    \<Rightarrow> batch_result handler" where
  "archive_batch_with_detail E clk self receipts detail fan =
     (if receipts = [] then (Inr default_batch_result, fan)
      else case and_then (ensure_batch_size fan (length receipts)) (\<lambda>_. now_ms clk) of
        Inl e \<Rightarrow> (Inl e, fan)
      | Inr archived_at \<Rightarrow>
          (case transaction (archive_txn E (co_id self) receipts archived_at detail) (lf_pool fan) of
             (Inl e, db) \<Rightarrow> (Inl e, fan\<lparr>lf_pool := db\<rparr>)
           | (Inr archived, db) \<Rightarrow>
               (Inr (batch_result_of receipts archived),
                if 0 < archived
                then fan\<lparr>lf_pool := db,
                         lf_signals := notify_signal (co_consumer_signal self) (lf_signals fan)\<rparr>
                else fan\<lparr>lf_pool := db\<rparr>)))"

definition archive_batch :: "engine \<Rightarrow> clock \<Rightarrow> consumer \<Rightarrow> receipt list \<Rightarrow> batch_result handler" where
  "archive_batch E clk self receipts fan = archive_batch_with_detail E clk self receipts None fan"

definition archive :: "engine \<Rightarrow> clock \<Rightarrow> consumer \<Rightarrow> receipt \<Rightarrow> bool handler" where
  "archive E clk self receipt fan = applied_one (archive_batch E clk self [receipt] fan)"

definition archive_with_detail :: "engine \<Rightarrow> clock \<Rightarrow> consumer \<Rightarrow> receipt \<Rightarrow> utf8 \<Rightarrow> bool handler" where
  "archive_with_detail E clk self receipt detail fan =
     applied_one (archive_batch_with_detail E clk self [receipt] (Some detail) fan)"

subsection \<open>Listing, redriving and purging\<close>

text \<open>The inner join of archives and messages, in the order of the archive ids.\<close>

definition archive_join :: "database \<Rightarrow> int \<Rightarrow> int \<Rightarrow> (archive_row \<times> message_row) list" where
  "archive_join db cid after =
     concat (map (\<lambda>a. map (Pair a) (filter (\<lambda>m. mr_id m = ar_message_id a) (t_messages db)))
       (sort_key ar_id (filter (\<lambda>a. ar_consumer_id a = cid \<and> after < ar_id a) (t_archives db))))"

definition message_of_row :: "message_row \<Rightarrow> message" where
  "message_of_row m =
     \<lparr>msg_id = MessageId (mr_id m), msg_topic = mr_topic m, msg_body = mr_body m,
      msg_published_at_ms = mr_published_at m\<rparr>"

definition archived_delivery_of :: "archive_row \<times> message_row \<Rightarrow> archived_delivery outcome" where
  "archived_delivery_of = (\<lambda>(a, m).
     and_then (count_from_row (ar_delivery_count a)) (\<lambda>delivery_count.
       Inr \<lparr>ad_id = ArchiveId (ar_id a), ad_message = message_of_row m,
            ad_delivery_count = delivery_count, ad_archived_at_ms = ar_archived_at a,
            ad_detail = ar_detail a\<rparr>))"

definition archives :: "consumer \<Rightarrow> list_archives \<Rightarrow> litefan \<Rightarrow> archived_delivery list outcome" where
  "archives self list fan =
     (if la_max_archives list = 0 then Inr []
      else and_then (ensure_batch_size fan (la_max_archives list)) (\<lambda>_.
           and_then (ok_or (i64_try_from (int (la_max_archives list)))
               (InvalidConfig ''archive page size must fit in SQLite'')) (\<lambda>limit.
           let after = (case la_after list of None \<Rightarrow> 0 | Some i \<Rightarrow> archive_id_get i) in
           map_result archived_delivery_of
             (take (nat limit) (archive_join (lf_pool fan) (co_id self) after)))))"

definition redrive_clause :: "int \<Rightarrow> archive_id list \<Rightarrow> archive_row \<Rightarrow> bool" where
  "redrive_clause cid archive_ids a \<longleftrightarrow> ar_consumer_id a = cid \<and> ar_id a \<in> set (map archive_id_get archive_ids)"

definition take_archives_chunk :: "engine \<Rightarrow> int \<Rightarrow> archive_id list \<Rightarrow> database \<Rightarrow> (int list \<times> database) outcome" where
  "take_archives_chunk E cid archive_ids db =
     (case delete_archives (redrive_clause cid archive_ids) db of
        (rows, db') \<Rightarrow> Inr (eng_ids E (map ar_message_id rows), db'))"

definition redriven_row :: "int \<Rightarrow> int \<Rightarrow> int \<Rightarrow> delivery_row" where
  "redriven_row cid visible_at mid =
     \<lparr>dr_consumer_id = cid, dr_message_id = mid, dr_visible_at = visible_at,
      dr_generation = 0, dr_delivery_count = 0\<rparr>"

definition insert_redriven_chunk :: "int \<Rightarrow> int \<Rightarrow> int list \<Rightarrow> database \<Rightarrow> (unit \<times> database) outcome" where
  "insert_redriven_chunk cid visible_at mids db =
     and_then (insert_deliveries (map (redriven_row cid visible_at) mids) db) (\<lambda>db'. Inr ((), db'))"

definition redrive_txn :: "engine \<Rightarrow> int \<Rightarrow> archive_id list \<Rightarrow> int \<Rightarrow> database \<Rightarrow> (nat \<times> database) outcome" where
  "redrive_txn E cid archive_ids visible_at db =
     and_then (run_chunks (take_archives_chunk E cid) (chunks REDRIVE_IDS_PER_CHUNK archive_ids) db)
       (\<lambda>(midss, db1). let message_ids = concat midss in
         and_then (run_chunks (insert_redriven_chunk cid visible_at) (chunks DELIVERIES_PER_CHUNK message_ids) db1)
           (\<lambda>(_, db2). Inr (length message_ids, db2)))"

definition redrive_batch :: "engine \<Rightarrow> clock \<Rightarrow> consumer \<Rightarrow> archive_id list \<Rightarrow> retry \<Rightarrow> batch_result handler" where
  "redrive_batch E clk self archive_ids retry fan =
     (if archive_ids = [] then (Inr default_batch_result, fan)
      else case and_then (ensure_batch_size fan (length archive_ids)) (\<lambda>_.
             and_then (now_ms clk) (\<lambda>now. add_duration now (retry_delay retry))) of
        Inl e \<Rightarrow> (Inl e, fan)
      | Inr visible_at \<Rightarrow>
          (case transaction (redrive_txn E (co_id self) archive_ids visible_at) (lf_pool fan) of
             (Inl e, db) \<Rightarrow> (Inl e, fan\<lparr>lf_pool := db\<rparr>)
           | (Inr restored, db) \<Rightarrow>
               (Inr \<lparr>br_applied = restored, br_stale = length archive_ids - restored\<rparr>,
                if 0 < restored
                then fan\<lparr>lf_pool := db,
                         lf_signals := notify_signal (co_consumer_signal self) (lf_signals fan)\<rparr>
                else fan\<lparr>lf_pool := db\<rparr>)))"

definition redrive :: "engine \<Rightarrow> clock \<Rightarrow> consumer \<Rightarrow> archive_id \<Rightarrow> retry \<Rightarrow> bool handler" where
  "redrive E clk self archive_id retry fan = applied_one (redrive_batch E clk self [archive_id] retry fan)"

text \<open>The ids of the oldest archives of a consumer from before a time: ORDER BY id LIMIT.\<close>

definition old_archive_ids :: "database \<Rightarrow> int \<Rightarrow> int \<Rightarrow> int \<Rightarrow> int list" where
  "old_archive_ids db cid before_ms limit =
     take (nat limit) (sort (map ar_id
       (filter (\<lambda>a. ar_consumer_id a = cid \<and> ar_archived_at a < before_ms) (t_archives db))))"

definition purge_archives_statement :: "int \<Rightarrow> int \<Rightarrow> int \<Rightarrow> database \<Rightarrow> (nat \<times> database) outcome" where
  "purge_archives_statement cid before_ms limit db =
     (case delete_archives (\<lambda>a. ar_id a \<in> set (old_archive_ids db cid before_ms limit)) db of
        (rows, db') \<Rightarrow> Inr (length rows, db'))"

definition purge_archives :: "consumer \<Rightarrow> purge_archives_opts \<Rightarrow> purge_archives_outcome handler" where
  "purge_archives self purge fan =
     (if pa_max_archives purge = 0 then (Inr default_purge_archives_outcome, fan)
      else case and_then (ensure_batch_size fan (pa_max_archives purge)) (\<lambda>_.
             ok_or (i64_try_from (int (pa_max_archives purge)))
               (InvalidConfig ''archive purge size must fit in SQLite'')) of
        Inl e \<Rightarrow> (Inl e, fan)
      | Inr limit \<Rightarrow>
          (case transaction (purge_archives_statement (co_id self) (pa_before_ms purge) limit) (lf_pool fan) of
             (Inl e, db) \<Rightarrow> (Inl e, fan\<lparr>lf_pool := db\<rparr>)
           | (Inr rows, db) \<Rightarrow> (Inr \<lparr>deleted_archives = rows\<rparr>, fan\<lparr>lf_pool := db\<rparr>)))"

subsection \<open>The move to the archive\<close>

lemma sort_key_mset:
  assumes "mset xs = mset ys" and "inj_on f (set ys)"
  shows "sort_key f xs = sort_key f ys"
proof (rule sort_key_inj_key_eq)
  show "inj_on f (set xs)" using assms mset_eq_setD by metis
qed (use assms in simp_all)

lemma acked_db_append: "acked_db cid ys (acked_db cid xs db) = acked_db cid (xs @ ys) db"
  by (simp add: acked_db_def receipt_clause_append conj_commute)

definition leases_named :: "int \<Rightarrow> receipt list \<Rightarrow> database \<Rightarrow> archived_lease list" where
  "leases_named cid rs db =
     map archived_lease_from_row (filter (receipt_clause cid rs) (t_deliveries db))"

lemma mset_leases_named_append:
  "mset (leases_named cid (xs @ ys) db)
     = mset (leases_named cid xs db) + mset (leases_named cid ys (acked_db cid xs db))"
proof -
  let ?x = "receipt_clause cid xs" and ?y = "receipt_clause cid ys"
  have "filter_mset (\<lambda>d. ?x d \<or> ?y d) M = filter_mset ?x M + filter_mset (\<lambda>d. ?y d \<and> \<not> ?x d) M" for M
    by (induction M) auto
  then show ?thesis
    by (simp add: leases_named_def acked_db_def receipt_clause_append_fun conj_commute
        flip: image_mset_union)
qed

interpretation take_leases:
  chunked_stmt "take_leases_chunk E cid" mset
    "\<lambda>rs db. Inr (mset (leases_named cid rs db), acked_db cid rs db)" "\<lambda>_ _. engine_ok E"
  for E :: engine and cid :: int
proof (unfold_locales, goal_cases)
  case (1 xs s)
  then show ?case
    by (simp add: take_leases_chunk_def delete_deliveries_def leases_named_def acked_db_def engine_ok_def)
next
  case (3 xs ys s)
  show ?case by (simp add: mset_leases_named_append acked_db_append)
qed (simp_all add: leases_named_def acked_db_def)

interpretation archive_inserts:
  chunked_stmt "insert_archive_values t detail" "\<lambda>_ :: unit. 0 :: nat"
    "\<lambda>ls db. map_sum id (map_prod (\<lambda>_. 0) id) (insert_archive_values t detail ls db)" "\<lambda>_ _. True"
  for t :: int and detail :: "utf8 option"
proof (unfold_locales, goal_cases)
  case (3 xs ys s)
  have split: "insert_archive_values t detail (xs @ ys) s =
      and_then (insert_archive_values t detail xs s) (\<lambda>(_, s1). insert_archive_values t detail ys s1)"
  proof (induction xs arbitrary: s)
    case (Cons x xs)
    then show ?case by (cases "insert_archive (archive_row_of t detail x) s") simp_all
  qed simp
  show ?case
  proof (cases "insert_archive_values t detail xs s")
    case (Inr p)
    obtain u s1 where "p = (u, s1)" by (cases p)
    with Inr split show ?thesis by (cases "insert_archive_values t detail ys s1") auto
  qed (simp add: split)
qed simp_all

lemma insert_archived_leases_eq:
  "insert_archived_leases ls t detail db = map_sum id snd (insert_archive_values t detail ls db)"
  using archive_inserts.run_chunks_whole [where n = ARCHIVES_PER_CHUNK and xs = ls and s = db and t = t and detail = detail]
  by (cases "insert_archive_values t detail ls db";
      cases "run_chunks (insert_archive_values t detail) (chunks ARCHIVES_PER_CHUNK ls) db")
    (auto simp: insert_archived_leases_def)

fun archive_rows :: "int \<Rightarrow> utf8 option \<Rightarrow> int \<Rightarrow> archived_lease list \<Rightarrow> archive_row list" where
  "archive_rows t detail i [] = []"
| "archive_rows t detail i (l # ls) =
     archive_row_of t detail l (i + 1) # archive_rows t detail (i + 1) ls"

definition al_key :: "archived_lease \<Rightarrow> int \<times> int" where
  "al_key l = (al_consumer_id l, al_message_id l)"

definition lease_insertable :: "database \<Rightarrow> archived_lease \<Rightarrow> bool" where
  "lease_insertable db l \<longleftrightarrow> 0 \<le> al_generation l \<and> 0 \<le> al_delivery_count l \<and>
     al_consumer_id l \<in> cr_id ` set (t_consumers db) \<and> al_message_id l \<in> mr_id ` set (t_messages db)"

lemma ar_key_archive_row_of [simp]: "ar_key (archive_row_of t detail l i) = al_key l"
  by (simp add: ar_key_def archive_row_of_def al_key_def)

lemma insert_archive_lease:
  assumes "lease_insertable db l" and "al_key l \<notin> ar_key ` set (t_archives db)"
  shows "insert_archive (archive_row_of t detail l) db =
    (if seq_archives db = i64_max then Inl (Sqlx DatabaseFull)
     else Inr (db\<lparr>t_archives := t_archives db @ [archive_row_of t detail l (seq_archives db + 1)],
                 seq_archives := seq_archives db + 1\<rparr>))"
proof -
  have "archive_checks (archive_row_of t detail l i)"
    "ar_consumer_id (archive_row_of t detail l i) \<in> cr_id ` set (t_consumers db)"
    "ar_message_id (archive_row_of t detail l i) \<in> mr_id ` set (t_messages db)" for i
    using assms(1) by (simp_all add: lease_insertable_def archive_row_of_def archive_checks_def)
  with assms(2) show ?thesis unfolding insert_archive_def by simp
qed

text \<open>The inserts succeed together or find the row ids used up.\<close>

lemma insert_archive_values_eq:
  assumes "distinct (map al_key ls)" and "al_key ` set ls \<inter> ar_key ` set (t_archives db) = {}"
    and "\<forall>l \<in> set ls. lease_insertable db l" and "seq_archives db \<le> i64_max"
  shows "insert_archive_values t detail ls db =
    (if seq_archives db + int (length ls) \<le> i64_max
     then Inr ((), db\<lparr>t_archives := t_archives db @ archive_rows t detail (seq_archives db) ls,
                    seq_archives := seq_archives db + int (length ls)\<rparr>)
     else Inl (Sqlx DatabaseFull))"
  using assms
proof (induction ls arbitrary: db)
  case (Cons l ls)
  let ?db = "db\<lparr>t_archives := t_archives db @ [archive_row_of t detail l (seq_archives db + 1)],
                 seq_archives := seq_archives db + 1\<rparr>"
  have ins: "insert_archive (archive_row_of t detail l) db =
      (if seq_archives db = i64_max then Inl (Sqlx DatabaseFull) else Inr ?db)"
    using Cons.prems by (intro insert_archive_lease) auto
  show ?case
  proof (cases "seq_archives db = i64_max")
    case False
    have "insert_archive_values t detail ls ?db =
      (if seq_archives ?db + int (length ls) \<le> i64_max
       then Inr ((), ?db\<lparr>t_archives := t_archives ?db @ archive_rows t detail (seq_archives ?db) ls,
                    seq_archives := seq_archives ?db + int (length ls)\<rparr>)
       else Inl (Sqlx DatabaseFull))"
      using Cons.prems False by (intro Cons.IH) (auto simp: lease_insertable_def)
    with ins False show ?thesis by (simp add: algebra_simps)
  qed (simp add: ins)
qed simp

definition archived_leases :: "int \<Rightarrow> receipt list \<Rightarrow> database \<Rightarrow> archived_lease list" where
  "archived_leases cid rs db = sort_key al_message_id (leases_named cid rs db)"

definition archived_db :: "int \<Rightarrow> receipt list \<Rightarrow> int \<Rightarrow> utf8 option \<Rightarrow> database \<Rightarrow> database" where
  "archived_db cid rs t detail db =
     (acked_db cid rs db)\<lparr>t_archives := t_archives db @
          archive_rows t detail (seq_archives db) (archived_leases cid rs db),
        seq_archives := seq_archives db + int (length (archived_leases cid rs db))\<rparr>"

lemma set_archived_leases:
  "set (archived_leases cid rs db) = archived_lease_from_row ` {d \<in> set (t_deliveries db). receipt_clause cid rs d}"
  by (auto simp: archived_leases_def leases_named_def)

lemma al_key_from_row [simp]: "al_key (archived_lease_from_row d) = dr_key d"
  by (simp add: al_key_def archived_lease_from_row_def dr_key_def)

lemma distinct_map_sort_key [simp]: "distinct (map f (sort_key g xs)) \<longleftrightarrow> distinct (map f xs)"
  by (metis mset_sort mset_eq_imp_distinct_iff mset_map)

lemma distinct_archived_leases:
  assumes "deliveries_inv db"
  shows "distinct (map al_key (archived_leases cid rs db))"
proof -
  have "map al_key (leases_named cid rs db) = map dr_key (filter (receipt_clause cid rs) (t_deliveries db))"
    by (simp add: leases_named_def)
  moreover have "distinct (map dr_key (filter (receipt_clause cid rs) (t_deliveries db)))"
    using assms by (simp add: deliveries_inv_def distinct_map_filter)
  ultimately show ?thesis by (simp only: archived_leases_def distinct_map_sort_key)
qed

lemma length_archived_leases:
  "deliveries_inv db \<Longrightarrow> length (archived_leases cid rs db) = card (held_leases cid rs db)"
  by (simp add: archived_leases_def leases_named_def length_held)

lemma take_leases_sorted:
  assumes "engine_ok E" and "deliveries_inv db"
  shows "\<exists>lss. run_chunks (take_leases_chunk E cid) (chunks RECEIPTS_PER_CHUNK rs) db
      = Inr (lss, acked_db cid rs db) \<and> sort_key al_message_id (concat lss) = archived_leases cid rs db"
proof -
  from take_leases.run_chunks_of_whole [OF RECEIPTS_PER_CHUNK_pos assms(1) refl]
  obtain lss where run: "run_chunks (take_leases_chunk E cid) (chunks RECEIPTS_PER_CHUNK rs) db
      = Inr (lss, acked_db cid rs db)" and ms: "mset (concat lss) = mset (leases_named cid rs db)"
    unfolding sum_list_map_mset_concat by blast
  have "inj_on al_message_id (set (leases_named cid rs db))"
  proof (rule inj_onI)
    fix x y assume xy: "x \<in> set (leases_named cid rs db)" "y \<in> set (leases_named cid rs db)"
      "al_message_id x = al_message_id y"
    then have "al_consumer_id x = cid" "al_consumer_id y = cid"
      by (auto simp: leases_named_def archived_lease_from_row_def receipt_clause_def)
    with xy have "al_key x = al_key y" by (simp add: al_key_def)
    moreover have "distinct (map al_key (leases_named cid rs db))"
      using distinct_archived_leases [OF assms(2), of cid rs] by (simp add: archived_leases_def)
    ultimately show "x = y" using xy(1,2) by (blast intro: distinct_map_inj)
  qed
  with run ms show ?thesis by (auto simp: archived_leases_def intro: sort_key_mset)
qed

lemma passed_parents:
  "passed db cid mid \<Longrightarrow> cid \<in> cr_id ` set (t_consumers db) \<and> mid \<in> mr_id ` set (t_messages db)"
  by (auto simp: passed_def)

lemma archive_txn_eq:
  assumes E: "engine_ok E" and inv: "db_inv db"
  shows "archive_txn E cid rs t detail db =
    (if seq_archives db + int (card (held_leases cid rs db)) \<le> i64_max
     then Inr (card (held_leases cid rs db), archived_db cid rs t detail db)
     else Inl (Sqlx DatabaseFull))"
proof -
  note del = db_invD(3) [OF inv]
  let ?ls = "archived_leases cid rs db" and ?db1 = "acked_db cid rs db"
  obtain lss where run: "run_chunks (take_leases_chunk E cid) (chunks RECEIPTS_PER_CHUNK rs) db
      = Inr (lss, ?db1)" and lss: "sort_key al_message_id (concat lss) = ?ls"
    using take_leases_sorted [OF E del] by blast
  have same: "t_archives ?db1 = t_archives db" "seq_archives ?db1 = seq_archives db"
    "t_consumers ?db1 = t_consumers db" "t_messages ?db1 = t_messages db"
    by (simp_all add: acked_db_def)
  have "al_key ` set ?ls \<subseteq> dr_key ` set (t_deliveries db)"
    by (auto simp: set_archived_leases)
  then have dis: "al_key ` set ?ls \<inter> ar_key ` set (t_archives ?db1) = {}"
    using db_invD(6) [OF inv] by (auto simp: exclusive_def same)
  have ok: "\<forall>l \<in> set ?ls. lease_insertable ?db1 l"
    using del passed_parents
    by (fastforce simp: set_archived_leases lease_insertable_def same archived_lease_from_row_def
        deliveries_inv_def)
  have "seq_archives ?db1 \<le> i64_max" using db_invD(4) [OF inv] by (simp add: same archives_inv_def)
  note ins = insert_archive_values_eq [OF distinct_archived_leases [OF del] dis ok this, of t detail]
  have "length (concat lss) = length ?ls" by (metis lss length_sort)
  then show ?thesis
    using ins by (simp add: archive_txn_def run lss insert_archived_leases_eq same archived_db_def
        length_archived_leases [OF del])
qed

lemma ar_id_archive_row_of [simp]: "ar_id (archive_row_of t detail l i) = i"
  by (simp add: archive_row_of_def)

lemma map_archive_rows:
  "map ar_key (archive_rows t detail i ls) = map al_key ls"
  "map ar_id (archive_rows t detail i ls) = [i + 1..i + int (length ls)]"
  by (induction ls arbitrary: i)
    (auto simp: upto_rec1 algebra_simps)

lemma set_archive_rows: "ar_key ` set (archive_rows t detail i ls) = al_key ` set ls"
  by (metis map_archive_rows(1) set_map)

lemma archive_rows_in:
  "a \<in> set (archive_rows t detail i ls) \<Longrightarrow>
     \<exists>l \<in> set ls. \<exists>j. i < j \<and> j \<le> i + int (length ls) \<and> a = archive_row_of t detail l j"
proof (induction ls arbitrary: i)
  case (Cons l ls)
  show ?case
  proof (cases "a = archive_row_of t detail l (i + 1)")
    case True
    then show ?thesis by (intro bexI [of _ l] exI [of _ "i + 1"]) auto
  next
    case False
    then obtain l' j where "l' \<in> set ls" "i + 1 < j" "j \<le> i + 1 + int (length ls)"
      "a = archive_row_of t detail l' j"
      using Cons by fastforce
    then show ?thesis by (intro bexI [of _ l'] exI [of _ j]) auto
  qed
qed simp

text \<open>What the archive of a batch does to the three parts of the state it touches.\<close>

lemma archived_db_simps [simp]:
  "t_messages (archived_db cid rs t detail db) = t_messages db"
  "t_idempotency (archived_db cid rs t detail db) = t_idempotency db"
  "t_consumers (archived_db cid rs t detail db) = t_consumers db"
  "t_deliveries (archived_db cid rs t detail db)
     = filter (\<lambda>d. \<not> receipt_clause cid rs d) (t_deliveries db)"
  "t_archives (archived_db cid rs t detail db)
     = t_archives db @ archive_rows t detail (seq_archives db) (archived_leases cid rs db)"
  "seq_archives (archived_db cid rs t detail db)
     = seq_archives db + int (length (archived_leases cid rs db))"
  by (simp_all add: archived_db_def acked_db_def)

lemma archived_archives_inv:
  assumes inv: "db_inv db"
    and room: "seq_archives db + int (length (archived_leases cid rs db)) \<le> i64_max"
  shows "archives_inv (archived_db cid rs t detail db)"
proof -
  let ?ls = "archived_leases cid rs db" and ?db' = "archived_db cid rs t detail db"
  note parts = db_invD [OF inv]
  show ?thesis
    unfolding archives_inv_rows
  proof (intro conjI ballI)
    have "\<forall>a \<in> set (t_archives db). ar_id a \<le> seq_archives db"
      using parts(4) by (simp add: archives_inv_def)
    then show "sorted_wrt (<) (map ar_id (t_archives ?db'))"
      using parts(4) by (fastforce simp: sorted_wrt_append map_archive_rows archives_inv_def)
    have "al_key ` set ?ls \<subseteq> dr_key ` set (t_deliveries db)"
      by (auto simp: set_archived_leases)
    then show "distinct (map ar_key (t_archives ?db'))"
      using parts(4,6) distinct_archived_leases [OF parts(3), of cid rs]
      by (auto simp: map_archive_rows set_archive_rows archives_inv_def exclusive_def)
    fix a assume "a \<in> set (t_archives ?db')"
    then consider "a \<in> set (t_archives db)" | "a \<in> set (archive_rows t detail (seq_archives db) ?ls)" by auto
    then show "archive_row_inv ?db' a"
    proof cases
      case 1
      then show ?thesis
        using parts(4) by (fastforce simp: archives_inv_def archive_row_inv_def passed_def acked_db_def)
    next
      case 2
      from archive_rows_in [OF this] obtain d j where d: "d \<in> set (t_deliveries db)"
        "a = archive_row_of t detail (archived_lease_from_row d) j"
        "seq_archives db < j" "j \<le> seq_archives db + int (length ?ls)"
        by (auto simp: set_archived_leases)
      with parts(3,4) show ?thesis
        by (auto simp: archive_row_inv_def archive_row_of_def archived_lease_from_row_def
            deliveries_inv_def passed_def acked_db_def archives_inv_def)
    qed
  qed (use parts(4) room in \<open>auto simp: archives_inv_def\<close>)
qed

lemma archived_exclusive:
  assumes inv: "db_inv db"
  shows "dr_key ` set (t_deliveries (acked_db cid rs db)) \<inter>
    ar_key ` set (t_archives db @ archive_rows t detail (seq_archives db) (archived_leases cid rs db)) = {}"
proof -
  let ?db1 = "acked_db cid rs db" and ?ls = "archived_leases cid rs db"
  note parts = db_invD [OF inv]
  have "dr_key d \<notin> al_key ` set ?ls" if d: "d \<in> set (t_deliveries ?db1)" for d
  proof
    assume "dr_key d \<in> al_key ` set ?ls"
    then obtain d' where d': "d' \<in> set (t_deliveries db)" "receipt_clause cid rs d'" "dr_key d = dr_key d'"
      by (auto simp: set_archived_leases)
    have "d = d'"
      using parts(3) d d' distinct_map_inj [of dr_key "t_deliveries db" d d']
      by (auto simp: deliveries_inv_def acked_db_def)
    with d d' show False by (simp add: acked_db_def)
  qed
  then have "dr_key ` set (t_deliveries ?db1) \<inter> al_key ` set ?ls = {}" by blast
  moreover have "dr_key ` set (t_deliveries ?db1) \<inter> ar_key ` set (t_archives db) = {}"
    using parts(6) by (auto simp: exclusive_def acked_db_def)
  ultimately show ?thesis
    unfolding set_append image_Un set_archive_rows Int_Un_distrib by (simp only: Un_empty simp_thms)
qed

lemma archived_db_inv:
  assumes inv: "db_inv db"
    and room: "seq_archives db + int (length (archived_leases cid rs db)) \<le> i64_max"
  shows "db_inv (archived_db cid rs t detail db)"
  using db_inv_set_archives [OF acked_db_inv [OF inv] archived_archives_inv [OF inv room, of t detail, unfolded archived_db_def]
      archived_exclusive [OF inv]]
  by (simp add: archived_db_def)

lemma archive_txn_inv:
  assumes "engine_ok E" and "db_inv db" and "archive_txn E cid rs t detail db = Inr (n, db')"
  shows "db_inv db'"
  using assms archived_db_inv [OF assms(2), of cid rs t detail]
  by (simp add: archive_txn_eq length_archived_leases db_invD(3) split: if_splits)

lemma archive_batch_inv:
  assumes E: "engine_ok E" and inv: "fan_inv fan"
    and run: "archive_batch_with_detail E clk self rs detail fan = (r, fan')"
  shows "fan_inv fan'"
proof (cases "rs = []")
  case True
  with inv run show ?thesis by (simp add: archive_batch_with_detail_def)
next
  case False
  show ?thesis
  proof (cases "and_then (ensure_batch_size fan (length rs)) (\<lambda>_. now_ms clk)")
    case (Inl e)
    with inv run False show ?thesis
      by (simp only: archive_batch_with_detail_def if_False sum.case prod.inject)
  next
    case (Inr t)
    show ?thesis
    proof (rule committed_notify_inv [OF inv])
      show "(case transaction (archive_txn E (co_id self) rs t detail) (lf_pool fan) of
          (Inl e, db) \<Rightarrow> (Inl e, fan\<lparr>lf_pool := db\<rparr>)
        | (Inr n, db) \<Rightarrow> (Inr (batch_result_of rs n), if 0 < n
            then fan\<lparr>lf_pool := db, lf_signals := notify_signal (co_consumer_signal self) (lf_signals fan)\<rparr>
            else fan\<lparr>lf_pool := db\<rparr>)) = (r, fan')"
        using run False Inr by (simp only: archive_batch_with_detail_def if_False sum.case)
    qed (auto intro: archive_txn_inv [OF E fan_invD(1) [OF inv]])
  qed
qed

subsection \<open>Redrive\<close>

lemma redrive_clause_append_fun:
  "redrive_clause cid (xs @ ys) = (\<lambda>a. redrive_clause cid xs a \<or> redrive_clause cid ys a)"
  by (auto simp: redrive_clause_def fun_eq_iff)

definition removed_archives :: "int \<Rightarrow> archive_id list \<Rightarrow> database \<Rightarrow> database" where
  "removed_archives cid ids db =
     db\<lparr>t_archives := filter (\<lambda>a. \<not> redrive_clause cid ids a) (t_archives db)\<rparr>"

definition archived_messages :: "int \<Rightarrow> archive_id list \<Rightarrow> database \<Rightarrow> int list" where
  "archived_messages cid ids db = map ar_message_id (filter (redrive_clause cid ids) (t_archives db))"

lemma mset_archived_messages_append:
  "mset (archived_messages cid (xs @ ys) db)
     = mset (archived_messages cid xs db) + mset (archived_messages cid ys (removed_archives cid xs db))"
proof -
  let ?x = "redrive_clause cid xs" and ?y = "redrive_clause cid ys"
  have "filter_mset (\<lambda>d. ?x d \<or> ?y d) M = filter_mset ?x M + filter_mset (\<lambda>d. ?y d \<and> \<not> ?x d) M" for M
    by (induction M) auto
  then show ?thesis
    by (simp add: archived_messages_def removed_archives_def redrive_clause_append_fun conj_commute
        flip: image_mset_union)
qed

interpretation take_archives:
  chunked_stmt "take_archives_chunk E cid" mset
    "\<lambda>ids db. Inr (mset (archived_messages cid ids db), removed_archives cid ids db)" "\<lambda>_ _. engine_ok E"
  for E :: engine and cid :: int
proof (unfold_locales, goal_cases)
  case (1 xs s)
  then show ?case
    by (simp add: take_archives_chunk_def delete_archives_def archived_messages_def
        removed_archives_def engine_ok_def)
next
  case (3 xs ys s)
  show ?case
    by (simp add: mset_archived_messages_append)
      (simp add: removed_archives_def redrive_clause_append_fun conj_commute)
qed (simp_all add: archived_messages_def removed_archives_def redrive_clause_def)

interpretation redriven_inserts:
  chunked_stmt "insert_redriven_chunk cid v" "\<lambda>_ :: unit. 0 :: nat"
    "\<lambda>mids db. map_sum id (map_prod (\<lambda>_. 0) id) (insert_redriven_chunk cid v mids db)" "\<lambda>_ _. True"
  for cid v :: int
proof (unfold_locales, goal_cases)
  case (3 xs ys s)
  show ?case
  proof (cases "insert_deliveries (map (redriven_row cid v) xs) s")
    case (Inr s1)
    then show ?thesis
      by (cases "insert_deliveries (map (redriven_row cid v) ys) s1")
        (auto simp: insert_redriven_chunk_def insert_deliveries_append)
  qed (simp add: insert_redriven_chunk_def insert_deliveries_append)
qed (simp_all add: insert_redriven_chunk_def)

lemma redriven_chunks:
  "and_then (run_chunks (insert_redriven_chunk cid v) (chunks DELIVERIES_PER_CHUNK mids) db) (\<lambda>(_, db'). f db')
     = and_then (insert_deliveries (map (redriven_row cid v) mids) db) f"
  using redriven_inserts.run_chunks_whole [where n = DELIVERIES_PER_CHUNK and xs = mids and s = db
      and cid = cid and v = v]
  by (cases "insert_deliveries (map (redriven_row cid v) mids) db";
      cases "run_chunks (insert_redriven_chunk cid v) (chunks DELIVERIES_PER_CHUNK mids) db")
    (auto simp: insert_redriven_chunk_def)

definition redriven_db :: "int \<Rightarrow> int \<Rightarrow> archive_id list \<Rightarrow> int list \<Rightarrow> database \<Rightarrow> database" where
  "redriven_db cid v ids mids db =
     (removed_archives cid ids db)\<lparr>t_deliveries := t_deliveries db @ map (redriven_row cid v) mids\<rparr>"

lemma redriven_db_simps [simp]:
  "t_messages (redriven_db cid v ids mids db) = t_messages db"
  "t_idempotency (redriven_db cid v ids mids db) = t_idempotency db"
  "t_consumers (redriven_db cid v ids mids db) = t_consumers db"
  "t_deliveries (redriven_db cid v ids mids db) = t_deliveries db @ map (redriven_row cid v) mids"
  "t_archives (redriven_db cid v ids mids db)
     = filter (\<lambda>a. \<not> redrive_clause cid ids a) (t_archives db)"
  by (simp_all add: redriven_db_def removed_archives_def)

lemma redriven_key [simp]: "dr_key (redriven_row cid v mid) = (cid, mid)"
  by (simp add: redriven_row_def dr_key_def)

text \<open>The keys a redrive inserts are those of the archives it removed.\<close>

lemma redriven_keys:
  "Pair cid ` set (archived_messages cid ids db)
     = ar_key ` {a \<in> set (t_archives db). redrive_clause cid ids a}"
  by (auto simp: archived_messages_def ar_key_def redrive_clause_def)

lemma distinct_archived_messages:
  assumes "archives_inv db"
  shows "distinct (archived_messages cid ids db)"
proof -
  have "distinct (map ar_key (filter (redrive_clause cid ids) (t_archives db)))"
    using assms by (simp add: archives_inv_def distinct_map_filter)
  moreover have "map ar_key (filter (redrive_clause cid ids) (t_archives db))
      = map (Pair cid) (archived_messages cid ids db)"
    by (auto simp: archived_messages_def ar_key_def redrive_clause_def)
  ultimately show ?thesis by (metis distinct_map)
qed

lemma redrive_ok:
  assumes inv: "db_inv db" and ms: "mset mids = mset (archived_messages cid ids db)"
  shows "insert_deliveries (map (redriven_row cid v) mids) (removed_archives cid ids db)
      = Inr (redriven_db cid v ids mids db)"
    and "db_inv (redriven_db cid v ids mids db)"
proof -
  note parts = db_invD [OF inv]
  let ?ds = "map (redriven_row cid v) mids" and ?db1 = "removed_archives cid ids db"
  have set: "set mids = set (archived_messages cid ids db)" using ms by (rule mset_eq_setD)
  have dist: "distinct mids"
    using distinct_archived_messages [OF parts(4)] ms by (metis mset_eq_imp_distinct_iff)
  have keys: "dr_key ` set ?ds = ar_key ` {a \<in> set (t_archives db). redrive_clause cid ids a}"
    using redriven_keys [of cid ids db] by (simp add: image_image set)
  have d: "distinct (map dr_key ?ds)" using dist by (simp add: comp_def distinct_map inj_on_def)
  have k1: "dr_key ` set ?ds \<inter> dr_key ` set (t_deliveries ?db1) = {}"
    unfolding keys using parts(6) by (auto simp: exclusive_def removed_archives_def)
  have k2: "dr_key ` set ?ds \<inter> ar_key ` set (t_archives ?db1) = {}"
    unfolding keys using parts(4) distinct_map_inj [of ar_key "t_archives db"]
    by (fastforce simp: archives_inv_def removed_archives_def)
  have p: "passed db cid mid" if "mid \<in> set mids" for mid
    using that parts(4) unfolding set by (auto simp: archived_messages_def archives_inv_def redrive_clause_def)
  have db1: "db_inv ?db1"
    using delete_archives_inv [OF inv, of "redrive_clause cid ids"]
    by (simp add: delete_archives_def removed_archives_def)
  show "insert_deliveries ?ds ?db1 = Inr (redriven_db cid v ids mids db)"
    using p passed_parents
    by (subst insert_deliveries_ok [OF d k1])
      (fastforce simp: redriven_row_def delivery_checks_def redriven_db_def removed_archives_def)+
  have "delivery_row_inv ?db1 x" if "x \<in> set ?ds" for x
    using that p by (auto simp: delivery_row_inv_def redriven_row_def removed_archives_def)
  from db_inv_append_deliveries [OF db1 d k1 k2 this]
  show "db_inv (redriven_db cid v ids mids db)"
    by (simp add: redriven_db_def removed_archives_def)
qed

text \<open>A redrive restores exactly the archives the ids name; only the row order is the engine's.\<close>

lemma redrive_txn_eq:
  assumes "engine_ok E" and "db_inv db"
  obtains mids where "mset mids = mset (archived_messages cid ids db)"
    "redrive_txn E cid ids v db = Inr (length mids, redriven_db cid v ids mids db)"
proof -
  from take_archives.run_chunks_of_whole [OF chunk_sizes_pos(2) assms(1) refl]
  obtain midss where run: "run_chunks (take_archives_chunk E cid) (chunks REDRIVE_IDS_PER_CHUNK ids) db
      = Inr (midss, removed_archives cid ids db)"
    and ms: "mset (concat midss) = mset (archived_messages cid ids db)"
    unfolding sum_list_map_mset_concat by blast
  show thesis
    by (rule that [OF ms])
      (simp add: redrive_txn_def run redriven_chunks redrive_ok(1) [OF assms(2) ms] Let_def)
qed

lemma redrive_txn_inv:
  assumes "engine_ok E" and "db_inv db" and "redrive_txn E cid ids v db = Inr (n, db')"
  shows "db_inv db'"
  using redrive_txn_eq [OF assms(1,2), of cid ids v] redrive_ok(2) [OF assms(2)] assms(3)
  by (metis Pair_inject sum.inject(2))

lemma redrive_batch_inv:
  assumes E: "engine_ok E" and inv: "fan_inv fan"
    and run: "redrive_batch E clk self ids retry fan = (r, fan')"
  shows "fan_inv fan'"
proof (cases "ids = []")
  case True
  with inv run show ?thesis by (simp add: redrive_batch_def)
next
  case False
  show ?thesis
  proof (cases "and_then (ensure_batch_size fan (length ids)) (\<lambda>_.
      and_then (now_ms clk) (\<lambda>now. add_duration now (retry_delay retry)))")
    case (Inl e)
    with inv run False show ?thesis by (simp only: redrive_batch_def if_False sum.case prod.inject)
  next
    case (Inr v)
    show ?thesis
    proof (rule committed_notify_inv [OF inv])
      show "(case transaction (redrive_txn E (co_id self) ids v) (lf_pool fan) of
          (Inl e, db) \<Rightarrow> (Inl e, fan\<lparr>lf_pool := db\<rparr>)
        | (Inr n, db) \<Rightarrow> (Inr \<lparr>br_applied = n, br_stale = length ids - n\<rparr>, if 0 < n
            then fan\<lparr>lf_pool := db, lf_signals := notify_signal (co_consumer_signal self) (lf_signals fan)\<rparr>
            else fan\<lparr>lf_pool := db\<rparr>)) = (r, fan')"
        using run False Inr by (simp only: redrive_batch_def if_False sum.case)
    qed (auto intro: redrive_txn_inv [OF E fan_invD(1) [OF inv]])
  qed
qed

lemma purge_archives_inv:
  assumes inv: "fan_inv fan" and run: "purge_archives self purge fan = (r, fan')"
  shows "fan_inv fan'"
proof -
  have "db_inv db" if "purge_archives_statement cid t n (lf_pool fan) = Inr (k, db)" for cid t n k db
    using that delete_archives_inv [OF fan_invD(1) [OF inv]]
    by (auto simp: purge_archives_statement_def split: prod.splits)
  then show ?thesis
    using run inv
    by (auto simp: purge_archives_def transaction_def fan_inv_update(2) split: if_splits sum.splits)
qed

subsection \<open>Pages of archives\<close>

text \<open>The whole listing of a consumer: its archives in the order of their ids.\<close>

definition archive_entry :: "database \<Rightarrow> archive_row \<Rightarrow> archived_delivery" where
  "archive_entry db a =
     \<lparr>ad_id = ArchiveId (ar_id a),
      ad_message = message_of_row (hd (filter (\<lambda>m. mr_id m = ar_message_id a) (t_messages db))),
      ad_delivery_count = nat (ar_delivery_count a), ad_archived_at_ms = ar_archived_at a,
      ad_detail = ar_detail a\<rparr>"

definition archive_list :: "database \<Rightarrow> int \<Rightarrow> archived_delivery list" where
  "archive_list db cid = map (archive_entry db) (archives_of db cid)"

lemma archives_of_sorted:
  "archives_inv db \<Longrightarrow> sorted_wrt (<) (map ar_id (filter p (t_archives db)))"
  by (simp add: archives_inv_def sorted_wrt_map sorted_wrt_filter)

lemma archive_join_eq:
  assumes inv: "db_inv db"
  shows "archive_join db cid after =
    map (\<lambda>a. (a, hd (filter (\<lambda>m. mr_id m = ar_message_id a) (t_messages db))))
      (filter (\<lambda>a. after < ar_id a) (archives_of db cid))"
proof -
  note parts = db_invD [OF inv]
  let ?as = "filter (\<lambda>a. ar_consumer_id a = cid \<and> after < ar_id a) (t_archives db)"
  have sort: "sort_key ar_id ?as = ?as"
    using archives_of_sorted [OF parts(4)] by (intro sort_key_id_if_sorted) (simp add: strict_sorted_iff)
  have "map (Pair a) (filter (\<lambda>m. mr_id m = ar_message_id a) (t_messages db))
      = [(a, hd (filter (\<lambda>m. mr_id m = ar_message_id a) (t_messages db)))]" if "a \<in> set ?as" for a
  proof -
    have pass: "passed db (ar_consumer_id a) (ar_message_id a)"
      using that parts(4) by (auto simp: archives_inv_def)
    then obtain m where m: "m \<in> set (t_messages db)" "mr_id m = ar_message_id a"
      by (elim passedE)
    have "distinct (map mr_id (t_messages db))"
      using parts(1) by (simp add: messages_inv_def strict_sorted_iff)
    from filter_key_unique [OF this m] show ?thesis by simp
  qed
  then have "concat (map (\<lambda>a. map (Pair a) (filter (\<lambda>m. mr_id m = ar_message_id a) (t_messages db))) ?as)
      = concat (map (\<lambda>a. [(a, hd (filter (\<lambda>m. mr_id m = ar_message_id a) (t_messages db)))]) ?as)"
    by (intro arg_cong [where f = concat] map_cong) auto
  then show ?thesis
    unfolding archive_join_def sort by (simp add: archives_of_def conj_commute)
qed

lemma archives_eq:
  assumes inv: "fan_inv fan" and size: "la_max_archives list \<le> lf_max_batch_size fan"
  shows "archives self list fan =
    Inr (take (la_max_archives list)
      (map (archive_entry (lf_pool fan))
        (filter (\<lambda>a. (case la_after list of None \<Rightarrow> 0 | Some i \<Rightarrow> archive_id_get i) < ar_id a)
          (archives_of (lf_pool fan) (co_id self)))))"
proof (cases "la_max_archives list = 0")
  case True
  then show ?thesis by (simp add: archives_def)
next
  case False
  let ?db = "lf_pool fan" and ?after = "case la_after list of None \<Rightarrow> 0 | Some i \<Rightarrow> archive_id_get i"
  let ?f = "\<lambda>a. (a, hd (filter (\<lambda>m. mr_id m = ar_message_id a) (t_messages ?db)))"
  have lim: "i64_try_from (int (la_max_archives list)) = Some (int (la_max_archives list))"
    using size fan_invD(4) [OF inv] by (simp add: i64_try_from_def in_i64_def i64_min_def)
  have "archived_delivery_of (?f a) = Inr (archive_entry ?db a)" if "a \<in> set (t_archives ?db)" for a
    using that db_invD(4) [OF fan_invD(1) [OF inv]]
    by (force simp: archived_delivery_of_def archive_entry_def count_from_row_def archives_inv_def)
  then have "map_result (\<lambda>a. archived_delivery_of (?f a)) as = Inr (map (archive_entry ?db) as)"
    if "set as \<subseteq> set (t_archives ?db)" for as
    using that by (intro map_result_all_Inr) auto
  moreover have "map_result archived_delivery_of (map ?f as) = map_result (\<lambda>a. archived_delivery_of (?f a)) as" for as
    by (induction as) simp_all
  moreover have "set (take n (filter p (archives_of ?db (co_id self)))) \<subseteq> set (t_archives ?db)" for n p
    using set_take_subset by (fastforce simp: archives_of_def)
  ultimately show ?thesis
    using False size lim
    by (simp add: archives_def archive_join_eq [OF fan_invD(1) [OF inv]] take_map ensure_batch_size_def)
qed

text \<open>The archived rows, read off the deliveries they replace.\<close>

lemma archive_rows_map2:
  "archive_rows t detail i ls = map2 (\<lambda>j l. archive_row_of t detail l j) [i + 1..i + int (length ls)] ls"
proof (induction ls arbitrary: i)
  case (Cons l ls)
  have "[i + 1..i + int (length (l # ls))] = (i + 1) # [i + 1 + 1..i + 1 + int (length ls)]"
    by (simp add: upto_rec1 add_ac)
  with Cons show ?case by (simp add: add_ac)
qed simp

lemma archived_leases_rows:
  "archived_leases cid rs db
    = map archived_lease_from_row (sort_key dr_message_id (filter (receipt_clause cid rs) (t_deliveries db)))"
  by (simp add: archived_leases_def leases_named_def sort_key_map archived_lease_from_row_def)

end
