(* ===== verification/Lifecycle.thy ===== *)
theory Lifecycle
  imports Litefan
begin

text \<open>
  The life of a consumer, from \<open>consumer.rs\<close>: creation and reopening, draining, inspection,
  and the drop of a handle. \<open>begin_draining\<close> issues two statements outside a transaction;
  its argument \<open>others\<close> is what other connections commit between them.
\<close>

record consumer_builder =
  cb_name :: utf8
  cb_filter :: filter_spec

definition consumer_builder_new :: "utf8 \<Rightarrow> consumer_builder" where
  "consumer_builder_new name = \<lparr>cb_name = name, cb_filter = FilterAll\<rparr>"

definition builder_filter :: "filter_spec \<Rightarrow> consumer_builder \<Rightarrow> consumer_builder" where
  "builder_filter flt b = b\<lparr>cb_filter := flt\<rparr>"

text \<open>\<open>INSERT INTO litefan_consumers ... ON CONFLICT(name) DO NOTHING\<close>.\<close>

definition insert_consumer :: "engine \<Rightarrow> utf8 \<Rightarrow> utf8 option \<Rightarrow> int \<Rightarrow> database \<Rightarrow> database outcome" where
  "insert_consumer E name topic_filter created_at db =
     (if seq_consumers db = i64_max then Inl (Sqlx DatabaseFull)
      else let c = \<lparr>cr_id = seq_consumers db + 1, cr_name = name, cr_topic_filter = topic_filter,
                    cr_created_at = created_at, cr_draining_at = None,
                    cr_scan_cursor = high_water db, cr_drain_cursor = None\<rparr> in
        if \<not> consumer_checks c then Inl (Sqlx CheckViolation)
        else if name \<in> cr_name ` set (t_consumers db) then
          Inr (if eng_burns_rowid E then db\<lparr>seq_consumers := seq_consumers db + 1\<rparr> else db)
        else Inr (db\<lparr>t_consumers := t_consumers db @ [c], seq_consumers := seq_consumers db + 1\<rparr>))"

definition open_txn :: "engine \<Rightarrow> consumer_builder \<Rightarrow> int \<Rightarrow> database \<Rightarrow> (int \<times> database) outcome" where
  "open_txn E b now db =
     and_then (insert_consumer E (cb_name b) (as_database_value (cb_filter b)) now db) (\<lambda>db1.
     and_then (ok_or (find_consumer_by_name (cb_name b) db1) (Sqlx RowNotFound)) (\<lambda>row.
     if cr_topic_filter row \<noteq> as_database_value (cb_filter b)
     then Inl (ConsumerConfigurationMismatch (cb_name b))
     else Inr (cr_id row, db1)))"

definition open_consumer :: "engine \<Rightarrow> clock \<Rightarrow> consumer_builder \<Rightarrow> consumer handler" where
  "open_consumer E clk b fan =
     (if cb_name b = [] then (Inl EmptyConsumerName, fan)
      else case now_ms clk of
        Inl e \<Rightarrow> (Inl e, fan)
      | Inr now \<Rightarrow>
          (case transaction (open_txn E b now) (lf_pool fan) of
             (Inl e, db) \<Rightarrow> (Inl e, fan\<lparr>lf_pool := db\<rparr>)
           | (Inr cid, db) \<Rightarrow>
               (let (publish_signal, sg1) = publishes_for (cb_filter b) (lf_signals fan);
                    (own_signal, sg2) = consumer_signal cid sg1
                in (Inr \<lparr>co_publish_signal = publish_signal, co_consumer_signal = own_signal,
                         co_id = cid, co_name = cb_name b, co_filter = cb_filter b\<rparr>,
                    fan\<lparr>lf_pool := db, lf_signals := sg2\<rparr>))))"

text \<open>\<open>Arc<Signal>\<close> of both signals goes down when a handle is dropped.\<close>

definition drop_consumer :: "consumer \<Rightarrow> litefan \<Rightarrow> litefan" where
  "drop_consumer self fan =
     fan\<lparr>lf_signals := drop_signal (co_consumer_signal self)
                         (drop_signal (co_publish_signal self) (lf_signals fan))\<rparr>"

definition deleted_error :: "consumer \<Rightarrow> error" where
  "deleted_error self = ConsumerDeleted (co_name self)"

definition drain_row :: "int \<Rightarrow> int \<Rightarrow> consumer_row \<Rightarrow> consumer_row" where
  "drain_row draining_at high c =
     c\<lparr>cr_draining_at := Some draining_at, cr_drain_cursor := Some (max (cr_scan_cursor c) high)\<rparr>"

definition drain_statement :: "int \<Rightarrow> int \<Rightarrow> database \<Rightarrow> (nat \<times> database) outcome" where
  "drain_statement cid draining_at db =
     update_consumers (\<lambda>c. cr_id c = cid \<and> cr_draining_at c = None)
       (drain_row draining_at (high_water db)) db"

definition begin_draining :: "(database \<Rightarrow> database) \<Rightarrow> clock \<Rightarrow> consumer \<Rightarrow> bool handler" where
  "begin_draining others clk self fan =
     (case now_ms clk of
        Inl e \<Rightarrow> (Inl e, fan)
      | Inr draining_at \<Rightarrow>
          (case transaction (drain_statement (co_id self) draining_at) (lf_pool fan) of
             (Inl e, db) \<Rightarrow> (Inl e, fan\<lparr>lf_pool := db\<rparr>)
           | (Inr rows, db) \<Rightarrow>
               if rows = 1 then
                 (Inr True, fan\<lparr>lf_pool := db,
                    lf_signals := notify_signal (co_consumer_signal self) (lf_signals fan)\<rparr>)
               else
                 (if co_id self \<in> cr_id ` set (t_consumers (others db)) then Inr False
                  else Inl (deleted_error self), fan\<lparr>lf_pool := others db\<rparr>)))"

definition consumer_snapshot :: "clock \<Rightarrow> consumer \<Rightarrow> litefan \<Rightarrow> consumer_snapshot outcome" where
  "consumer_snapshot clk self fan =
     and_then (now_ms clk) (\<lambda>now.
     and_then (fetch_consumer_snapshots now (Some (co_id self)) (lf_pool fan)) (\<lambda>snapshots.
     if snapshots = [] then Inl (deleted_error self) else Inr (last snapshots)))"

subsection \<open>Creation\<close>

lemma high_water_le: "messages_inv db \<Longrightarrow> 0 \<le> high_water db \<and> high_water db \<le> seq_messages db"
  unfolding high_water_def
  by (intro conjI coalesce_max_nonneg coalesce_max_le) (auto simp: messages_inv_def)

lemma high_water_ge: "m \<in> set (t_messages db) \<Longrightarrow> mr_id m \<le> high_water db"
  by (simp add: high_water_def coalesce_max_ge)

definition new_consumer_row :: "utf8 \<Rightarrow> utf8 option \<Rightarrow> int \<Rightarrow> database \<Rightarrow> consumer_row" where
  "new_consumer_row name topic_filter created_at db =
     \<lparr>cr_id = seq_consumers db + 1, cr_name = name, cr_topic_filter = topic_filter,
      cr_created_at = created_at, cr_draining_at = None,
      cr_scan_cursor = high_water db, cr_drain_cursor = None\<rparr>"

lemma insert_consumer_eq:
  assumes "messages_inv db" and "seq_consumers db \<noteq> i64_max"
  shows "insert_consumer E name flt t db =
    (if name \<in> cr_name ` set (t_consumers db)
     then Inr (if eng_burns_rowid E then db\<lparr>seq_consumers := seq_consumers db + 1\<rparr> else db)
     else Inr (db\<lparr>t_consumers := t_consumers db @ [new_consumer_row name flt t db],
                  seq_consumers := seq_consumers db + 1\<rparr>))"
  using assms high_water_le [OF assms(1)]
  by (simp add: insert_consumer_def new_consumer_row_def consumer_checks_def Let_def)

lemma insert_consumer_inv:
  assumes inv: "db_inv db" and "name \<noteq> []" and ins: "insert_consumer E name flt t db = Inr db'"
  shows "db_inv db'"
proof -
  have seq: "seq_consumers db < i64_max"
    using ins db_invD(2) [OF inv]
    by (auto simp: insert_consumer_def consumers_inv_def split: if_splits)
  have row: "consumer_row_inv (db\<lparr>seq_consumers := seq_consumers db + 1\<rparr>) (new_consumer_row name flt t db)"
    using assms(2) high_water_le [OF db_invD(1) [OF inv]] db_invD(2) [OF inv]
    by (simp add: consumer_row_inv_def new_consumer_row_def consumers_inv_def)
  show ?thesis
    using ins seq insert_consumer_eq [OF db_invD(1) [OF inv], of E name flt t]
      db_inv_burn_consumer_id [OF inv seq] db_inv_add_consumer [OF inv seq row] inv
    by (auto simp: new_consumer_row_def split: if_splits)
qed

text \<open>The two successful outcomes of a creation: a new row at the head, or the existing one.\<close>

lemma open_txn_cases:
  assumes inv: "db_inv db" and run: "open_txn E b now db = Inr (cid, db')"
  obtains (created) "cb_name b \<notin> cr_name ` set (t_consumers db)" "cid = seq_consumers db + 1"
      "db' = db\<lparr>t_consumers := t_consumers db @
         [new_consumer_row (cb_name b) (as_database_value (cb_filter b)) now db],
         seq_consumers := seq_consumers db + 1\<rparr>"
    | (reopened) c where "c \<in> set (t_consumers db)" "cr_name c = cb_name b" "cr_id c = cid"
      "cr_topic_filter c = as_database_value (cb_filter b)"
      "db' = (if eng_burns_rowid E then db\<lparr>seq_consumers := seq_consumers db + 1\<rparr> else db)"
proof -
  let ?c = "new_consumer_row (cb_name b) (as_database_value (cb_filter b)) now db"
  have seq: "seq_consumers db \<noteq> i64_max"
    using run by (auto simp: open_txn_def insert_consumer_def)
  note ins = insert_consumer_eq [OF db_invD(1) [OF inv] seq]
  show thesis
  proof (cases "cb_name b \<in> cr_name ` set (t_consumers db)")
    case True
    then obtain c where c: "c \<in> set (t_consumers db)" "cr_name c = cb_name b" by force
    have "find_consumer_by_name (cb_name b) db = Some c"
      using find_consumer_by_name_Some [OF db_invD(2) [OF inv]] c by blast
    moreover have "find_consumer_by_name (cb_name b)
        (if eng_burns_rowid E then db\<lparr>seq_consumers := seq_consumers db + 1\<rparr> else db)
        = find_consumer_by_name (cb_name b) db"
      by (simp add: find_consumer_by_name_def)
    ultimately show thesis
      using run True c by (intro reopened [of c]) (auto simp: open_txn_def ins split: if_splits)
  next
    case False
    then have none: "find (\<lambda>c. cr_name c = cb_name b) (t_consumers db) = None"
      by (simp only: find_key_None_iff not_False_eq_True)
    have "find (\<lambda>c. cr_name c = cb_name b) (t_consumers db @ [?c]) = Some ?c"
      unfolding find_append_None [OF none] by (simp add: new_consumer_row_def)
    with run False show thesis
      by (intro created) (auto simp: open_txn_def ins find_consumer_by_name_def new_consumer_row_def
          split: if_splits)
  qed
qed

lemma open_txn_inv:
  assumes "db_inv db" and "cb_name b \<noteq> []" and "open_txn E b now db = Inr (cid, db')"
  shows "db_inv db'"
  using assms insert_consumer_inv [OF assms(1,2)] by (auto simp: open_txn_def split: if_splits)

lemma open_consumer_inv:
  assumes inv: "fan_inv fan" and run: "open_consumer E clk b fan = (r, fan')"
  shows "fan_inv fan'"
proof (cases "cb_name b = [] \<or> (\<exists>e. now_ms clk = Inl e)")
  case True
  with inv run show ?thesis by (auto simp: open_consumer_def split: if_splits)
next
  case False
  then obtain now where now: "now_ms clk = Inr now" by (cases "now_ms clk") auto
  show ?thesis
  proof (cases "open_txn E b now (lf_pool fan)")
    case (Inl e)
    with inv run False now show ?thesis by (auto simp: open_consumer_def transaction_def)
  next
    case (Inr p)
    obtain cid db where p: "p = (cid, db)" by (cases p)
    obtain s1 sg1 where s1: "publishes_for (cb_filter b) (lf_signals fan) = (s1, sg1)"
      by (cases "publishes_for (cb_filter b) (lf_signals fan)")
    obtain s2 sg2 where s2: "consumer_signal cid sg1 = (s2, sg2)" by (cases "consumer_signal cid sg1")
    have "fan' = fan\<lparr>lf_pool := db, lf_signals := sg2\<rparr>"
      using run False now Inr p s1 s2 by (auto simp: open_consumer_def transaction_def)
    moreover have "db_inv db"
      using open_txn_inv [OF fan_invD(1) [OF inv]] False Inr p by blast
    moreover have "signals_inv sg2"
      using publishes_for_inv [OF fan_invD(2) [OF inv] s1] consumer_signal_inv s2 by blast
    ultimately show ?thesis using fan_inv_update(1) [OF inv] by simp
  qed
qed

lemma open_consumer_Inl:
  assumes "open_consumer E clk b fan = (Inl e, fan')"
  shows "fan' = fan"
  using assms
  by (auto simp: open_consumer_def transaction_def split: if_splits sum.splits prod.splits)

subsection \<open>Draining\<close>

text \<open>The CHECK constraint cannot fail: the frozen boundary is at or after the cursor.\<close>

lemma drain_statement_ok:
  assumes "db_inv db"
  shows "drain_statement cid t db =
    Inr (length (filter (\<lambda>c. cr_id c = cid \<and> cr_draining_at c = None) (t_consumers db)),
      db\<lparr>t_consumers := map (\<lambda>c. if cr_id c = cid \<and> cr_draining_at c = None
            then drain_row t (high_water db) c else c) (t_consumers db)\<rparr>)"
  using db_invD(2) [OF assms]
  by (auto simp: drain_statement_def update_consumers_def consumer_checks_def drain_row_def
      consumers_inv_def consumer_row_inv_def)

lemma drain_statement_inv:
  assumes inv: "db_inv db" and run: "drain_statement cid t db = Inr (n, db')"
  shows "db_inv db'"
proof -
  have "db' = db\<lparr>t_consumers := map (\<lambda>c. if cr_id c = cid \<and> cr_draining_at c = None
            then drain_row t (high_water db) c else c) (t_consumers db)\<rparr>"
    using run drain_statement_ok [OF inv] by simp
  moreover have "consumer_row_inv db c \<Longrightarrow> consumer_row_inv db (drain_row t (high_water db) c)" for c
    using high_water_le [OF db_invD(1) [OF inv]] by (auto simp: consumer_row_inv_def drain_row_def)
  ultimately show ?thesis
    using db_inv_map_consumers [OF inv, of "\<lambda>c. if cr_id c = cid \<and> cr_draining_at c = None
            then drain_row t (high_water db) c else c"]
    by (auto simp: drain_row_def)
qed

lemma drain_rows_affected:
  assumes "consumers_inv db"
  shows "length (filter (\<lambda>c. cr_id c = cid \<and> cr_draining_at c = None) (t_consumers db)) =
    (case find_consumer cid db of Some c \<Rightarrow> if cr_draining_at c = None then 1 else 0 | None \<Rightarrow> 0)"
proof (cases "find_consumer cid db")
  case None
  then have "filter (\<lambda>c. cr_id c = cid \<and> cr_draining_at c = None) (t_consumers db) = []"
    by (auto simp: find_consumer_None filter_empty_conv)
  with None show ?thesis by simp
next
  case (Some c)
  then have c: "c \<in> set (t_consumers db)" "cr_id c = cid"
    using find_consumer_Some [OF assms] by auto
  have d: "distinct (map cr_id (t_consumers db))" using assms by (simp add: consumers_inv_def)
  have "filter (\<lambda>x. cr_id x = cid) (t_consumers db) = [c]"
    by (rule filter_key_unique [OF d c])
  moreover have "filter (\<lambda>x. cr_id x = cid \<and> cr_draining_at x = None) (t_consumers db)
      = filter (\<lambda>x. cr_draining_at x = None) (filter (\<lambda>x. cr_id x = cid) (t_consumers db))"
    by (simp add: conj_commute)
  ultimately show ?thesis using Some by simp
qed

lemma begin_draining_inv:
  assumes inv: "fan_inv fan" and others: "\<And>db. db_inv db \<Longrightarrow> db_inv (others db)"
    and run: "begin_draining others clk self fan = (r, fan')"
  shows "fan_inv fan'"
proof (cases "now_ms clk")
  case (Inl e)
  with inv run show ?thesis by (simp add: begin_draining_def)
next
  case (Inr t)
  obtain n db where st: "drain_statement (co_id self) t (lf_pool fan) = Inr (n, db)"
    using drain_statement_ok [OF fan_invD(1) [OF inv]] by blast
  have db: "db_inv db" using drain_statement_inv [OF fan_invD(1) [OF inv] st] .
  show ?thesis
    using run Inr st db fan_inv_update [OF inv] others [OF db] notify_signal_inv [OF fan_invD(2) [OF inv]]
    by (auto simp: begin_draining_def transaction_def split: if_splits)
qed

lemma drop_consumer_inv: "fan_inv fan \<Longrightarrow> fan_inv (drop_consumer self fan)"
  by (simp add: drop_consumer_def fan_inv_update(3) drop_signal_inv fan_invD(2))

lemma drain_failed:
  assumes inv: "fan_inv fan" and run: "begin_draining (\<lambda>db. db) clk self fan = (Inl e, fan')"
  shows "fan' = fan"
proof (cases "now_ms clk")
  case (Inl e)
  with run show ?thesis by (simp add: begin_draining_def)
next
  case (Inr t)
  let ?due = "\<lambda>c. cr_id c = co_id self \<and> cr_draining_at c = None"
  let ?drain = "\<lambda>c. if ?due c then drain_row t (high_water (lf_pool fan)) c else c"
  let ?db = "(lf_pool fan)\<lparr>t_consumers := map ?drain (t_consumers (lf_pool fan))\<rparr>"
  have "map cr_id (map ?drain (t_consumers (lf_pool fan))) = map cr_id (t_consumers (lf_pool fan))"
    by (simp add: drain_row_def)
  then have ids: "cr_id ` set (map ?drain (t_consumers (lf_pool fan))) = cr_id ` set (t_consumers (lf_pool fan))"
    by (metis list.set_map)
  note txn = drain_statement_ok [OF fan_invD(1) [OF inv], of "co_id self" t]
  have "co_id self \<notin> cr_id ` set (t_consumers ?db)" and fan': "fan' = fan\<lparr>lf_pool := ?db\<rparr>"
    using run Inr by (simp_all add: begin_draining_def transaction_def txn split: if_splits)
  then have "co_id self \<notin> cr_id ` set (t_consumers (lf_pool fan))" using ids by simp
  then have "map ?drain (t_consumers (lf_pool fan)) = t_consumers (lf_pool fan)"
    by (intro map_idI) (auto simp: image_iff)
  with fan' show ?thesis by simp
qed

end
