(* ===== verification/Claiming.thy ===== *)
theory Claiming
  imports Archives Lifecycle "HOL-Library.Product_Lexorder"
begin

text \<open>
  \<open>Consumer::claim\<close> of \<open>consumer.rs\<close>. A claim is a read outside any transaction, a
  transaction that leases deliveries ready for retry and then messages of the log the cursor
  has not passed, and, when it got nothing, a second read. Between these three steps other
  connections may commit: the arguments \<open>others1\<close> and \<open>others2\<close> are what they do to the
  database.
\<close>

record claim_result =
  cl_deliveries :: "delivery list"
  cl_next_visible_at :: "int option"
  cl_draining :: bool

record claim_state =
  st_draining :: bool
  st_scan_cursor :: int
  st_scan_limit :: int
  st_earliest_visible_at :: "int option"

text \<open>The LEFT JOIN grouped by the consumer: MIN over no delivery is NULL.\<close>

definition claim_state_query :: "int \<Rightarrow> database \<Rightarrow> claim_state option" where
  "claim_state_query cid db =
     map_option (\<lambda>c. \<lparr>st_draining = (cr_draining_at c \<noteq> None),
                       st_scan_cursor = cr_scan_cursor c,
                       st_scan_limit = scan_limit db c,
                       st_earliest_visible_at = min_opt (map dr_visible_at (deliveries_of db cid))\<rparr>)
       (find_consumer cid db)"

subsection \<open>The lease transaction\<close>

text \<open>\<open>WHERE consumer_id = ? AND visible_at <= ? ORDER BY visible_at, message_id LIMIT ?\<close>.\<close>

definition ready_rows :: "database \<Rightarrow> int \<Rightarrow> int \<Rightarrow> nat \<Rightarrow> delivery_row list" where
  "ready_rows db cid now limit =
     take limit (sort_key (\<lambda>d. (dr_visible_at d, dr_message_id d))
       (filter (\<lambda>d. dr_visible_at d \<le> now) (deliveries_of db cid)))"

definition renew_row :: "int \<Rightarrow> delivery_row \<Rightarrow> delivery_row outcome" where
  "renew_row lease_deadline d =
     and_then (sql_incr (dr_generation d)) (\<lambda>generation.
     and_then (sql_incr (dr_delivery_count d)) (\<lambda>delivery_count.
       Inr (d\<lparr>dr_visible_at := lease_deadline, dr_generation := generation,
              dr_delivery_count := delivery_count\<rparr>)))"

definition lease_of_row :: "delivery_row \<Rightarrow> lease" where
  "lease_of_row d =
     \<lparr>ls_message_id = dr_message_id d, ls_generation = dr_generation d,
      ls_delivery_count = dr_delivery_count d\<rparr>"

definition renew_statement :: "engine \<Rightarrow> int \<Rightarrow> int \<Rightarrow> int \<Rightarrow> nat \<Rightarrow> database \<Rightarrow> (lease list \<times> database) outcome" where
  "renew_statement E cid now lease_deadline limit db =
     (let picked = (\<lambda>d. dr_key d \<in> set (map dr_key (ready_rows db cid now limit))) in
      and_then (update_deliveries picked (renew_row lease_deadline) db) (\<lambda>(_, db').
        Inr (eng_leases E (map lease_of_row (filter picked (t_deliveries db'))), db')))"

definition new_log_ids :: "database \<Rightarrow> utf8 option \<Rightarrow> int \<Rightarrow> int \<Rightarrow> nat \<Rightarrow> int list" where
  "new_log_ids db topic cursor limit_id limit =
     take limit (sort (map mr_id (filter (\<lambda>m. cursor < mr_id m \<and> mr_id m \<le> limit_id \<and>
       topic_matches topic (mr_topic m)) (t_messages db))))"

definition fresh_row :: "int \<Rightarrow> int \<Rightarrow> int \<Rightarrow> delivery_row" where
  "fresh_row cid lease_deadline mid =
     \<lparr>dr_consumer_id = cid, dr_message_id = mid, dr_visible_at = lease_deadline,
      dr_generation = 1, dr_delivery_count = 1\<rparr>"

definition fresh_lease :: "int \<Rightarrow> lease" where
  "fresh_lease mid = \<lparr>ls_message_id = mid, ls_generation = 1, ls_delivery_count = 1\<rparr>"

definition scan_statement :: "engine \<Rightarrow> int \<Rightarrow> int \<Rightarrow> utf8 option \<Rightarrow> int \<Rightarrow> int \<Rightarrow> nat \<Rightarrow> database
    \<Rightarrow> (int list \<times> database) outcome" where
  "scan_statement E cid lease_deadline topic cursor limit_id limit db =
     (let ids = new_log_ids db topic cursor limit_id limit in
      and_then (insert_deliveries (map (fresh_row cid lease_deadline) ids) db) (\<lambda>db'.
        Inr (eng_ids E ids, db')))"

definition set_cursor :: "int \<Rightarrow> int \<Rightarrow> database \<Rightarrow> (nat \<times> database) outcome" where
  "set_cursor cid cursor db =
     update_consumers (\<lambda>c. cr_id c = cid) (\<lambda>c. c\<lparr>cr_scan_cursor := cursor\<rparr>) db"

text \<open>The branch \<open>remaining > 0 && scan_cursor < scan_limit\<close>: take from the log, move the cursor.\<close>

definition scan_log :: "engine \<Rightarrow> int \<Rightarrow> int \<Rightarrow> utf8 option \<Rightarrow> int \<Rightarrow> int \<Rightarrow> nat \<Rightarrow> lease list \<Rightarrow> database
    \<Rightarrow> (lease list \<times> database) outcome" where
  "scan_log E cid lease_deadline topic cursor limit_id remaining leases db =
     (if 0 < remaining \<and> cursor < limit_id then
        and_then (ok_or (i64_try_from (int remaining)) (InvalidPoll ''max_messages is too large'')) (\<lambda>limit.
        and_then (scan_statement E cid lease_deadline topic cursor limit_id (nat limit) db) (\<lambda>(ids, db1).
          let new_ids = sort ids;
              cursor' = (if length new_ids < remaining then limit_id
                         else if new_ids \<noteq> [] then last new_ids else cursor)
          in and_then (set_cursor cid cursor' db1) (\<lambda>(_, db2).
               Inr (leases @ map fresh_lease new_ids, db2))))
      else Inr (leases, db))"

definition fetch_messages :: "database \<Rightarrow> lease list \<Rightarrow> message list" where
  "fetch_messages db leases =
     (if leases = [] then []
      else sort_key msg_id (concat (map (\<lambda>ls. map message_of_row
             (sort_key mr_id (filter (\<lambda>m. mr_id m \<in> set (map ls_message_id ls)) (t_messages db))))
           (chunks MAX_SQL_VARIABLES leases))))"

definition claim_txn :: "engine \<Rightarrow> consumer \<Rightarrow> nat \<Rightarrow> int \<Rightarrow> int \<Rightarrow> database
    \<Rightarrow> ((lease list \<times> message list \<times> bool) \<times> database) outcome" where
  "claim_txn E self max_messages now lease_deadline db =
     and_then (update_consumers (\<lambda>c. cr_id c = co_id self) (\<lambda>c. c) db) (\<lambda>(_, db0).
     and_then (ok_or (find_consumer (co_id self) db0) (deleted_error self)) (\<lambda>c.
     and_then (ok_or (i64_try_from (int max_messages)) (InvalidPoll ''max_messages is too large'')) (\<lambda>limit.
     and_then (renew_statement E (co_id self) now lease_deadline (nat limit) db0) (\<lambda>(renewed, db1).
     and_then (scan_log E (co_id self) lease_deadline (cr_topic_filter c) (cr_scan_cursor c)
         (scan_limit db0 c) (max_messages - length renewed) renewed db1) (\<lambda>(leases, db2).
       let leases = sort_key ls_message_id leases
       in Inr ((leases, fetch_messages db2 leases, cr_draining_at c \<noteq> None), db2))))))"

definition delivery_of :: "consumer \<Rightarrow> lease \<times> message \<Rightarrow> delivery outcome" where
  "delivery_of self = (\<lambda>(lease, message).
     and_then (count_from_row (ls_delivery_count lease)) (\<lambda>delivery_count.
       Inr \<lparr>dv_message = message, dv_delivery_count = delivery_count,
            dv_receipt = \<lparr>rc_consumer_id = co_id self, rc_message_id = ls_message_id lease,
                          rc_generation = ls_generation lease\<rparr>\<rparr>))"

text \<open>What \<open>claim\<close> does after its commit, on the database as others have left it.\<close>

definition claim_finish :: "consumer \<Rightarrow> int \<Rightarrow> lease list \<times> message list \<times> bool \<Rightarrow> database
    \<Rightarrow> claim_result outcome" where
  "claim_finish self now = (\<lambda>(leases, messages, draining) db.
     (if length messages \<noteq> length leases \<or>
         (\<exists>(lease, message) \<in> set (zip leases messages). ls_message_id lease \<noteq> message_id_get (msg_id message))
      then Inl (StorageInvariant ''a claimed delivery has no matching message'')
      else and_then (map_result (delivery_of self) (zip leases messages)) (\<lambda>deliveries.
        if deliveries = [] then
          and_then (ok_or (claim_state_query (co_id self) db) (deleted_error self)) (\<lambda>state.
            Inr \<lparr>cl_deliveries = [],
                 cl_next_visible_at = (if st_scan_cursor state < st_scan_limit state then Some now
                                       else st_earliest_visible_at state),
                 cl_draining = st_draining state\<rparr>)
        else Inr \<lparr>cl_deliveries = deliveries, cl_next_visible_at = None, cl_draining = draining\<rparr>)))"

definition claim :: "engine \<Rightarrow> (database \<Rightarrow> database) \<Rightarrow> (database \<Rightarrow> database) \<Rightarrow> clock \<Rightarrow> consumer
    \<Rightarrow> nat \<Rightarrow> int \<Rightarrow> claim_result handler" where
  "claim E others1 others2 clk self max_messages lease_ms fan =
     (case and_then (now_ms clk) (\<lambda>now.
        and_then (ok_or (claim_state_query (co_id self) (lf_pool fan)) (deleted_error self)) (\<lambda>state.
          Inr (now, state))) of
        Inl e \<Rightarrow> (Inl e, fan)
      | Inr (now, state) \<Rightarrow>
          let retry_ready = (case st_earliest_visible_at state of None \<Rightarrow> False | Some v \<Rightarrow> v \<le> now) in
          if \<not> retry_ready \<and> st_scan_limit state \<le> st_scan_cursor state then
            (Inr \<lparr>cl_deliveries = [], cl_next_visible_at = st_earliest_visible_at state,
                  cl_draining = st_draining state\<rparr>, fan)
          else case ok_or (checked_add now lease_ms) DurationOutOfRange of
            Inl e \<Rightarrow> (Inl e, fan)
          | Inr lease_deadline \<Rightarrow>
              (case transaction (claim_txn E self max_messages now lease_deadline) (others1 (lf_pool fan)) of
                 (Inl e, db) \<Rightarrow> (Inl e, fan\<lparr>lf_pool := db\<rparr>)
               | (Inr claimed, db) \<Rightarrow>
                   (claim_finish self now claimed (others2 db), fan\<lparr>lf_pool := others2 db\<rparr>)))"

subsection \<open>Renewing the deliveries that are ready\<close>

lemma consumer_checks_inv: "consumers_inv db \<Longrightarrow> c \<in> set (t_consumers db) \<Longrightarrow> consumer_checks c"
  by (auto simp: consumers_inv_def consumer_row_inv_def consumer_checks_def split: option.splits)

lemma lock_statement:
  "consumers_inv db \<Longrightarrow> update_consumers p (\<lambda>c. c) db = Inr (length (filter p (t_consumers db)), db)"
  using consumer_checks_inv by (auto simp: update_consumers_def)

lemma ready_rows_props:
  assumes "deliveries_inv db"
  shows "set (ready_rows db cid now n) \<subseteq> {d \<in> set (t_deliveries db). dr_consumer_id d = cid \<and> dr_visible_at d \<le> now}"
    and "distinct (map dr_key (ready_rows db cid now n))"
    and "length (ready_rows db cid now n)
      = min n (length (filter (\<lambda>d. dr_visible_at d \<le> now) (deliveries_of db cid)))"
proof -
  show "set (ready_rows db cid now n) \<subseteq> {d \<in> set (t_deliveries db). dr_consumer_id d = cid \<and> dr_visible_at d \<le> now}"
    unfolding ready_rows_def using set_take_subset by (fastforce simp: deliveries_of_def)
  have "distinct (map dr_key (filter p (t_deliveries db)))" for p
    using assms by (simp add: deliveries_inv_def distinct_map_filter)
  then have "distinct (map dr_key (filter (\<lambda>d. dr_visible_at d \<le> now) (deliveries_of db cid)))"
    unfolding deliveries_of_def filter_filter .
  then show "distinct (map dr_key (ready_rows db cid now n))"
    unfolding ready_rows_def take_map [symmetric]
    by (intro distinct_take) (simp only: distinct_map_sort_key)
qed (simp add: ready_rows_def min.commute)

definition picked :: "database \<Rightarrow> int \<Rightarrow> int \<Rightarrow> nat \<Rightarrow> delivery_row \<Rightarrow> bool" where
  "picked db cid now n d \<longleftrightarrow> dr_key d \<in> dr_key ` set (ready_rows db cid now n)"

lemma picked_rows:
  assumes "deliveries_inv db"
  shows "mset (filter (picked db cid now n) (t_deliveries db)) = mset (ready_rows db cid now n)"
proof -
  have inj: "inj_on dr_key (set (t_deliveries db))" and dist: "distinct (t_deliveries db)"
    using assms by (simp_all add: deliveries_inv_def distinct_map)
  have "distinct (ready_rows db cid now n)"
    using ready_rows_props(2) [OF assms] by (simp add: distinct_map)
  moreover have "set (filter (picked db cid now n) (t_deliveries db)) = set (ready_rows db cid now n)"
    using ready_rows_props(1) [OF assms, of cid now n] inj
    by (auto simp: picked_def inj_on_def)
  ultimately show ?thesis
    using dist by (metis set_eq_iff_mset_eq_distinct distinct_filter)
qed

definition renewed_row :: "int \<Rightarrow> delivery_row \<Rightarrow> delivery_row" where
  "renewed_row deadline d =
     d\<lparr>dr_visible_at := deadline, dr_generation := dr_generation d + 1,
       dr_delivery_count := dr_delivery_count d + 1\<rparr>"

definition renewed_db :: "int \<Rightarrow> int \<Rightarrow> int \<Rightarrow> nat \<Rightarrow> database \<Rightarrow> database" where
  "renewed_db cid now deadline n db = db\<lparr>t_deliveries :=
     map (\<lambda>d. if picked db cid now n d then renewed_row deadline d else d) (t_deliveries db)\<rparr>"

text \<open>The counters of the rows to renew have room for one more attempt.\<close>

definition attempt_room :: "database \<Rightarrow> int \<Rightarrow> int \<Rightarrow> nat \<Rightarrow> bool" where
  "attempt_room db cid now n \<longleftrightarrow>
     (\<forall>d \<in> set (ready_rows db cid now n). dr_generation d \<noteq> i64_max \<and> dr_delivery_count d \<noteq> i64_max)"

lemma renewed_key [simp]: "dr_key (renewed_row v d) = dr_key d"
  by (simp add: renewed_row_def dr_key_def)

lemma picked_renewed [simp]: "picked db cid now n (renewed_row v d) = picked db cid now n d"
  by (simp add: picked_def)

lemma attempt_room_rows:
  assumes "deliveries_inv db"
  shows "attempt_room db cid now n \<longleftrightarrow>
    (\<forall>d \<in> set (t_deliveries db). picked db cid now n d \<longrightarrow> dr_generation d \<noteq> i64_max \<and> dr_delivery_count d \<noteq> i64_max)"
proof -
  have "set (ready_rows db cid now n) = {d \<in> set (t_deliveries db). picked db cid now n d}"
    using mset_eq_setD [OF picked_rows [OF assms, of cid now n]] by simp
  then show ?thesis by (auto simp: attempt_room_def)
qed

lemma renew_statement_eq:
  assumes E: "engine_ok E" and inv: "deliveries_inv db"
  shows "if attempt_room db cid now n
    then \<exists>ls. renew_statement E cid now v n db = Inr (ls, renewed_db cid now v n db) \<and>
      mset ls = mset (map (\<lambda>d. lease_of_row (renewed_row v d)) (ready_rows db cid now n))
    else renew_statement E cid now v n db = Inl (Sqlx DatatypeViolation)"
proof -
  let ?p = "picked db cid now n" and ?D = "t_deliveries db"
  let ?bad = "\<lambda>d. dr_generation d = i64_max \<or> dr_delivery_count d = i64_max"
  have p: "(\<lambda>d. dr_key d \<in> set (map dr_key (ready_rows db cid now n))) = ?p"
    by (simp add: picked_def fun_eq_iff)
  have "renew_row v d = (if ?bad d then Inl (Sqlx DatatypeViolation) else Inr (renewed_row v d))" for d
    by (simp add: renew_row_def sql_incr_def renewed_row_def)
  from map_result_if [where f = "renew_row v", OF this]
  have upd: "update_deliveries ?p (renew_row v) db =
      (if attempt_room db cid now n then Inr (length (filter ?p ?D), renewed_db cid now v n db)
       else Inl (Sqlx DatatypeViolation))"
    by (auto simp: update_deliveries_def attempt_room_rows [OF inv] renewed_db_def)
  have "filter ?p (map (\<lambda>d. if ?p d then renewed_row v d else d) ds) = map (renewed_row v) (filter ?p ds)" for ds
    by (induction ds) simp_all
  then have "filter ?p (t_deliveries (renewed_db cid now v n db)) = map (renewed_row v) (filter ?p ?D)"
    by (simp add: renewed_db_def)
  then have "mset (map lease_of_row (filter ?p (t_deliveries (renewed_db cid now v n db))))
      = image_mset (\<lambda>d. lease_of_row (renewed_row v d)) (mset (filter ?p ?D))"
    by (simp add: image_mset.compositionality comp_def)
  then show ?thesis
    using E unfolding renew_statement_def Let_def p upd picked_rows [OF inv]
    by (simp add: engine_ok_def)
qed

lemma renewed_db_simps [simp]:
  "t_messages (renewed_db cid now v n db) = t_messages db"
  "t_idempotency (renewed_db cid now v n db) = t_idempotency db"
  "t_consumers (renewed_db cid now v n db) = t_consumers db"
  "t_archives (renewed_db cid now v n db) = t_archives db"
  by (simp_all add: renewed_db_def)

lemma renewed_db_inv:
  assumes inv: "db_inv db" and room: "attempt_room db cid now n"
  shows "db_inv (renewed_db cid now v n db)"
  unfolding renewed_db_def
proof (rule db_inv_map_deliveries [OF inv])
  fix d assume d: "d \<in> set (t_deliveries db)" "delivery_row_inv db d"
  then show "delivery_row_inv db (if picked db cid now n d then renewed_row v d else d)"
    using room unfolding attempt_room_rows [OF db_invD(3) [OF inv]]
    by (auto simp: delivery_row_inv_def renewed_row_def)
qed simp

subsection \<open>Taking from the log\<close>

lemma sorted_le_last: "sorted_wrt (<) (xs :: int list) \<Longrightarrow> i \<in> set xs \<Longrightarrow> i \<le> last xs"
  by (induction xs rule: rev_induct) (auto simp: sorted_wrt_append)

lemma high_water_cong: "t_messages db' = t_messages db \<Longrightarrow> high_water db' = high_water db"
  by (simp add: high_water_def)

lemma scan_limit_cong:
  "t_messages db' = t_messages db \<Longrightarrow> cr_drain_cursor c' = cr_drain_cursor c \<Longrightarrow>
   scan_limit db' c' = scan_limit db c"
  by (cases "cr_drain_cursor c") (simp_all add: scan_limit_def high_water_def)

lemma unscanned_sorted: "messages_inv db \<Longrightarrow> sorted_wrt (<) (map mr_id (unscanned db c))"
  by (simp add: messages_inv_def unscanned_def sorted_wrt_map sorted_wrt_filter)

definition fresh_ids :: "database \<Rightarrow> consumer_row \<Rightarrow> nat \<Rightarrow> int list" where
  "fresh_ids db c n = take n (map mr_id (unscanned db c))"

definition next_cursor :: "database \<Rightarrow> consumer_row \<Rightarrow> nat \<Rightarrow> int" where
  "next_cursor db c n =
     (if n = 0 \<or> scan_limit db c \<le> cr_scan_cursor c then cr_scan_cursor c
      else if length (unscanned db c) < n then scan_limit db c else last (fresh_ids db c n))"

definition moved_db :: "consumer_row \<Rightarrow> int \<Rightarrow> database \<Rightarrow> database" where
  "moved_db c cursor db = db\<lparr>t_consumers :=
     map (\<lambda>x. if cr_id x = cr_id c then x\<lparr>cr_scan_cursor := cursor\<rparr> else x) (t_consumers db)\<rparr>"

definition scanned_db :: "int \<Rightarrow> consumer_row \<Rightarrow> nat \<Rightarrow> database \<Rightarrow> database" where
  "scanned_db v c n db = (moved_db c (next_cursor db c n) db)\<lparr>t_deliveries :=
     t_deliveries db @ map (fresh_row (cr_id c) v) (fresh_ids db c n)\<rparr>"

lemma new_log_ids_eq:
  assumes "messages_inv db"
  shows "new_log_ids db (cr_topic_filter c) (cr_scan_cursor c) (scan_limit db c) n = fresh_ids db c n"
proof -
  have "sort (map mr_id (unscanned db c)) = map mr_id (unscanned db c)"
    using unscanned_sorted [OF assms, of c] by (intro sort_key_id_if_sorted) (simp add: strict_sorted_iff)
  then show ?thesis by (simp add: new_log_ids_def fresh_ids_def unscanned_def)
qed

lemma unscanned_bounds:
  "m \<in> set (unscanned db c) \<Longrightarrow> cr_scan_cursor c < mr_id m \<and> mr_id m \<le> scan_limit db c \<and>
     m \<in> set (t_messages db) \<and> topic_matches (cr_topic_filter c) (mr_topic m)"
  by (simp add: unscanned_def)

lemma fresh_ids_in:
  "i \<in> set (fresh_ids db c n) \<Longrightarrow> \<exists>m \<in> set (unscanned db c). mr_id m = i"
  unfolding fresh_ids_def using set_take_subset by fastforce

lemma fresh_sorted: "messages_inv db \<Longrightarrow> sorted_wrt (<) (fresh_ids db c n)"
  unfolding fresh_ids_def by (intro sorted_wrt_take unscanned_sorted)

lemma scan_limit_bounds:
  assumes "db_inv db" and "c \<in> set (t_consumers db)"
  shows "scan_limit db c \<le> seq_messages db"
    and "cr_drain_cursor c = Some d \<Longrightarrow> scan_limit db c = d \<and> cr_scan_cursor c \<le> d"
  using db_invD(2) [OF assms(1)] assms(2) high_water_le [OF db_invD(1) [OF assms(1)]]
  by (auto simp: scan_limit_def consumers_inv_def consumer_row_inv_def split: option.splits)

text \<open>When the log holds at least \<open>n\<close> messages for the consumer, the cursor stops at the last taken.\<close>

lemma last_fresh:
  assumes "0 < n" and "n \<le> length (unscanned db c)"
  shows "last (fresh_ids db c n) = mr_id (unscanned db c ! (n - 1))" and "fresh_ids db c n \<noteq> []"
    and "last (fresh_ids db c n) \<in> set (fresh_ids db c n)"
proof -
  show ne: "fresh_ids db c n \<noteq> []" using assms by (auto simp: fresh_ids_def)
  then show "last (fresh_ids db c n) \<in> set (fresh_ids db c n)" by simp
  show "last (fresh_ids db c n) = mr_id (unscanned db c ! (n - 1))"
    using assms ne by (simp add: fresh_ids_def last_conv_nth)
qed

lemma next_cursor_bounds:
  "cr_scan_cursor c \<le> next_cursor db c n \<and>
   (next_cursor db c n = cr_scan_cursor c \<or> next_cursor db c n \<le> scan_limit db c)"
proof -
  have "cr_scan_cursor c < last (fresh_ids db c n) \<and> last (fresh_ids db c n) \<le> scan_limit db c"
    if "0 < n" "n \<le> length (unscanned db c)"
    using last_fresh(3) [OF that] fresh_ids_in unscanned_bounds by metis
  then show ?thesis by (auto simp: next_cursor_def not_less)
qed

lemma fresh_le_next_cursor:
  assumes inv: "messages_inv db" and i: "i \<in> set (fresh_ids db c n)"
  shows "i \<le> next_cursor db c n"
proof -
  obtain m where m: "m \<in> set (unscanned db c)" "mr_id m = i" using fresh_ids_in [OF i] by blast
  have n: "0 < n" using i by (cases n) (simp_all add: fresh_ids_def)
  have lim: "\<not> scan_limit db c \<le> cr_scan_cursor c" using unscanned_bounds [OF m(1)] by simp
  show ?thesis
  proof (cases "length (unscanned db c) < n")
    case True
    then show ?thesis using n lim unscanned_bounds [OF m(1)] m(2) by (simp add: next_cursor_def)
  next
    case False
    have "i \<le> last (fresh_ids db c n)"
      using fresh_sorted [OF inv] i by (rule sorted_le_last)
    then show ?thesis using n lim False by (simp add: next_cursor_def)
  qed
qed

text \<open>
  The cursor moves past exactly the messages that were taken: what is unscanned afterwards
  is what was unscanned before, less the first \<open>n\<close>.
\<close>

lemma unscanned_moved:
  assumes inv: "messages_inv db"
  shows "unscanned (moved_db c (next_cursor db c n) db) (c\<lparr>cr_scan_cursor := next_cursor db c n\<rparr>)
    = drop n (unscanned db c)"
proof -
  let ?U = "unscanned db c" and ?k = "next_cursor db c n"
  have lim: "scan_limit (moved_db c k db) (c\<lparr>cr_scan_cursor := k\<rparr>) = scan_limit db c" for k
    by (rule scan_limit_cong) (simp_all add: moved_db_def)
  have U: "unscanned (moved_db c ?k db) (c\<lparr>cr_scan_cursor := ?k\<rparr>) = filter (\<lambda>m. ?k < mr_id m) ?U"
    using next_cursor_bounds [of c db n]
    unfolding unscanned_def lim by (auto simp: moved_db_def intro!: filter_cong)
  consider (none) "n = 0 \<or> scan_limit db c \<le> cr_scan_cursor c"
    | (few) "0 < n" "\<not> scan_limit db c \<le> cr_scan_cursor c" "length ?U < n"
    | (many) "0 < n" "\<not> scan_limit db c \<le> cr_scan_cursor c" "n \<le> length ?U" by linarith
  then show ?thesis
  proof cases
    case none
    have "?U = []" if "scan_limit db c \<le> cr_scan_cursor c"
      using that by (auto simp: unscanned_def filter_empty_conv)
    moreover have "filter (\<lambda>m. cr_scan_cursor c < mr_id m) ?U = ?U"
      using unscanned_bounds by (fastforce simp: filter_id_conv)
    ultimately show ?thesis unfolding U using none by (auto simp: next_cursor_def)
  next
    case few
    then have "?k = scan_limit db c" by (simp add: next_cursor_def)
    then have "filter (\<lambda>m. ?k < mr_id m) ?U = []"
      using unscanned_bounds [of _ db c] by (fastforce simp: filter_empty_conv)
    with few show ?thesis unfolding U by simp
  next
    case many
    then have "?k = mr_id (?U ! (n - 1))" using last_fresh(1) by (simp add: next_cursor_def)
    then show ?thesis
      unfolding U using filter_after_take [OF unscanned_sorted [OF inv, of c] many(1,3)] by simp
  qed
qed

lemma moved_db_inv:
  assumes inv: "db_inv db" and c: "c \<in> set (t_consumers db)"
  shows "db_inv (moved_db c (next_cursor db c n) db)"
  unfolding moved_db_def
proof (rule db_inv_map_consumers [OF inv])
  note cons = db_invD(2) [OF inv]
  fix x assume x: "x \<in> set (t_consumers db)"
  have same: "x = c" if "cr_id x = cr_id c"
    using that x c cons distinct_map_inj [of cr_id "t_consumers db" x c] by (simp add: consumers_inv_def)
  show "cr_id (if cr_id x = cr_id c then x\<lparr>cr_scan_cursor := next_cursor db c n\<rparr> else x) = cr_id x \<and>
      cr_name (if cr_id x = cr_id c then x\<lparr>cr_scan_cursor := next_cursor db c n\<rparr> else x) = cr_name x \<and>
      cr_topic_filter (if cr_id x = cr_id c then x\<lparr>cr_scan_cursor := next_cursor db c n\<rparr> else x) = cr_topic_filter x \<and>
      cr_scan_cursor x \<le> cr_scan_cursor (if cr_id x = cr_id c then x\<lparr>cr_scan_cursor := next_cursor db c n\<rparr> else x)"
    using same next_cursor_bounds [of c db n] by auto
  assume row: "consumer_row_inv db x"
  show "consumer_row_inv db (if cr_id x = cr_id c then x\<lparr>cr_scan_cursor := next_cursor db c n\<rparr> else x)"
  proof (cases "cr_id x = cr_id c")
    case True
    with same have "x = c" by simp
    with row show ?thesis
      using next_cursor_bounds [of c db n] scan_limit_bounds [OF inv c] by (auto simp: consumer_row_inv_def)
  qed (use row in simp)
qed

lemma fresh_passed:
  assumes inv: "db_inv db" and c: "c \<in> set (t_consumers db)" and i: "i \<in> set (fresh_ids db c n)"
  shows "passed (moved_db c (next_cursor db c n) db) (cr_id c) i"
proof -
  obtain m where m: "m \<in> set (unscanned db c)" "mr_id m = i" using fresh_ids_in [OF i] by blast
  let ?c = "c\<lparr>cr_scan_cursor := next_cursor db c n\<rparr>"
  have "?c \<in> set (t_consumers (moved_db c (next_cursor db c n) db))"
    using c by (force simp: moved_db_def)
  then show ?thesis
    unfolding passed_def
    by (rule bexI [rotated])
      (use m unscanned_bounds [OF m(1)] fresh_le_next_cursor [OF db_invD(1) [OF inv] i] in
        \<open>auto simp: moved_db_def\<close>)
qed

text \<open>A message beyond the cursor is neither delivered nor archived yet, so its insert succeeds.\<close>

lemma fresh_keys_new:
  assumes inv: "db_inv db" and c: "c \<in> set (t_consumers db)" and i: "i \<in> set (fresh_ids db c n)"
  shows "(cr_id c, i) \<notin> dr_key ` set (t_deliveries db)" and "(cr_id c, i) \<notin> ar_key ` set (t_archives db)"
proof -
  have "\<not> passed db (cr_id c) i"
  proof
    assume "passed db (cr_id c) i"
    then obtain x where x: "x \<in> set (t_consumers db)" "cr_id x = cr_id c" "i \<le> cr_scan_cursor x"
      by (auto simp: passed_def)
    have "x = c"
      using x(1,2) c db_invD(2) [OF inv] distinct_map_inj [of cr_id "t_consumers db" x c]
      by (simp add: consumers_inv_def)
    moreover have "cr_scan_cursor c < i" using fresh_ids_in [OF i] unscanned_bounds by blast
    ultimately show False using x(3) by simp
  qed
  then show "(cr_id c, i) \<notin> dr_key ` set (t_deliveries db)" "(cr_id c, i) \<notin> ar_key ` set (t_archives db)"
    using db_invD(3,4) [OF inv] by (auto simp: deliveries_inv_def archives_inv_def dr_key_def ar_key_def)
qed

lemma fresh_row_simps [simp]:
  "dr_key (fresh_row cid v i) = (cid, i)" "dr_consumer_id (fresh_row cid v i) = cid"
  "dr_message_id (fresh_row cid v i) = i" "dr_generation (fresh_row cid v i) = 1"
  "dr_delivery_count (fresh_row cid v i) = 1" "dr_visible_at (fresh_row cid v i) = v"
  by (simp_all add: fresh_row_def dr_key_def)

lemma fresh_distinct_keys:
  assumes "messages_inv db"
  shows "distinct (map dr_key (map (fresh_row cid v) (fresh_ids db c n)))"
proof -
  have "distinct (fresh_ids db c n)" using fresh_sorted [OF assms, of c n] by (simp add: strict_sorted_iff)
  then show ?thesis by (simp add: comp_def distinct_map inj_on_def)
qed

lemma fresh_keys_disjoint:
  assumes inv: "db_inv db" and c: "c \<in> set (t_consumers db)"
  shows "dr_key ` set (map (fresh_row (cr_id c) v) (fresh_ids db c n)) \<inter> dr_key ` set (t_deliveries db) = {}"
    and "dr_key ` set (map (fresh_row (cr_id c) v) (fresh_ids db c n)) \<inter> ar_key ` set (t_archives db) = {}"
proof -
  have keys: "dr_key ` set (map (fresh_row (cr_id c) v) (fresh_ids db c n)) = Pair (cr_id c) ` set (fresh_ids db c n)"
    by (simp add: image_image)
  show "dr_key ` set (map (fresh_row (cr_id c) v) (fresh_ids db c n)) \<inter> dr_key ` set (t_deliveries db) = {}"
    "dr_key ` set (map (fresh_row (cr_id c) v) (fresh_ids db c n)) \<inter> ar_key ` set (t_archives db) = {}"
    unfolding keys using fresh_keys_new [OF inv c] by blast+
qed

lemma scanned_db_inv:
  assumes inv: "db_inv db" and c: "c \<in> set (t_consumers db)"
  shows "db_inv (scanned_db v c n db)"
proof -
  let ?db = "moved_db c (next_cursor db c n) db" and ?ds = "map (fresh_row (cr_id c) v) (fresh_ids db c n)"
  have same: "t_deliveries ?db = t_deliveries db" "t_archives ?db = t_archives db"
    by (simp_all add: moved_db_def)
  have "db_inv (?db\<lparr>t_deliveries := t_deliveries ?db @ ?ds\<rparr>)"
  proof (rule db_inv_append_deliveries [OF moved_db_inv [OF inv c]])
    show "distinct (map dr_key ?ds)" by (rule fresh_distinct_keys [OF db_invD(1) [OF inv]])
    show "dr_key ` set ?ds \<inter> dr_key ` set (t_deliveries ?db) = {}"
      "dr_key ` set ?ds \<inter> ar_key ` set (t_archives ?db) = {}"
      unfolding same by (rule fresh_keys_disjoint [OF inv c])+
    show "delivery_row_inv ?db d" if "d \<in> set ?ds" for d
      using that fresh_passed [OF inv c] by (auto simp: delivery_row_inv_def i64_max_def)
  qed
  then show ?thesis by (simp add: scanned_db_def same)
qed

lemma set_cursor_ok:
  assumes inv: "db_inv db" and c: "c \<in> set (t_consumers db)"
  shows "\<exists>k. set_cursor (cr_id c) (next_cursor db c n)
      (db\<lparr>t_deliveries := t_deliveries db @ map (fresh_row (cr_id c) v) (fresh_ids db c n)\<rparr>)
    = Inr (k, scanned_db v c n db)"
proof -
  have "consumer_checks (x\<lparr>cr_scan_cursor := next_cursor db c n\<rparr>)"
    if x: "x \<in> set (t_consumers db)" "cr_id x = cr_id c" for x
  proof -
    have "x = c"
      using x c db_invD(2) [OF inv] distinct_map_inj [of cr_id "t_consumers db" x c]
      by (simp add: consumers_inv_def)
    then show ?thesis
      using consumer_checks_inv [OF db_invD(2) [OF inv] c] next_cursor_bounds [of c db n]
        scan_limit_bounds(2) [OF inv c]
      by (auto simp: consumer_checks_def split: option.splits)
  qed
  then show ?thesis
    by (auto simp: set_cursor_def update_consumers_def scanned_db_def moved_db_def)
qed

lemma length_fresh_ids: "length (fresh_ids db c n) = min n (length (unscanned db c))"
  by (simp add: fresh_ids_def min.commute)

text \<open>When nothing is scanned, the closed form is the state itself.\<close>

lemma scanned_db_idle:
  assumes inv: "db_inv db" and c: "c \<in> set (t_consumers db)"
    and idle: "n = 0 \<or> scan_limit db c \<le> cr_scan_cursor c"
  shows "fresh_ids db c n = []" and "scanned_db v c n db = db"
proof -
  have "unscanned db c = []" if "scan_limit db c \<le> cr_scan_cursor c"
    using that by (auto simp: unscanned_def filter_empty_conv)
  then show none: "fresh_ids db c n = []" using idle by (auto simp: fresh_ids_def)
  have "x\<lparr>cr_scan_cursor := cr_scan_cursor c\<rparr> = x" if "x \<in> set (t_consumers db)" "cr_id x = cr_id c" for x
    using that c db_invD(2) [OF inv] distinct_map_inj [of cr_id "t_consumers db" x c]
    by (auto simp: consumers_inv_def)
  then have "map (\<lambda>x. if cr_id x = cr_id c then x\<lparr>cr_scan_cursor := cr_scan_cursor c\<rparr> else x) (t_consumers db)
      = t_consumers db"
    by (intro map_idI) simp
  then show "scanned_db v c n db = db"
    using idle by (simp add: scanned_db_def moved_db_def none next_cursor_def)
qed

lemma scan_log_eq:
  assumes E: "engine_ok E" and inv: "db_inv db" and c: "c \<in> set (t_consumers db)"
    and n: "int n \<le> i64_max"
  shows "scan_log E (cr_id c) v (cr_topic_filter c) (cr_scan_cursor c) (scan_limit db c) n leases db
    = Inr (leases @ map fresh_lease (fresh_ids db c n), scanned_db v c n db)"
proof (cases "n = 0 \<or> scan_limit db c \<le> cr_scan_cursor c")
  case True
  then show ?thesis using scanned_db_idle [OF inv c True] by (auto simp: scan_log_def)
next
  case False
  let ?ids = "fresh_ids db c n"
  have lim: "i64_try_from (int n) = Some (int n)"
    using n by (simp add: i64_try_from_def in_i64_def i64_min_def)
  have parents: "delivery_checks (fresh_row (cr_id c) v i) \<and> cr_id c \<in> cr_id ` set (t_consumers db) \<and>
      i \<in> mr_id ` set (t_messages db)" if "i \<in> set ?ids" for i
    using c fresh_ids_in [OF that] unscanned_bounds by (auto simp: delivery_checks_def)
  have "insert_deliveries (map (fresh_row (cr_id c) v) ?ids) db
      = Inr (db\<lparr>t_deliveries := t_deliveries db @ map (fresh_row (cr_id c) v) ?ids\<rparr>)"
    by (rule insert_deliveries_ok [OF fresh_distinct_keys [OF db_invD(1) [OF inv]]])
      (rule fresh_keys_disjoint(1) [OF inv c], use parents in auto)
  then have scan: "scan_statement E (cr_id c) v (cr_topic_filter c) (cr_scan_cursor c) (scan_limit db c) n db
      = Inr (eng_ids E ?ids, db\<lparr>t_deliveries := t_deliveries db @ map (fresh_row (cr_id c) v) ?ids\<rparr>)"
    by (simp add: scan_statement_def new_log_ids_eq [OF db_invD(1) [OF inv]] Let_def)
  have sort: "sort (eng_ids E ?ids) = ?ids"
    using E fresh_sorted [OF db_invD(1) [OF inv], of c n]
    by (intro sort_unique_mset) (simp_all add: engine_ok_def strict_sorted_iff)
  have cursor: "(if length ?ids < n then scan_limit db c
      else if ?ids \<noteq> [] then last ?ids else cr_scan_cursor c) = next_cursor db c n"
    using False last_fresh(2) [of n db c] by (auto simp: length_fresh_ids next_cursor_def)
  have go: "0 < n \<and> cr_scan_cursor c < scan_limit db c" using False by simp
  obtain k where "set_cursor (cr_id c) (next_cursor db c n)
      (db\<lparr>t_deliveries := t_deliveries db @ map (fresh_row (cr_id c) v) ?ids\<rparr>) = Inr (k, scanned_db v c n db)"
    using set_cursor_ok [OF inv c] by blast
  then show ?thesis
    by (simp only: scan_log_def if_P [OF go] lim ok_or.simps and_then.simps nat_int scan prod.case
        Let_def sort cursor)
qed

subsection \<open>The messages of the leases\<close>

lemma mset_filter_groups:
  "distinct (concat idss) \<Longrightarrow>
     mset (concat (map (\<lambda>ids. filter (\<lambda>m. f m \<in> set ids) xs) idss))
       = mset (filter (\<lambda>m. f m \<in> set (concat idss)) xs)"
proof (induction idss)
  case (Cons ids idss)
  have "filter_mset (\<lambda>m. f m \<in> set ids \<or> f m \<in> set (concat idss)) M
      = filter_mset (\<lambda>m. f m \<in> set ids) M + filter_mset (\<lambda>m. f m \<in> set (concat idss)) M" for M
    using Cons.prems by (induction M) auto
  with Cons show ?case by simp
qed simp

lemma mset_sorted_groups:
  "mset (concat (map (\<lambda>x. map g (sort_key k (h x))) xs)) = image_mset g (mset (concat (map h xs)))"
  by (induction xs) simp_all

lemma filter_ids_sorted:
  assumes "sorted_wrt (<) (map f xs)" and "sorted_wrt (<) (ids :: int list)" and "set ids \<subseteq> f ` set xs"
  shows "map f (filter (\<lambda>x. f x \<in> set ids) xs) = ids"
proof (rule sorted_distinct_set_unique)
  have "sorted_wrt (<) (map f (filter (\<lambda>x. f x \<in> set ids) xs))"
    using assms(1) by (simp add: sorted_wrt_map sorted_wrt_filter)
  then show "sorted (map f (filter (\<lambda>x. f x \<in> set ids) xs))" "distinct (map f (filter (\<lambda>x. f x \<in> set ids) xs))"
    by (simp_all add: strict_sorted_iff)
  show "sorted ids" "distinct ids" using assms(2) by (simp_all add: strict_sorted_iff)
  show "set (map f (filter (\<lambda>x. f x \<in> set ids) xs)) = set ids" using assms(3) by auto
qed

definition messages_named :: "database \<Rightarrow> int list \<Rightarrow> message list" where
  "messages_named db ids = map message_of_row (filter (\<lambda>m. mr_id m \<in> set ids) (t_messages db))"

lemma msg_id_message_of_row [simp]: "msg_id (message_of_row m) = MessageId (mr_id m)"
  by (simp add: message_of_row_def)

text \<open>Whatever the number of chunks, the messages come once each, in the order of their ids.\<close>

lemma fetch_messages_eq:
  assumes inv: "messages_inv db" and ids: "distinct (map ls_message_id leases)"
  shows "fetch_messages db leases = messages_named db (map ls_message_id leases)"
proof (cases "leases = []")
  case True
  then show ?thesis by (simp add: fetch_messages_def messages_named_def)
next
  case False
  let ?rows = "filter (\<lambda>m. mr_id m \<in> set (map ls_message_id leases)) (t_messages db)"
  let ?xss = "chunks MAX_SQL_VARIABLES leases"
  let ?F = "\<lambda>ls. filter (\<lambda>m. mr_id m \<in> set (map ls_message_id ls)) (t_messages db)"
  have cc: "concat (map (map ls_message_id) ?xss) = map ls_message_id leases"
    by (simp add: MAX_SQL_VARIABLES_def flip: map_concat)
  have "mset (concat (map ?F ?xss)) = mset ?rows"
    using mset_filter_groups [of "map (map ls_message_id) ?xss" mr_id "t_messages db"] ids
    unfolding cc by (simp add: comp_def)
  then have ms: "mset (concat (map (\<lambda>ls. map message_of_row (sort_key mr_id (?F ls))) ?xss))
      = mset (map message_of_row ?rows)"
    unfolding mset_sorted_groups by simp
  have dist: "distinct (map mr_id (t_messages db))" "sorted (map mr_id (t_messages db))"
    using inv by (simp_all add: messages_inv_def strict_sorted_iff)
  have inj: "inj_on msg_id (set (map message_of_row ?rows))"
  proof (rule inj_onI)
    fix a b assume "a \<in> set (map message_of_row ?rows)" "b \<in> set (map message_of_row ?rows)" "msg_id a = msg_id b"
    then obtain x y where "x \<in> set (t_messages db)" "y \<in> set (t_messages db)" "mr_id x = mr_id y"
      "a = message_of_row x" "b = message_of_row y" by auto
    then show "a = b" using distinct_map_inj [OF dist(1)] by blast
  qed
  have "sorted (map mr_id ?rows)" using dist(2) by (simp add: sorted_filter)
  then have "sorted (map msg_id (map message_of_row ?rows))"
    by (simp add: sorted_wrt_map less_eq_message_id_def comp_def)
  with ms inj have "sort_key msg_id (concat (map (\<lambda>ls. map message_of_row (sort_key mr_id (?F ls))) ?xss))
      = map message_of_row ?rows"
    by (metis sort_key_inj_key_eq mset_eq_setD)
  with False show ?thesis by (simp add: fetch_messages_def messages_named_def)
qed

subsection \<open>The transaction as a whole\<close>

definition claim_fresh :: "database \<Rightarrow> consumer_row \<Rightarrow> int \<Rightarrow> nat \<Rightarrow> nat" where
  "claim_fresh db c now n = n - length (ready_rows db (cr_id c) now n)"

definition claimed_db :: "consumer_row \<Rightarrow> int \<Rightarrow> int \<Rightarrow> nat \<Rightarrow> database \<Rightarrow> database" where
  "claimed_db c now v n db = scanned_db v c (claim_fresh db c now n) (renewed_db (cr_id c) now v n db)"

definition claimed_leases :: "consumer_row \<Rightarrow> int \<Rightarrow> int \<Rightarrow> nat \<Rightarrow> database \<Rightarrow> lease list" where
  "claimed_leases c now v n db = sort_key ls_message_id
     (map (\<lambda>d. lease_of_row (renewed_row v d)) (ready_rows db (cr_id c) now n) @
      map fresh_lease (fresh_ids db c (claim_fresh db c now n)))"

lemma unscanned_cong:
  assumes same: "t_messages db' = t_messages db"
  shows "unscanned db' c = unscanned db c"
  unfolding unscanned_def same scan_limit_cong [OF same refl] by (rule refl)

lemma fresh_ids_cong:
  assumes same: "t_messages db' = t_messages db"
  shows "fresh_ids db' c n = fresh_ids db c n"
  unfolding fresh_ids_def unscanned_cong [OF same] by (rule refl)

lemma lease_simps [simp]:
  "ls_message_id (lease_of_row d) = dr_message_id d" "ls_message_id (fresh_lease i) = i"
  "dr_message_id (renewed_row v d) = dr_message_id d" "dr_consumer_id (renewed_row v d) = dr_consumer_id d"
  by (simp_all add: lease_of_row_def fresh_lease_def renewed_row_def)

lemma claimed_ids:
  "set (map ls_message_id (claimed_leases c now v n db)) =
     dr_message_id ` set (ready_rows db (cr_id c) now n) \<union> set (fresh_ids db c (claim_fresh db c now n))"
  by (force simp: claimed_leases_def)

lemma ready_ids_distinct:
  assumes "deliveries_inv db"
  shows "distinct (map dr_message_id (ready_rows db cid now n))"
proof -
  have "map dr_key (ready_rows db cid now n) = map (Pair cid) (map dr_message_id (ready_rows db cid now n))"
    using ready_rows_props(1) [OF assms, of cid now n] by (auto simp: dr_key_def)
  then show ?thesis using ready_rows_props(2) [OF assms, of cid now n] by (metis distinct_map)
qed

lemma claimed_distinct:
  assumes inv: "db_inv db" and c: "c \<in> set (t_consumers db)"
  shows "distinct (map ls_message_id
      (map (\<lambda>d. lease_of_row (renewed_row v d)) (ready_rows db (cr_id c) now n) @
       map fresh_lease (fresh_ids db c k)))"
proof -
  have "dr_message_id ` set (ready_rows db (cr_id c) now n) \<inter> set (fresh_ids db c k) = {}"
  proof -
    have "dr_message_id d \<notin> set (fresh_ids db c k)" if "d \<in> set (ready_rows db (cr_id c) now n)" for d
    proof
      assume "dr_message_id d \<in> set (fresh_ids db c k)"
      from fresh_keys_new(1) [OF inv c this]
      have "(cr_id c, dr_message_id d) \<notin> dr_key ` set (t_deliveries db)" .
      moreover have "d \<in> set (t_deliveries db)" "dr_key d = (cr_id c, dr_message_id d)"
        using that ready_rows_props(1) [OF db_invD(3) [OF inv], of "cr_id c" now n]
        by (auto simp: dr_key_def)
      ultimately show False by (metis image_eqI)
    qed
    then show ?thesis by blast
  qed
  moreover have "distinct (fresh_ids db c k)"
    using fresh_sorted [OF db_invD(1) [OF inv], of c k] by (simp add: strict_sorted_iff)
  ultimately show ?thesis
    using ready_ids_distinct [OF db_invD(3) [OF inv]] by (simp add: comp_def)
qed

lemma claimed_leases_sorted:
  assumes "db_inv db" and "c \<in> set (t_consumers db)"
  shows "sorted_wrt (<) (map ls_message_id (claimed_leases c now v n db))"
proof -
  have "distinct (map ls_message_id (claimed_leases c now v n db))"
    unfolding claimed_leases_def distinct_map_sort_key by (rule claimed_distinct [OF assms])
  then show ?thesis by (simp add: strict_sorted_iff claimed_leases_def)
qed

lemma claimed_db_simps [simp]:
  "t_messages (claimed_db c now v n db) = t_messages db"
  "t_idempotency (claimed_db c now v n db) = t_idempotency db"
  "t_archives (claimed_db c now v n db) = t_archives db"
  "t_deliveries (claimed_db c now v n db) =
     map (\<lambda>d. if picked db (cr_id c) now n d then renewed_row v d else d) (t_deliveries db) @
     map (fresh_row (cr_id c) v) (fresh_ids db c (claim_fresh db c now n))"
  "t_consumers (claimed_db c now v n db) = t_consumers (moved_db c (next_cursor db c (claim_fresh db c now n)) db)"
  using fresh_ids_cong [OF renewed_db_simps(1), of "cr_id c" now v n db]
    unscanned_cong [OF renewed_db_simps(1), of "cr_id c" now v n db]
    scan_limit_cong [OF renewed_db_simps(1) refl, of "cr_id c" now v n db]
  by (simp_all add: claimed_db_def scanned_db_def moved_db_def next_cursor_def)
    (simp_all add: renewed_db_def)

lemma claimed_db_inv:
  assumes "db_inv db" and "c \<in> set (t_consumers db)" and "attempt_room db (cr_id c) now n"
  shows "db_inv (claimed_db c now v n db)"
  unfolding claimed_db_def
  by (rule scanned_db_inv [OF renewed_db_inv [OF assms(1,3)]]) (use assms(2) in simp)

lemma claim_txn_eq:
  assumes E: "engine_ok E" and inv: "db_inv db" and c: "c \<in> set (t_consumers db)" "cr_id c = co_id self"
    and n: "int n \<le> i64_max" and room: "attempt_room db (co_id self) now n"
  shows "claim_txn E self n now v db =
    Inr ((claimed_leases c now v n db,
          messages_named db (map ls_message_id (claimed_leases c now v n db)),
          cr_draining_at c \<noteq> None), claimed_db c now v n db)"
proof -
  note parts = db_invD [OF inv]
  let ?R = "ready_rows db (co_id self) now n" and ?db1 = "renewed_db (co_id self) now v n db"
  let ?k = "n - length ?R"
  obtain ls where ren: "renew_statement E (co_id self) now v n db = Inr (ls, ?db1)"
    and ls: "mset ls = mset (map (\<lambda>d. lease_of_row (renewed_row v d)) ?R)"
    using renew_statement_eq [OF E parts(3), of "co_id self" now n v] room by auto
  have len: "length ls = length ?R" using mset_eq_length [OF ls] by simp
  have lim: "i64_try_from (int n) = Some (int n)"
    using n by (simp add: i64_try_from_def in_i64_def i64_min_def)
  have find: "find_consumer (co_id self) db = Some c"
    using find_consumer_Some [OF parts(2)] c by blast
  have scan: "scan_log E (co_id self) v (cr_topic_filter c) (cr_scan_cursor c) (scan_limit db c) ?k ls ?db1
      = Inr (ls @ map fresh_lease (fresh_ids db c ?k), scanned_db v c ?k ?db1)"
    using scan_log_eq [OF E renewed_db_inv [OF inv room, of v], where c = c and n = ?k and v = v and leases = ls] c n
    by (simp add: scan_limit_cong [OF renewed_db_simps(1) refl] fresh_ids_cong [OF renewed_db_simps(1)])
  have sort: "sort_key ls_message_id (ls @ map fresh_lease (fresh_ids db c ?k)) = claimed_leases c now v n db"
    unfolding claimed_leases_def claim_fresh_def c(2)
  proof (rule sort_key_mset)
    show "inj_on ls_message_id (set (map (\<lambda>d. lease_of_row (renewed_row v d)) ?R @
        map fresh_lease (fresh_ids db c ?k)))"
      using claimed_distinct [OF inv c(1), of v now n ?k] unfolding c(2) distinct_map by blast
  qed (simp add: ls)
  have "fetch_messages (claimed_db c now v n db) (claimed_leases c now v n db)
      = messages_named db (map ls_message_id (claimed_leases c now v n db))"
    using fetch_messages_eq [of "claimed_db c now v n db"] claimed_db_inv [OF inv c(1)] room c(2)
      claimed_leases_sorted [OF inv c(1), of now v n]
    by (simp add: db_invD(1) strict_sorted_iff messages_named_def)
  then show ?thesis
    by (simp add: claim_txn_def lock_statement [OF parts(2)] find lim ren len scan Let_def sort
        claimed_db_def claim_fresh_def c(2))
qed

text \<open>The ways the transaction ends: no consumer, a counter used up, or the closed form.\<close>

lemma claim_txn_cases:
  assumes E: "engine_ok E" and inv: "db_inv db" and n: "int n \<le> i64_max"
  obtains (deleted) "co_id self \<notin> cr_id ` set (t_consumers db)"
      "claim_txn E self n now v db = Inl (deleted_error self)"
    | (exhausted) c where "c \<in> set (t_consumers db)" "cr_id c = co_id self"
      "\<not> attempt_room db (co_id self) now n" "claim_txn E self n now v db = Inl (Sqlx DatatypeViolation)"
    | (leased) c where "c \<in> set (t_consumers db)" "cr_id c = co_id self" "attempt_room db (co_id self) now n"
      "claim_txn E self n now v db =
        Inr ((claimed_leases c now v n db,
              messages_named db (map ls_message_id (claimed_leases c now v n db)),
              cr_draining_at c \<noteq> None), claimed_db c now v n db)"
proof (cases "co_id self \<in> cr_id ` set (t_consumers db)")
  case False
  then show thesis
    by (intro deleted)
      (simp_all add: claim_txn_def lock_statement [OF db_invD(2) [OF inv]]
        find_consumer_None [THEN iffD2])
next
  case True
  then obtain c where c: "c \<in> set (t_consumers db)" "cr_id c = co_id self" by force
  have find: "find_consumer (co_id self) db = Some c"
    using find_consumer_Some [OF db_invD(2) [OF inv]] c by blast
  have lim: "i64_try_from (int n) = Some (int n)"
    using n by (simp add: i64_try_from_def in_i64_def i64_min_def)
  show thesis
  proof (cases "attempt_room db (co_id self) now n")
    case False
    then have "claim_txn E self n now v db = Inl (Sqlx DatatypeViolation)"
      using renew_statement_eq [OF E db_invD(3) [OF inv], of "co_id self" now n v]
      by (simp add: claim_txn_def lock_statement [OF db_invD(2) [OF inv]] find lim)
    then show thesis using c False by (rule_tac exhausted)
  next
    case True
    then show thesis using leased [OF c True claim_txn_eq [OF E inv c n True]] by blast
  qed
qed

lemma claim_committed:
  assumes E: "engine_ok E" and inv: "db_inv db" and n: "int n \<le> i64_max"
    and run: "fst (transaction (claim_txn E self n now v) db) = Inr (leases, messages, draining)"
  obtains c where "c \<in> set (t_consumers db)" "cr_id c = co_id self" "attempt_room db (co_id self) now n"
    "leases = claimed_leases c now v n db" "messages = messages_named db (map ls_message_id leases)"
    "draining = (cr_draining_at c \<noteq> None)"
    "snd (transaction (claim_txn E self n now v) db) = claimed_db c now v n db"
  using E inv n
  by (rule claim_txn_cases [where self = self and now = now and v = v])
    (use run that in \<open>auto simp: transaction_def\<close>)

lemma claim_txn_inv:
  assumes "engine_ok E" and "db_inv db" and "int n \<le> i64_max"
    and "claim_txn E self n now v db = Inr (x, db')"
  shows "db_inv db'"
  using assms(1-3)
proof (cases rule: claim_txn_cases [where self = self and now = now and v = v])
  case (leased c)
  then show ?thesis using assms(4) claimed_db_inv [OF assms(2), of c now n v] by simp
qed (use assms(4) in simp_all)

subsection \<open>The deliveries handed out\<close>

definition delivery_record :: "consumer \<Rightarrow> lease \<Rightarrow> message \<Rightarrow> delivery" where
  "delivery_record self lease message =
     \<lparr>dv_message = message, dv_delivery_count = nat (ls_delivery_count lease),
      dv_receipt = \<lparr>rc_consumer_id = co_id self, rc_message_id = ls_message_id lease,
                    rc_generation = ls_generation lease\<rparr>\<rparr>"

definition claimed_deliveries :: "consumer \<Rightarrow> consumer_row \<Rightarrow> int \<Rightarrow> int \<Rightarrow> nat \<Rightarrow> database \<Rightarrow> delivery list" where
  "claimed_deliveries self c now v n db =
     (let leases = claimed_leases c now v n db
      in map2 (delivery_record self) leases (messages_named db (map ls_message_id leases)))"

lemma claimed_ids_retained:
  assumes "db_inv db"
  shows "set (map ls_message_id (claimed_leases c now v n db)) \<subseteq> mr_id ` set (t_messages db)"
proof -
  have "dr_message_id d \<in> mr_id ` set (t_messages db)" if "d \<in> set (ready_rows db (cr_id c) now n)" for d
    using that ready_rows_props(1) [OF db_invD(3) [OF assms], of "cr_id c" now n] db_invD(3) [OF assms] passed_parents
    by (fastforce simp: deliveries_inv_def)
  moreover have "i \<in> mr_id ` set (t_messages db)" if "i \<in> set (fresh_ids db c k)" for i k
    using fresh_ids_in [OF that] unscanned_bounds by blast
  ultimately show ?thesis unfolding claimed_ids by blast
qed

lemma messages_named_ids:
  assumes "messages_inv db" and "sorted_wrt (<) ids" and "set ids \<subseteq> mr_id ` set (t_messages db)"
  shows "map (message_id_get \<circ> msg_id) (messages_named db ids) = ids"
  using filter_ids_sorted [OF _ assms(2,3)] assms(1)
  by (simp add: messages_named_def comp_def messages_inv_def)

lemma claimed_counts:
  assumes inv: "db_inv db" and l: "l \<in> set (claimed_leases c now v n db)"
  shows "0 < ls_delivery_count l" and "0 < ls_generation l"
proof -
  have "0 < ls_delivery_count l \<and> 0 < ls_generation l"
    using l ready_rows_props(1) [OF db_invD(3) [OF inv], of "cr_id c" now n] db_invD(3) [OF inv]
    by (fastforce simp: claimed_leases_def lease_of_row_def renewed_row_def fresh_lease_def deliveries_inv_def)
  then show "0 < ls_delivery_count l" "0 < ls_generation l" by simp_all
qed

text \<open>The check after the commit passes: the storage invariant is never found broken.\<close>

lemma claim_finish_eq:
  assumes inv: "db_inv db" and c: "c \<in> set (t_consumers db)"
  shows "claim_finish self now (claimed_leases c now v n db,
        messages_named db (map ls_message_id (claimed_leases c now v n db)), draining) db2 =
    (if claimed_leases c now v n db = [] then
       and_then (ok_or (claim_state_query (co_id self) db2) (deleted_error self)) (\<lambda>state.
         Inr \<lparr>cl_deliveries = [],
              cl_next_visible_at = (if st_scan_cursor state < st_scan_limit state then Some now
                                    else st_earliest_visible_at state),
              cl_draining = st_draining state\<rparr>)
     else Inr \<lparr>cl_deliveries = claimed_deliveries self c now v n db, cl_next_visible_at = None,
               cl_draining = draining\<rparr>)"
proof -
  let ?ls = "claimed_leases c now v n db" and ?ms = "messages_named db (map ls_message_id (claimed_leases c now v n db))"
  have ids: "map (message_id_get \<circ> msg_id) ?ms = map ls_message_id ?ls"
    by (rule messages_named_ids [OF db_invD(1) [OF inv] claimed_leases_sorted [OF inv c] claimed_ids_retained [OF inv]])
  then have len: "length ?ms = length ?ls" by (metis length_map)
  have "message_id_get (msg_id (?ms ! i)) = ls_message_id (?ls ! i)" if "i < length ?ls" for i
    using arg_cong [OF ids, of "\<lambda>xs. xs ! i"] that len by simp
  then have ok: "\<not> (length ?ms \<noteq> length ?ls \<or>
      (\<exists>(l, m) \<in> set (zip ?ls ?ms). ls_message_id l \<noteq> message_id_get (msg_id m)))"
    using len by (auto simp: in_set_zip)
  have "delivery_of self p = Inr (case p of (l, m) \<Rightarrow> delivery_record self l m)" if "p \<in> set (zip ?ls ?ms)" for p
  proof -
    obtain l m where p: "p = (l, m)" by (cases p)
    then have "l \<in> set ?ls" using that by (auto dest: set_zip_leftD)
    then have "0 < ls_delivery_count l" by (rule claimed_counts(1) [OF inv])
    with p show ?thesis by (simp add: delivery_of_def count_from_row_def delivery_record_def)
  qed
  then have "map_result (delivery_of self) (zip ?ls ?ms)
      = Inr (map (\<lambda>p. case p of (l, m) \<Rightarrow> delivery_record self l m) (zip ?ls ?ms))"
    by (rule map_result_all_Inr)
  moreover have "map (\<lambda>p. case p of (l, m) \<Rightarrow> delivery_record self l m) (zip ?ls ?ms)
      = claimed_deliveries self c now v n db"
    by (simp add: claimed_deliveries_def Let_def)
  moreover have "claimed_deliveries self c now v n db = [] \<longleftrightarrow> ?ls = []"
    using len by (auto simp: claimed_deliveries_def Let_def zip_eq_Nil_iff)
  ultimately show ?thesis
    unfolding claim_finish_def prod.case if_not_P [OF ok] by simp
qed

lemma claim_inv:
  assumes E: "engine_ok E" and inv: "fan_inv fan" and n: "n \<le> lf_max_batch_size fan"
    and others: "\<And>db. db_inv db \<Longrightarrow> db_inv (others1 db)" "\<And>db. db_inv db \<Longrightarrow> db_inv (others2 db)"
    and run: "claim E others1 others2 clk self n lease_ms fan = (r, fan')"
  shows "fan_inv fan'"
proof -
  have n': "int n \<le> i64_max" using n fan_invD(4) [OF inv] by linarith
  have db1: "db_inv (others1 (lf_pool fan))" by (rule others(1) [OF fan_invD(1) [OF inv]])
  have "db_inv db" if "claim_txn E self n now v (others1 (lf_pool fan)) = Inr (x, db)" for now v x db
    using claim_txn_inv [OF E db1 n'] that by blast
  then show ?thesis
    using run inv db1 others(2)
    by (auto simp: claim_def transaction_def Let_def fan_inv_update(2)
        split: if_splits sum.splits option.splits)
qed

end
