(* ===== verification/Retention.thy ===== *)
theory Retention
  imports Claiming
begin

text \<open>
  The maintenance operations of \<open>store.rs\<close>: inspection of the whole store, deletion of a
  consumer under a policy, and pruning of messages no consumer refers to. The lemmas show
  that the guards of the statements are exactly what the foreign keys and the invariant need.
\<close>

text \<open>The messages that are still ahead of a consumer's cursor, as the guards select them.\<close>

definition ahead_of :: "consumer_row \<Rightarrow> message_row \<Rightarrow> bool" where
  "ahead_of c m \<longleftrightarrow> cr_scan_cursor c < mr_id m \<and>
     (case cr_drain_cursor c of None \<Rightarrow> True | Some d \<Rightarrow> mr_id m \<le> d) \<and>
     topic_matches (cr_topic_filter c) (mr_topic m)"

subsection \<open>Deleting a consumer\<close>

text \<open>The guards of the deletion modes, in the order of the code.\<close>

definition delete_guards :: "utf8 \<Rightarrow> delete_mode \<Rightarrow> int option \<Rightarrow> nat \<Rightarrow> nat \<Rightarrow> unit outcome" where
  "delete_guards name mode draining_at outstanding archived =
     (if mode = DrainedOnly \<and> draining_at = None then Inl (ConsumerNotDraining name)
      else if mode = DrainedOnly \<and> 0 < outstanding then Inl (ConsumerNotEmpty name outstanding)
      else if mode \<noteq> DiscardAll \<and> 0 < archived then Inl (ConsumerHasArchives name archived)
      else Inr ())"

definition delete_txn :: "utf8 \<Rightarrow> delete_mode \<Rightarrow> database \<Rightarrow> ((int \<times> nat \<times> nat) \<times> database) outcome" where
  "delete_txn name mode db =
     and_then (update_consumers (\<lambda>c. cr_name c = name) (\<lambda>c. c) db) (\<lambda>(_, db0).
     and_then (ok_or (find_consumer_by_name name db0) (ConsumerNotFound name)) (\<lambda>c.
     and_then (count_from_row (int (length (deliveries_of db0 (cr_id c)))
         + int (length (filter (ahead_of c) (t_messages db0))))) (\<lambda>outstanding.
     and_then (count_from_row (int (length (archives_of db0 (cr_id c))))) (\<lambda>archived.
     and_then (delete_guards name mode (cr_draining_at c) outstanding archived) (\<lambda>_.
     let db1 = (if mode = DiscardAll
                then snd (delete_archives (\<lambda>a. ar_consumer_id a = cr_id c) db0) else db0)
     in and_then (delete_consumers (\<lambda>x. cr_id x = cr_id c) db1) (\<lambda>(_, db2).
          Inr ((cr_id c, outstanding, archived), db2)))))))"

definition delete_consumer :: "utf8 \<Rightarrow> delete_mode \<Rightarrow> delete_outcome handler" where
  "delete_consumer name mode fan =
     (case transaction (delete_txn name mode) (lf_pool fan) of
        (Inl e, db) \<Rightarrow> (Inl e, fan\<lparr>lf_pool := db\<rparr>)
      | (Inr (cid, outstanding, archived), db) \<Rightarrow>
          (Inr \<lparr>do_discarded_deliveries = outstanding, do_discarded_archives = archived\<rparr>,
           fan\<lparr>lf_pool := db, lf_signals := notify_consumer cid (lf_signals fan)\<rparr>))"

subsection \<open>Pruning\<close>

definition prunable :: "database \<Rightarrow> int \<Rightarrow> message_row \<Rightarrow> bool" where
  "prunable db before_ms m \<longleftrightarrow> mr_published_at m < before_ms \<and>
     \<not> (\<exists>d \<in> set (t_deliveries db). dr_message_id d = mr_id m) \<and>
     \<not> (\<exists>a \<in> set (t_archives db). ar_message_id a = mr_id m) \<and>
     \<not> (\<exists>c \<in> set (t_consumers db). ahead_of c m)"

definition prune_ids :: "database \<Rightarrow> int \<Rightarrow> nat \<Rightarrow> int list" where
  "prune_ids db before_ms limit =
     take limit (sort (map mr_id (filter (prunable db before_ms) (t_messages db))))"

definition prune_statement :: "int \<Rightarrow> nat \<Rightarrow> database \<Rightarrow> (nat \<times> database) outcome" where
  "prune_statement before_ms limit db =
     delete_messages (\<lambda>m. mr_id m \<in> set (prune_ids db before_ms limit)) db"

definition prune_messages :: "prune_opts \<Rightarrow> prune_outcome handler" where
  "prune_messages prune fan =
     (if pr_max_messages prune = 0 then (Inr default_prune_outcome, fan)
      else case and_then (ensure_batch_size fan (pr_max_messages prune)) (\<lambda>_.
             ok_or (i64_try_from (int (pr_max_messages prune)))
               (InvalidConfig ''prune max_messages must fit in SQLite'')) of
        Inl e \<Rightarrow> (Inl e, fan)
      | Inr limit \<Rightarrow>
          (case transaction (prune_statement (pr_before_ms prune) (nat limit)) (lf_pool fan) of
             (Inl e, db) \<Rightarrow> (Inl e, fan\<lparr>lf_pool := db\<rparr>)
           | (Inr rows, db) \<Rightarrow> (Inr \<lparr>deleted_messages = rows\<rparr>, fan\<lparr>lf_pool := db\<rparr>)))"

subsection \<open>Inspection of the whole store\<close>

text \<open>\<open>try_fold(0_u64, checked_add)\<close>.\<close>

fun checked_total :: "nat \<Rightarrow> nat list \<Rightarrow> nat outcome" where
  "checked_total acc [] = Inr acc"
| "checked_total acc (n # ns) =
     (if u64_max < int (acc + n) then Inl CounterOutOfRange else checked_total (acc + n) ns)"

definition snapshot :: "clock \<Rightarrow> litefan \<Rightarrow> store_snapshot outcome" where
  "snapshot clk fan =
     and_then (now_ms clk) (\<lambda>now.
     and_then (fetch_consumer_snapshots now None (lf_pool fan)) (\<lambda>consumers.
     and_then (checked_total 0 (map cs_outstanding consumers)) (\<lambda>outstanding_deliveries.
     and_then (checked_total 0 (map cs_archived consumers)) (\<lambda>archived_deliveries.
     and_then (count_from_row (int (length (t_messages (lf_pool fan))))) (\<lambda>retained_messages.
     and_then (count_from_row (int (length (t_idempotency (lf_pool fan))))) (\<lambda>idempotency_keys.
     Inr \<lparr>ss_retained_messages = retained_messages, ss_idempotency_keys = idempotency_keys,
          ss_outstanding_deliveries = outstanding_deliveries,
          ss_archived_deliveries = archived_deliveries, ss_consumers = consumers\<rparr>))))))"

subsection \<open>The guards and the constraints\<close>

lemma ahead_of_unscanned: "filter (ahead_of c) (t_messages db) = unscanned db c"
  unfolding unscanned_def ahead_of_def scan_limit_def
  using high_water_ge [of _ db] by (auto intro!: filter_cong split: option.splits)

lemma count_from_row_nat [simp]: "count_from_row (int n) = Inr n"
  by (simp add: count_from_row_def)

lemma count_from_row_sum [simp]: "count_from_row (int m + int n) = Inr (m + n)"
  by (simp add: count_from_row_def nat_add_distrib)

definition outstanding_of :: "database \<Rightarrow> consumer_row \<Rightarrow> nat" where
  "outstanding_of db c = length (deliveries_of db (cr_id c)) + length (unscanned db c)"

text \<open>The database without a consumer: its row, its deliveries and its archives are gone.\<close>

definition without_consumer :: "int \<Rightarrow> database \<Rightarrow> database" where
  "without_consumer cid db =
     db\<lparr>t_consumers := filter (\<lambda>c. cr_id c \<noteq> cid) (t_consumers db),
        t_deliveries := filter (\<lambda>d. dr_consumer_id d \<noteq> cid) (t_deliveries db),
        t_archives := filter (\<lambda>a. ar_consumer_id a \<noteq> cid) (t_archives db)\<rparr>"

lemma delete_consumers_ok:
  assumes c: "c \<in> set (t_consumers db)" and free: "\<forall>a \<in> set (t_archives db). ar_consumer_id a \<noteq> cr_id c"
  shows "\<exists>k. delete_consumers (\<lambda>x. cr_id x = cr_id c) db = Inr (k, without_consumer (cr_id c) db)"
proof -
  have gone: "cr_id ` set (filter (\<lambda>x. cr_id x = cr_id c) (t_consumers db)) = {cr_id c}"
    using c by auto
  have "filter (\<lambda>a. ar_consumer_id a \<noteq> cr_id c) (t_archives db) = t_archives db"
    using free by (simp add: filter_id_conv)
  then show ?thesis
    using free unfolding delete_consumers_def Let_def gone by (simp add: without_consumer_def)
qed

lemma delete_txn_eq:
  assumes inv: "db_inv db"
  shows "delete_txn name mode db =
    (case find_consumer_by_name name db of
       None \<Rightarrow> Inl (ConsumerNotFound name)
     | Some c \<Rightarrow> and_then (delete_guards name mode (cr_draining_at c) (outstanding_of db c)
           (length (archives_of db (cr_id c)))) (\<lambda>_.
         Inr ((cr_id c, outstanding_of db c, length (archives_of db (cr_id c))),
              without_consumer (cr_id c) db)))"
proof (cases "find_consumer_by_name name db")
  case None
  then show ?thesis by (simp add: delete_txn_def lock_statement [OF db_invD(2) [OF inv]])
next
  case (Some c)
  then have c: "c \<in> set (t_consumers db)"
    using find_consumer_by_name_Some [OF db_invD(2) [OF inv]] by blast
  let ?guards = "delete_guards name mode (cr_draining_at c) (outstanding_of db c) (length (archives_of db (cr_id c)))"
  let ?db1 = "if mode = DiscardAll then snd (delete_archives (\<lambda>a. ar_consumer_id a = cr_id c) db) else db"
  have "\<exists>k. delete_consumers (\<lambda>x. cr_id x = cr_id c) ?db1 = Inr (k, without_consumer (cr_id c) db)"
    if "?guards = Inr u" for u
  proof -
    have "mode = DiscardAll \<or> archives_of db (cr_id c) = []"
      using that by (auto simp: delete_guards_def split: if_splits)
    then have "\<forall>a \<in> set (t_archives ?db1). ar_consumer_id a \<noteq> cr_id c"
      by (auto simp: delete_archives_def archives_of_def filter_empty_conv)
    moreover have "without_consumer (cr_id c) ?db1 = without_consumer (cr_id c) db"
      by (simp add: without_consumer_def delete_archives_def)
    moreover have "c \<in> set (t_consumers ?db1)" using c by (simp add: delete_archives_def)
    ultimately show ?thesis using delete_consumers_ok [of c ?db1] by simp
  qed
  then show ?thesis
    using Some
    by (cases ?guards)
      (auto simp: delete_txn_def lock_statement [OF db_invD(2) [OF inv]] ahead_of_unscanned
        outstanding_of_def Let_def simp flip: of_nat_add)
qed

lemma without_consumer_inv:
  assumes inv: "db_inv db" and c: "c \<in> set (t_consumers db)"
  shows "db_inv (without_consumer (cr_id c) db)"
proof -
  let ?db1 = "snd (delete_archives (\<lambda>a. ar_consumer_id a = cr_id c) db)"
  have db1: "db_inv ?db1"
    using delete_archives_inv [OF inv, of "\<lambda>a. ar_consumer_id a = cr_id c"] by (simp add: delete_archives_def)
  have "c \<in> set (t_consumers ?db1)" "\<forall>a \<in> set (t_archives ?db1). ar_consumer_id a \<noteq> cr_id c"
    using c by (simp_all add: delete_archives_def)
  from delete_consumers_ok [OF this] obtain k
    where "delete_consumers (\<lambda>x. cr_id x = cr_id c) ?db1 = Inr (k, without_consumer (cr_id c) ?db1)" ..
  from delete_consumers_inv [OF db1 this] show ?thesis
    by (simp add: without_consumer_def delete_archives_def)
qed

lemma delete_consumer_inv:
  assumes inv: "fan_inv fan" and run: "delete_consumer name mode fan = (r, fan')"
  shows "fan_inv fan'"
proof -
  have "db_inv db" if "delete_txn name mode (lf_pool fan) = Inr (x, db)" for x db
    using that find_consumer_by_name_Some [OF db_invD(2) [OF fan_invD(1) [OF inv]]]
      without_consumer_inv [OF fan_invD(1) [OF inv]]
    by (auto simp: delete_txn_eq [OF fan_invD(1) [OF inv]] split: option.splits)
  then show ?thesis
    using run inv fan_inv_update(1,2) [OF inv] notify_consumer_inv [OF fan_invD(2) [OF inv]]
    by (auto simp: delete_consumer_def transaction_def split: sum.splits)
qed

text \<open>A message the guard selects has no archive, so ON DELETE RESTRICT does not fire, and no
  delivery, so ON DELETE CASCADE removes nothing.\<close>

definition pruned_db :: "int \<Rightarrow> nat \<Rightarrow> database \<Rightarrow> database" where
  "pruned_db before_ms limit db =
     db\<lparr>t_messages := filter (\<lambda>m. mr_id m \<notin> set (prune_ids db before_ms limit)) (t_messages db)\<rparr>"

lemma prune_ids_in:
  "i \<in> set (prune_ids db before_ms limit) \<Longrightarrow> \<exists>m \<in> set (t_messages db). mr_id m = i \<and> prunable db before_ms m"
  unfolding prune_ids_def using set_take_subset by fastforce

lemma length_prune:
  assumes "messages_inv db"
  shows "length (filter (\<lambda>m. mr_id m \<in> set (prune_ids db before_ms limit)) (t_messages db))
    = min limit (length (filter (prunable db before_ms) (t_messages db)))"
proof -
  have dist: "distinct (map mr_id (t_messages db))"
    using assms by (simp add: messages_inv_def strict_sorted_iff)
  have ids: "distinct (prune_ids db before_ms limit)"
    using dist by (simp add: prune_ids_def distinct_map_filter)
  have "map mr_id (filter (\<lambda>m. mr_id m \<in> set (prune_ids db before_ms limit)) (t_messages db))
      = filter (\<lambda>i. i \<in> set (prune_ids db before_ms limit)) (map mr_id (t_messages db))"
    by (simp add: filter_map comp_def)
  moreover have "set (filter (\<lambda>i. i \<in> set (prune_ids db before_ms limit)) (map mr_id (t_messages db)))
      = set (prune_ids db before_ms limit)"
    using prune_ids_in by fastforce
  ultimately have "length (filter (\<lambda>m. mr_id m \<in> set (prune_ids db before_ms limit)) (t_messages db))
      = length (prune_ids db before_ms limit)"
    using dist ids by (metis distinct_card distinct_filter length_map)
  then show ?thesis by (simp add: prune_ids_def min.commute)
qed

lemma prune_statement_eq:
  assumes "messages_inv db"
  shows "prune_statement before_ms limit db =
    Inr (min limit (length (filter (prunable db before_ms) (t_messages db))), pruned_db before_ms limit db)"
proof -
  let ?ids = "prune_ids db before_ms limit"
  have gone: "mr_id ` set (filter (\<lambda>m. mr_id m \<in> set ?ids) (t_messages db)) = set ?ids"
    using prune_ids_in by fastforce
  have "\<forall>a \<in> set (t_archives db). ar_message_id a \<notin> set ?ids"
    "\<forall>d \<in> set (t_deliveries db). dr_message_id d \<notin> set ?ids"
    using prune_ids_in [of _ db before_ms limit] unfolding prunable_def by fastforce+
  moreover from this have "filter (\<lambda>d. dr_message_id d \<notin> set ?ids) (t_deliveries db) = t_deliveries db"
    by (simp add: filter_id_conv)
  ultimately show ?thesis
    unfolding prune_statement_def delete_messages_def Let_def gone length_prune [OF assms]
    by (auto simp: pruned_db_def)
qed

lemma prune_messages_inv:
  assumes inv: "fan_inv fan" and run: "prune_messages prune fan = (r, fan')"
  shows "fan_inv fan'"
proof -
  have "db_inv db" if "prune_statement t n (lf_pool fan) = Inr (k, db)" for t n k db
    using that delete_messages_inv [OF fan_invD(1) [OF inv]] by (simp add: prune_statement_def)
  then show ?thesis
    using run inv
    by (auto simp: prune_messages_def transaction_def fan_inv_update(2) split: if_splits sum.splits)
qed

end
