(* ===== verification/Inbox.thy ===== *)
theory Inbox
  imports Publishing Retention
begin

text \<open>
  What the store promises, without cursors, leases, chunks or statements: every consumer has
  an inbox, which is the set of messages it is still owed and the set it has archived. An
  operation of the code does one of a few things to the inboxes (\<open>inbox_event\<close>), and most
  operations do nothing to them: claiming, releasing, extending and pruning are invisible.

  \<open>inboxes\<close> reads the inboxes off a database. The lemmas compute the inboxes of the state
  that each transaction leaves.
\<close>

record inbox =
  ib_filter :: "utf8 option"
  ib_accepting :: bool
  ib_owed :: "int set"
  ib_archived :: "int set"

type_synonym inboxes = "int \<rightharpoonup> inbox"

datatype inbox_event =
    Posted "(int \<times> utf8 option) set"
  | Created int "utf8 option"
  | Frozen int
  | Settled int "int set"
  | Shelved int "int set"
  | Restored int "int set"
  | Discarded int "int set"
  | Removed int
  | Quiet

definition deposit :: "(int \<times> utf8 option) set \<Rightarrow> inbox \<Rightarrow> inbox" where
  "deposit ms b = (if ib_accepting b
     then b\<lparr>ib_owed := ib_owed b \<union> fst ` {p \<in> ms. topic_matches (ib_filter b) (snd p)}\<rparr> else b)"

definition update_inbox :: "int \<Rightarrow> (inbox \<Rightarrow> inbox) \<Rightarrow> inboxes \<Rightarrow> inboxes" where
  "update_inbox cid f ib = ib(cid := map_option f (ib cid))"

fun apply_event :: "inbox_event \<Rightarrow> inboxes \<Rightarrow> inboxes" where
  "apply_event (Posted ms) ib = map_option (deposit ms) \<circ> ib"
| "apply_event (Created cid flt) ib =
     ib(cid \<mapsto> \<lparr>ib_filter = flt, ib_accepting = True, ib_owed = {}, ib_archived = {}\<rparr>)"
| "apply_event (Frozen cid) ib = update_inbox cid (\<lambda>b. b\<lparr>ib_accepting := False\<rparr>) ib"
| "apply_event (Settled cid ids) ib = update_inbox cid (\<lambda>b. b\<lparr>ib_owed := ib_owed b - ids\<rparr>) ib"
| "apply_event (Shelved cid ids) ib = update_inbox cid (\<lambda>b. b\<lparr>ib_owed := ib_owed b - ids,
     ib_archived := ib_archived b \<union> ids\<rparr>) ib"
| "apply_event (Restored cid ids) ib = update_inbox cid (\<lambda>b. b\<lparr>ib_owed := ib_owed b \<union> ids,
     ib_archived := ib_archived b - ids\<rparr>) ib"
| "apply_event (Discarded cid ids) ib = update_inbox cid (\<lambda>b. b\<lparr>ib_archived := ib_archived b - ids\<rparr>) ib"
| "apply_event (Removed cid) ib = ib(cid := None)"
| "apply_event Quiet ib = ib"

subsection \<open>The inboxes of a database\<close>

definition owed :: "database \<Rightarrow> consumer_row \<Rightarrow> int set" where
  "owed db c = dr_message_id ` set (deliveries_of db (cr_id c)) \<union> mr_id ` set (unscanned db c)"

definition inbox_of :: "database \<Rightarrow> consumer_row \<Rightarrow> inbox" where
  "inbox_of db c =
     \<lparr>ib_filter = cr_topic_filter c, ib_accepting = (cr_draining_at c = None), ib_owed = owed db c,
      ib_archived = ar_message_id ` set (archives_of db (cr_id c))\<rparr>"

definition inboxes :: "database \<Rightarrow> inboxes" where
  "inboxes db cid = map_option (inbox_of db) (find_consumer cid db)"

lemma inboxes_Some:
  assumes "consumers_inv db"
  shows "inboxes db cid = Some b \<longleftrightarrow> (\<exists>c \<in> set (t_consumers db). cr_id c = cid \<and> b = inbox_of db c)"
  using find_consumer_Some [OF assms] by (auto simp: inboxes_def)

text \<open>Databases with the same consumers have inboxes that can be compared row by row.\<close>

lemma inboxes_same_consumers:
  assumes inv: "consumers_inv db" and same: "t_consumers db' = t_consumers db"
    and row: "\<And>c. c \<in> set (t_consumers db) \<Longrightarrow> Some (inbox_of db' c) = apply_event ev (inboxes db) (cr_id c)"
    and none: "\<And>cid. inboxes db cid = None \<Longrightarrow> apply_event ev (inboxes db) cid = None"
  shows "inboxes db' = apply_event ev (inboxes db)"
proof
  fix cid
  have find: "find_consumer cid db' = find_consumer cid db" by (simp add: find_consumer_def same)
  show "inboxes db' cid = apply_event ev (inboxes db) cid"
  proof (cases "find_consumer cid db")
    case None
    then have "inboxes db cid = None" by (simp add: inboxes_def)
    with none None find show ?thesis by (simp add: inboxes_def)
  next
    case (Some c)
    then have "c \<in> set (t_consumers db)" "cr_id c = cid" using find_consumer_Some [OF inv] by auto
    with row [of c] Some find show ?thesis by (simp add: inboxes_def)
  qed
qed

lemma inboxes_row:
  "consumers_inv db \<Longrightarrow> c \<in> set (t_consumers db) \<Longrightarrow> inboxes db (cr_id c) = Some (inbox_of db c)"
  using inboxes_Some by blast

text \<open>An event that touches one consumer's inbox, checked at the rows.\<close>

lemma row_update:
  assumes "consumers_inv db" and "c \<in> set (t_consumers db)"
    and "inbox_of db' c = (if cr_id c = cid then f (inbox_of db c) else inbox_of db c)"
  shows "Some (inbox_of db' c) = update_inbox cid f (inboxes db) (cr_id c)"
  using assms inboxes_row [OF assms(1,2)] by (auto simp: update_inbox_def)

lemma update_inbox_None: "ib i = None \<Longrightarrow> update_inbox cid f ib i = None"
  by (auto simp: update_inbox_def)

lemma unscanned_ahead: "unscanned db c = filter (ahead_of c) (t_messages db)"
  by (rule ahead_of_unscanned [symmetric])

lemma deliveries_behind:
  assumes inv: "db_inv db" and d: "d \<in> set (t_deliveries db)" and c: "c \<in> set (t_consumers db)"
    and "dr_consumer_id d = cr_id c"
  shows "dr_message_id d \<le> cr_scan_cursor c"
proof -
  have "passed db (cr_id c) (dr_message_id d)"
    using db_invD(3) [OF inv] d assms(4) by (auto simp: deliveries_inv_def)
  then obtain x where "x \<in> set (t_consumers db)" "cr_id x = cr_id c" "dr_message_id d \<le> cr_scan_cursor x"
    by (auto simp: passed_def)
  moreover from this have "x = c"
    using db_invD(2) [OF inv] c distinct_map_inj [of cr_id "t_consumers db" x c] by (simp add: consumers_inv_def)
  ultimately show ?thesis by simp
qed

subsection \<open>Publishing\<close>

definition posted :: "int \<Rightarrow> int \<Rightarrow> publish list \<Rightarrow> (int \<times> utf8 option) set" where
  "posted n t ps = (\<lambda>m. (mr_id m, mr_topic m)) ` set (message_rows n t ps)"

lemma inboxes_published:
  assumes inv: "db_inv db" and E: "engine_ok E"
    and ref: "publish_each (live_ledger t db) (seq_messages db) ms = (os, ps, L')"
    and cap: "seq_messages db + int (length ps) \<le> i64_max"
  shows "inboxes (published_db E t e ms db) = apply_event (Posted (posted (seq_messages db) t ps)) (inboxes db)"
proof (rule inboxes_same_consumers [OF db_invD(2) [OF inv]])
  note db' = published_db_simps [OF ref, of E e]
  let ?db = "published_db E t e ms db" and ?new = "message_rows (seq_messages db) t ps"
  show "t_consumers ?db = t_consumers db" by (rule db'(3))
  fix c assume c: "c \<in> set (t_consumers db)"
  then have row: "consumer_row_inv db c" using db_invD(2) [OF inv] by (simp add: consumers_inv_def)
  have ids: "seq_messages db < mr_id m" if "m \<in> set ?new" for m using message_rows_ids [OF that] by simp
  have un: "unscanned ?db c = unscanned db c @ filter (ahead_of c) ?new"
    unfolding unscanned_ahead db'(1) by simp
  have "ahead_of c m \<longleftrightarrow> cr_draining_at c = None \<and> topic_matches (cr_topic_filter c) (mr_topic m)"
    if "m \<in> set ?new" for m
    using row ids [OF that] by (auto simp: ahead_of_def consumer_row_inv_def split: option.splits)
  then have "mr_id ` set (filter (ahead_of c) ?new) = (if cr_draining_at c = None
      then fst ` {p \<in> posted (seq_messages db) t ps. topic_matches (cr_topic_filter c) (snd p)} else {})"
    by (force simp: posted_def)
  then have "inbox_of ?db c = deposit (posted (seq_messages db) t ps) (inbox_of db c)"
    by (simp add: inbox_of_def deposit_def owed_def un deliveries_of_def archives_of_def db'(4,5)
        image_Un Un_assoc)
  then show "Some (inbox_of ?db c) = apply_event (Posted (posted (seq_messages db) t ps)) (inboxes db) (cr_id c)"
    using inboxes_row [OF db_invD(2) [OF inv] c] by simp
qed simp

subsection \<open>Operations on leases\<close>

text \<open>Changing a delivery row without its key is invisible.\<close>

lemma inboxes_map_deliveries:
  assumes inv: "consumers_inv db" and key: "\<And>d. d \<in> set (t_deliveries db) \<Longrightarrow> dr_key (f d) = dr_key d"
  shows "inboxes (db\<lparr>t_deliveries := map f (t_deliveries db)\<rparr>) = inboxes db" (is "inboxes ?db = _")
proof -
  have "inboxes ?db = apply_event Quiet (inboxes db)"
  proof (rule inboxes_same_consumers [OF inv])
    fix c assume c: "c \<in> set (t_consumers db)"
    have "dr_message_id ` set (filter (\<lambda>d. dr_consumer_id d = cid) (map f ds))
        = dr_message_id ` set (filter (\<lambda>d. dr_consumer_id d = cid) ds)"
      if "\<And>d. d \<in> set ds \<Longrightarrow> dr_key (f d) = dr_key d" for cid ds
      using that by (induction ds) (auto simp: dr_key_def)
    then have "dr_message_id ` set (deliveries_of ?db (cr_id c)) = dr_message_id ` set (deliveries_of db (cr_id c))"
      using key by (simp add: deliveries_of_def)
    moreover have "unscanned ?db c = unscanned db c" by (rule unscanned_cong) simp
    ultimately show "Some (inbox_of ?db c) = apply_event Quiet (inboxes db) (cr_id c)"
      using inboxes_row [OF inv c] by (simp add: inbox_of_def owed_def archives_of_def)
  qed simp_all
  then show ?thesis by simp
qed

text \<open>The messages whose leases a batch of receipts holds.\<close>

definition held_ids :: "int \<Rightarrow> receipt list \<Rightarrow> database \<Rightarrow> int set" where
  "held_ids cid rs db = dr_message_id ` set (filter (receipt_clause cid rs) (t_deliveries db))"

lemma owed_released:
  assumes inv: "db_inv db" and c: "c \<in> set (t_consumers db)"
  shows "dr_message_id ` set (filter (\<lambda>d. \<not> receipt_clause cid rs d) (deliveries_of db (cr_id c))) \<union>
      mr_id ` set (unscanned db c)
    = (if cr_id c = cid then owed db c - held_ids cid rs db else owed db c)"
proof (cases "cr_id c = cid")
  case False
  then have "filter (\<lambda>d. \<not> receipt_clause cid rs d) (deliveries_of db (cr_id c)) = deliveries_of db (cr_id c)"
    by (intro filter_True) (auto simp: deliveries_of_def receipt_clause_def)
  with False show ?thesis by (simp add: owed_def)
next
  case True
  let ?D = "set (deliveries_of db cid)" and ?H = "{d \<in> set (deliveries_of db cid). receipt_clause cid rs d}"
  have held: "held_ids cid rs db = dr_message_id ` ?H"
    by (auto simp: held_ids_def deliveries_of_def receipt_clause_def)
  have "inj_on dr_message_id ?D"
  proof (rule inj_onI)
    fix d d' assume "d \<in> ?D" "d' \<in> ?D" "dr_message_id d = dr_message_id d'"
    then have "d \<in> set (t_deliveries db)" "d' \<in> set (t_deliveries db)" "dr_key d = dr_key d'"
      by (simp_all add: deliveries_of_def dr_key_def)
    then show "d = d'"
      using db_invD(3) [OF inv] distinct_map_inj [of dr_key "t_deliveries db" d d']
      by (simp add: deliveries_inv_def)
  qed
  then have "dr_message_id ` (?D - ?H) = dr_message_id ` ?D - dr_message_id ` ?H"
    by (rule inj_on_image_set_diff) auto
  moreover have "?D - ?H = set (filter (\<lambda>d. \<not> receipt_clause cid rs d) (deliveries_of db cid))" by auto
  moreover have "dr_message_id ` ?H \<inter> mr_id ` set (unscanned db c) = {}"
  proof -
    have "dr_message_id d < mr_id m" if "d \<in> ?H" "m \<in> set (unscanned db c)" for d m
      using that deliveries_behind [OF inv _ c, of d] unscanned_bounds [OF that(2)] True
      by (auto simp: deliveries_of_def)
    then show ?thesis by fastforce
  qed
  ultimately show ?thesis using True by (auto simp: owed_def held)
qed

lemma deliveries_of_filter:
  "deliveries_of (db\<lparr>t_deliveries := filter p (t_deliveries db)\<rparr>) cid = filter p (deliveries_of db cid)"
  by (simp add: deliveries_of_def conj_commute)

lemma inboxes_acked:
  assumes inv: "db_inv db"
  shows "inboxes (acked_db cid rs db) = apply_event (Settled cid (held_ids cid rs db)) (inboxes db)"
proof (rule inboxes_same_consumers [OF db_invD(2) [OF inv]])
  fix c assume c: "c \<in> set (t_consumers db)"
  have "unscanned (acked_db cid rs db) c = unscanned db c"
    by (rule unscanned_cong) (simp add: acked_db_def)
  moreover have "deliveries_of (acked_db cid rs db) (cr_id c)
      = filter (\<lambda>d. \<not> receipt_clause cid rs d) (deliveries_of db (cr_id c))"
    by (simp add: acked_db_def deliveries_of_filter)
  ultimately have "owed (acked_db cid rs db) c = (if cr_id c = cid then owed db c - held_ids cid rs db else owed db c)"
    unfolding owed_def [of "acked_db cid rs db"] by (simp only: owed_released [OF inv c])
  then show "Some (inbox_of (acked_db cid rs db) c) = apply_event (Settled cid (held_ids cid rs db)) (inboxes db) (cr_id c)"
    unfolding apply_event.simps
    by (intro row_update [OF db_invD(2) [OF inv] c])
      (simp add: inbox_of_def archives_of_def, simp add: acked_db_def)
qed (simp_all add: acked_db_def update_inbox_None)

lemma inboxes_nacked: "consumers_inv db \<Longrightarrow> inboxes (nacked_db v cid rs db) = inboxes db"
  unfolding nacked_db_def by (rule inboxes_map_deliveries) (simp_all add: nacked_row_def dr_key_def)

lemma inboxes_extended: "consumers_inv db \<Longrightarrow> inboxes (extended_db v cid rs db) = inboxes db"
  unfolding extended_db_def by (rule inboxes_map_deliveries) (simp_all add: extended_row_def dr_key_def)

subsection \<open>Claims\<close>

lemma consumer_unique:
  "consumers_inv db \<Longrightarrow> c \<in> set (t_consumers db) \<Longrightarrow> x \<in> set (t_consumers db) \<Longrightarrow> cr_id x = cr_id c \<Longrightarrow> x = c"
  using distinct_map_inj [of cr_id "t_consumers db" x c] by (simp add: consumers_inv_def)

lemma find_consumer_map:
  assumes "\<And>c. cr_id (f c) = cr_id c"
  shows "find_consumer cid (db\<lparr>t_consumers := map f (t_consumers db)\<rparr>) = map_option f (find_consumer cid db)"
proof -
  have "find (\<lambda>c. cr_id c = cid) (map f cs) = map_option f (find (\<lambda>c. cr_id c = cid) cs)" for cs
    using assms by (induction cs) auto
  then show ?thesis by (simp add: find_consumer_def)
qed

lemma find_consumer_cong: "t_consumers db' = t_consumers db \<Longrightarrow> find_consumer cid db' = find_consumer cid db"
  by (simp add: find_consumer_def)

text \<open>Taking messages from the log moves them from one half of the owed set to the other.\<close>

lemma owed_scanned:
  assumes inv: "db_inv db" and c: "c \<in> set (t_consumers db)"
  shows "owed (scanned_db v c n db) (c\<lparr>cr_scan_cursor := next_cursor db c n\<rparr>) = owed db c"
proof -
  let ?c = "c\<lparr>cr_scan_cursor := next_cursor db c n\<rparr>"
  have "unscanned (scanned_db v c n db) ?c = unscanned (moved_db c (next_cursor db c n) db) ?c"
    by (rule unscanned_cong) (simp add: scanned_db_def)
  then have un: "unscanned (scanned_db v c n db) ?c = drop n (unscanned db c)"
    using unscanned_moved [OF db_invD(1) [OF inv]] by simp
  have "filter (\<lambda>d. dr_consumer_id d = cr_id c) (map (fresh_row (cr_id c) v) is) = map (fresh_row (cr_id c) v) is" for "is"
    by (intro filter_True) auto
  then have "dr_message_id ` set (deliveries_of (scanned_db v c n db) (cr_id c))
      = dr_message_id ` set (deliveries_of db (cr_id c)) \<union> set (fresh_ids db c n)"
    by (simp add: deliveries_of_def scanned_db_def image_Un image_image)
  moreover have "set (fresh_ids db c n) \<union> mr_id ` set (drop n (unscanned db c)) = mr_id ` set (unscanned db c)"
    by (simp add: fresh_ids_def flip: set_append image_Un drop_map take_map set_map)
  ultimately show ?thesis by (simp add: owed_def un Un_assoc)
qed

lemma inboxes_scanned:
  assumes inv: "db_inv db" and c: "c \<in> set (t_consumers db)"
  shows "inboxes (scanned_db v c n db) = inboxes db"
proof
  fix cid
  let ?db = "scanned_db v c n db" and ?k = "next_cursor db c n"
  let ?f = "\<lambda>x. if cr_id x = cr_id c then x\<lparr>cr_scan_cursor := ?k\<rparr> else x"
  have "find_consumer cid ?db = find_consumer cid (db\<lparr>t_consumers := map ?f (t_consumers db)\<rparr>)"
    by (rule find_consumer_cong) (simp add: scanned_db_def moved_db_def)
  then have find: "find_consumer cid ?db = map_option ?f (find_consumer cid db)"
    by (simp add: find_consumer_map)
  have "inbox_of ?db (?f x) = inbox_of db x" if x: "x \<in> set (t_consumers db)" for x
  proof (cases "cr_id x = cr_id c")
    case True
    then have "x = c" using consumer_unique [OF db_invD(2) [OF inv] c x] by simp
    then show ?thesis
      using owed_scanned [OF inv c, of v n]
      by (simp add: inbox_of_def archives_of_def scanned_db_def moved_db_def)
  next
    case False
    have "unscanned ?db x = unscanned db x"
      by (rule unscanned_cong) (simp add: scanned_db_def moved_db_def)
    moreover have "deliveries_of ?db (cr_id x) = deliveries_of db (cr_id x)"
      using False by (auto simp: deliveries_of_def scanned_db_def filter_empty_conv)
    ultimately show ?thesis
      using False by (simp add: inbox_of_def owed_def archives_of_def scanned_db_def moved_db_def)
  qed
  then have row: "inbox_of ?db (?f x) = inbox_of db x" if "find_consumer cid db = Some x" for x
    using that find_consumer_Some [OF db_invD(2) [OF inv]] by blast
  show "inboxes ?db cid = inboxes db cid"
  proof (cases "find_consumer cid db")
    case (Some x)
    then show ?thesis using row [OF Some] by (simp only: inboxes_def find option.map)
  qed (simp add: inboxes_def find)
qed

lemma inboxes_renewed: "consumers_inv db \<Longrightarrow> inboxes (renewed_db cid now v n db) = inboxes db"
  unfolding renewed_db_def by (rule inboxes_map_deliveries) simp_all

lemma inboxes_claimed:
  assumes "db_inv db" and "c \<in> set (t_consumers db)" and "attempt_room db (cr_id c) now n"
  shows "inboxes (claimed_db c now v n db) = inboxes db"
  unfolding claimed_db_def
  using inboxes_scanned [OF renewed_db_inv [OF assms(1,3)]] assms(2)
    inboxes_renewed [OF db_invD(2) [OF assms(1)]] by simp

subsection \<open>Archives\<close>

lemma archived_ids_rows:
  "ar_message_id ` set (filter (\<lambda>a. ar_consumer_id a = cid) (archive_rows t detail i ls))
     = al_message_id ` set (filter (\<lambda>l. al_consumer_id l = cid) ls)"
  by (induction ls arbitrary: i) (auto simp: archive_row_of_def)

lemma inboxes_archived:
  assumes inv: "db_inv db"
  shows "inboxes (archived_db cid rs t detail db) = apply_event (Shelved cid (held_ids cid rs db)) (inboxes db)"
proof (rule inboxes_same_consumers [OF db_invD(2) [OF inv]])
  let ?db = "archived_db cid rs t detail db"
  fix c assume c: "c \<in> set (t_consumers db)"
  have "unscanned ?db c = unscanned db c" by (rule unscanned_cong) simp
  moreover have "deliveries_of ?db (cr_id c) = filter (\<lambda>d. \<not> receipt_clause cid rs d) (deliveries_of db (cr_id c))"
    by (simp add: deliveries_of_def conj_commute)
  ultimately have "owed ?db c = (if cr_id c = cid then owed db c - held_ids cid rs db else owed db c)"
    unfolding owed_def [of ?db] by (simp only: owed_released [OF inv c])
  moreover have "ar_message_id ` set (archives_of ?db (cr_id c)) = ar_message_id ` set (archives_of db (cr_id c)) \<union>
      (if cr_id c = cid then held_ids cid rs db else {})"
  proof -
    have "al_message_id ` set (filter (\<lambda>l. al_consumer_id l = cr_id c) (archived_leases cid rs db))
        = (if cr_id c = cid then held_ids cid rs db else {})"
      by (force simp: set_archived_leases held_ids_def archived_lease_from_row_def receipt_clause_def)
    then show ?thesis
      unfolding archives_of_def archived_db_simps filter_append set_append image_Un archived_ids_rows
      by (rule arg_cong)
  qed
  ultimately show "Some (inbox_of ?db c) = apply_event (Shelved cid (held_ids cid rs db)) (inboxes db) (cr_id c)"
    unfolding apply_event.simps
    by (intro row_update [OF db_invD(2) [OF inv] c]) (simp add: inbox_of_def)
qed (simp_all add: update_inbox_None)

text \<open>The archived messages that a list of archive ids names.\<close>

definition named_ids :: "int \<Rightarrow> archive_id list \<Rightarrow> database \<Rightarrow> int set" where
  "named_ids cid ids db = ar_message_id ` set (filter (redrive_clause cid ids) (t_archives db))"

lemma archive_messages_inj:
  assumes "archives_inv db"
  shows "inj_on ar_message_id (set (archives_of db cid))"
proof (rule inj_onI)
  fix a b assume "a \<in> set (archives_of db cid)" "b \<in> set (archives_of db cid)" "ar_message_id a = ar_message_id b"
  then have "a \<in> set (t_archives db)" "b \<in> set (t_archives db)" "ar_key a = ar_key b"
    by (simp_all add: archives_of_def ar_key_def)
  then show "a = b"
    using assms distinct_map_inj [of ar_key "t_archives db" a b] by (simp add: archives_inv_def)
qed

lemma archived_removed:
  assumes inv: "archives_inv db"
  shows "ar_message_id ` set (filter (\<lambda>a. \<not> p a) (archives_of db cid))
    = ar_message_id ` set (archives_of db cid) - ar_message_id ` set (filter p (archives_of db cid))"
proof -
  have "ar_message_id ` (set (archives_of db cid) - {a \<in> set (archives_of db cid). p a})
      = ar_message_id ` set (archives_of db cid) - ar_message_id ` {a \<in> set (archives_of db cid). p a}"
    by (rule inj_on_image_set_diff [OF archive_messages_inj [OF inv]]) auto
  moreover have "set (archives_of db cid) - {a \<in> set (archives_of db cid). p a}
      = set (filter (\<lambda>a. \<not> p a) (archives_of db cid))" by auto
  ultimately show ?thesis by simp
qed

lemma inboxes_redriven:
  assumes inv: "db_inv db" and ms: "mset mids = mset (archived_messages cid ids db)"
  shows "inboxes (redriven_db cid v ids mids db) = apply_event (Restored cid (named_ids cid ids db)) (inboxes db)"
proof (rule inboxes_same_consumers [OF db_invD(2) [OF inv]])
  let ?db = "redriven_db cid v ids mids db"
  fix c assume c: "c \<in> set (t_consumers db)"
  have mids: "set mids = named_ids cid ids db"
    using mset_eq_setD [OF ms] by (simp add: archived_messages_def named_ids_def)
  have un: "unscanned ?db c = unscanned db c" by (rule unscanned_cong) simp
  have del: "dr_message_id ` set (deliveries_of ?db (cr_id c)) = dr_message_id ` set (deliveries_of db (cr_id c)) \<union>
      (if cr_id c = cid then named_ids cid ids db else {})"
  proof -
    have "filter (\<lambda>d. dr_consumer_id d = i) (map (redriven_row cid v) mids)
        = (if i = cid then map (redriven_row cid v) mids else [])" for i
      by (induction mids) (simp_all add: redriven_row_def)
    then show ?thesis
      using mids by (simp add: deliveries_of_def image_Un image_image) (simp add: redriven_row_def)
  qed
  have "archives_of ?db (cr_id c) = filter (\<lambda>a. \<not> redrive_clause cid ids a) (archives_of db (cr_id c))"
    by (simp add: archives_of_def conj_commute)
  moreover have "ar_message_id ` set (filter (redrive_clause cid ids) (archives_of db (cr_id c)))
      = (if cr_id c = cid then named_ids cid ids db else {})"
    by (auto simp: archives_of_def redrive_clause_def named_ids_def)
  ultimately have arch: "ar_message_id ` set (archives_of ?db (cr_id c)) = ar_message_id ` set (archives_of db (cr_id c)) -
      (if cr_id c = cid then named_ids cid ids db else {})"
    using archived_removed [OF db_invD(4) [OF inv], of "redrive_clause cid ids" "cr_id c"] by simp
  have "owed ?db c = owed db c \<union> (if cr_id c = cid then named_ids cid ids db else {})"
    unfolding owed_def un del by auto
  with arch show "Some (inbox_of ?db c) = apply_event (Restored cid (named_ids cid ids db)) (inboxes db) (cr_id c)"
    unfolding apply_event.simps
    by (intro row_update [OF db_invD(2) [OF inv] c]) (simp add: inbox_of_def)
qed (simp_all add: update_inbox_None)

definition purged_db :: "int \<Rightarrow> int \<Rightarrow> int \<Rightarrow> database \<Rightarrow> database" where
  "purged_db cid before_ms limit db = db\<lparr>t_archives :=
     filter (\<lambda>a. ar_id a \<notin> set (old_archive_ids db cid before_ms limit)) (t_archives db)\<rparr>"

definition purged_ids :: "int \<Rightarrow> int \<Rightarrow> int \<Rightarrow> database \<Rightarrow> int set" where
  "purged_ids cid before_ms limit db =
     ar_message_id ` {a \<in> set (t_archives db). ar_id a \<in> set (old_archive_ids db cid before_ms limit)}"

lemma old_archive_ids_in:
  "i \<in> set (old_archive_ids db cid before_ms limit) \<Longrightarrow>
     \<exists>a \<in> set (t_archives db). ar_id a = i \<and> ar_consumer_id a = cid \<and> ar_archived_at a < before_ms"
  unfolding old_archive_ids_def using set_take_subset by fastforce

lemma old_archive_owner:
  assumes inv: "archives_inv db" and a: "a \<in> set (t_archives db)" "ar_id a \<in> set (old_archive_ids db cid t n)"
  shows "ar_consumer_id a = cid"
proof -
  obtain b where b: "b \<in> set (t_archives db)" "ar_id b = ar_id a" "ar_consumer_id b = cid"
    using old_archive_ids_in [OF a(2)] by blast
  have "distinct (map ar_id (t_archives db))" using inv by (simp add: archives_inv_def strict_sorted_iff)
  from distinct_map_inj [OF this b(1) a(1) b(2)] b(3) show ?thesis by simp
qed

lemma purge_statement_eq:
  "purge_archives_statement cid before_ms limit db =
     Inr (length (filter (\<lambda>a. ar_id a \<in> set (old_archive_ids db cid before_ms limit)) (t_archives db)),
          purged_db cid before_ms limit db)"
  by (simp add: purge_archives_statement_def delete_archives_def purged_db_def)

lemma inboxes_purged:
  assumes inv: "db_inv db"
  shows "inboxes (purged_db cid t n db) = apply_event (Discarded cid (purged_ids cid t n db)) (inboxes db)"
proof (rule inboxes_same_consumers [OF db_invD(2) [OF inv]])
  let ?db = "purged_db cid t n db" and ?old = "old_archive_ids db cid t n"
  fix c assume c: "c \<in> set (t_consumers db)"
  have un: "unscanned ?db c = unscanned db c" by (rule unscanned_cong) (simp add: purged_db_def)
  have "ar_consumer_id a = cid" if "a \<in> set (t_archives db)" "ar_id a \<in> set ?old" for a
    by (rule old_archive_owner [OF db_invD(4) [OF inv] that])
  then have "ar_message_id ` set (filter (\<lambda>a. ar_id a \<in> set ?old) (archives_of db (cr_id c)))
      = (if cr_id c = cid then purged_ids cid t n db else {})"
    by (auto simp: archives_of_def purged_ids_def)
  moreover have "archives_of ?db (cr_id c) = filter (\<lambda>a. \<not> ar_id a \<in> set ?old) (archives_of db (cr_id c))"
    by (simp add: archives_of_def purged_db_def conj_commute)
  ultimately have "ar_message_id ` set (archives_of ?db (cr_id c)) = ar_message_id ` set (archives_of db (cr_id c)) -
      (if cr_id c = cid then purged_ids cid t n db else {})"
    using archived_removed [OF db_invD(4) [OF inv], of "\<lambda>a. ar_id a \<in> set ?old" "cr_id c"] by simp
  moreover have "owed ?db c = owed db c"
    unfolding owed_def un by (simp add: deliveries_of_def purged_db_def)
  ultimately show "Some (inbox_of ?db c) = apply_event (Discarded cid (purged_ids cid t n db)) (inboxes db) (cr_id c)"
    unfolding apply_event.simps
    by (intro row_update [OF db_invD(2) [OF inv] c]) (simp add: inbox_of_def)
qed (simp_all add: update_inbox_None purged_db_def)

subsection \<open>Retention\<close>

lemma inboxes_pruned:
  assumes inv: "db_inv db"
  shows "inboxes (pruned_db t n db) = inboxes db"
proof -
  let ?db = "pruned_db t n db"
  have "inboxes ?db = apply_event Quiet (inboxes db)"
  proof (rule inboxes_same_consumers [OF db_invD(2) [OF inv]])
    fix c assume c: "c \<in> set (t_consumers db)"
    have dist: "distinct (map mr_id (t_messages db))"
      using db_invD(1) [OF inv] by (simp add: messages_inv_def strict_sorted_iff)
    have "mr_id m \<notin> set (prune_ids db t n)" if "m \<in> set (t_messages db)" "ahead_of c m" for m
    proof
      assume "mr_id m \<in> set (prune_ids db t n)"
      then obtain m' where "m' \<in> set (t_messages db)" "mr_id m' = mr_id m" "prunable db t m'"
        using prune_ids_in by blast
      with that c show False
        using distinct_map_inj [OF dist, of m' m] by (auto simp: prunable_def)
    qed
    then have un: "unscanned ?db c = unscanned db c"
      unfolding unscanned_ahead by (auto simp: pruned_db_def intro!: filter_cong)
    show "Some (inbox_of ?db c) = apply_event Quiet (inboxes db) (cr_id c)"
      using inboxes_row [OF db_invD(2) [OF inv] c]
      by (simp add: inbox_of_def owed_def un) (simp add: pruned_db_def deliveries_of_def archives_of_def)
  qed (simp_all add: pruned_db_def)
  then show ?thesis by simp
qed

lemma inboxes_without:
  assumes inv: "db_inv db"
  shows "inboxes (without_consumer cid db) = apply_event (Removed cid) (inboxes db)"
proof
  fix i
  let ?db = "without_consumer cid db"
  have rows: "find (\<lambda>c. cr_id c = i) (filter (\<lambda>c. cr_id c \<noteq> cid) cs)
      = (if i = cid then None else find (\<lambda>c. cr_id c = i) cs)" for cs
    by (induction cs) auto
  have "t_consumers ?db = filter (\<lambda>c. cr_id c \<noteq> cid) (t_consumers db)"
    by (simp add: without_consumer_def)
  then have find: "find_consumer i ?db = (if i = cid then None else find_consumer i db)"
    unfolding find_consumer_def by (simp only: rows)
  have "inbox_of ?db c = inbox_of db c" if "cr_id c \<noteq> cid" for c
  proof -
    have "unscanned ?db c = unscanned db c" by (rule unscanned_cong) (simp add: without_consumer_def)
    moreover have "deliveries_of ?db (cr_id c) = deliveries_of db (cr_id c)"
      "archives_of ?db (cr_id c) = archives_of db (cr_id c)"
      using that by (auto simp: deliveries_of_def archives_of_def without_consumer_def intro!: filter_cong)
    ultimately show ?thesis by (simp add: inbox_of_def owed_def)
  qed
  moreover have "cr_id c = i" if "find_consumer i db = Some c" for c
    using that find_consumer_Some [OF db_invD(2) [OF inv]] by blast
  ultimately show "inboxes ?db i = apply_event (Removed cid) (inboxes db) i"
    by (cases "find_consumer i db") (auto simp: inboxes_def find)
qed

subsection \<open>The life of a consumer\<close>

definition created_db :: "utf8 \<Rightarrow> utf8 option \<Rightarrow> int \<Rightarrow> database \<Rightarrow> database" where
  "created_db name flt t db = db\<lparr>t_consumers := t_consumers db @ [new_consumer_row name flt t db],
     seq_consumers := seq_consumers db + 1\<rparr>"

text \<open>A new consumer starts after everything retained: it is owed nothing.\<close>

lemma inboxes_created:
  assumes inv: "db_inv db"
  shows "inboxes (created_db name flt t db) = apply_event (Created (seq_consumers db + 1) flt) (inboxes db)"
proof
  fix i
  let ?db = "created_db name flt t db" and ?c = "new_consumer_row name flt t db"
  have id: "cr_id ?c = seq_consumers db + 1" by (simp add: new_consumer_row_def)
  have fresh: "cr_id c \<noteq> seq_consumers db + 1" if "c \<in> set (t_consumers db)" for c
    using that db_invD(2) [OF inv] by (fastforce simp: consumers_inv_def consumer_row_inv_def)
  have same: "inbox_of ?db c = inbox_of db c" for c
    using unscanned_cong [of ?db db c]
    by (simp add: inbox_of_def owed_def created_db_def deliveries_of_def archives_of_def)
  have none: "find_consumer (seq_consumers db + 1) db = None"
    using fresh by (force simp: find_consumer_None)
  have find: "find_consumer i ?db = (if i = seq_consumers db + 1 then Some ?c else find_consumer i db)"
  proof (cases "i = seq_consumers db + 1")
    case True
    then show ?thesis using none id by (simp add: find_consumer_def created_db_def find_append_None)
  next
    case False
    have "find p (xs @ [x]) = find p xs" if "\<not> p x" for p xs and x :: consumer_row
      using that by (induction xs) auto
    with False id show ?thesis by (simp add: find_consumer_def created_db_def)
  qed
  have "unscanned db ?c = []"
    by (simp add: unscanned_ahead ahead_of_def new_consumer_row_def filter_empty_conv high_water_ge not_less)
  moreover have "deliveries_of db (seq_consumers db + 1) = []" "archives_of db (seq_consumers db + 1) = []"
    using db_invD(3,4) [OF inv] fresh passed_parents
    by (fastforce simp: deliveries_of_def archives_of_def filter_empty_conv deliveries_inv_def archives_inv_def)+
  ultimately have "inbox_of db ?c = \<lparr>ib_filter = flt, ib_accepting = True, ib_owed = {}, ib_archived = {}\<rparr>"
    by (simp add: inbox_of_def owed_def id) (simp add: new_consumer_row_def)
  then show "inboxes ?db i = apply_event (Created (seq_consumers db + 1) flt) (inboxes db) i"
    using same by (cases "find_consumer i db") (simp_all add: inboxes_def find)
qed

definition drained_db :: "int \<Rightarrow> int \<Rightarrow> database \<Rightarrow> database" where
  "drained_db cid t db = db\<lparr>t_consumers := map (\<lambda>c. if cr_id c = cid \<and> cr_draining_at c = None
     then drain_row t (high_water db) c else c) (t_consumers db)\<rparr>"

text \<open>Freezing the boundary keeps what is owed: the boundary is the high water mark or beyond.\<close>

lemma inboxes_drained:
  assumes inv: "db_inv db"
  shows "inboxes (drained_db cid t db) = apply_event (Frozen cid) (inboxes db)"
proof
  fix i
  let ?db = "drained_db cid t db"
  let ?f = "\<lambda>c. if cr_id c = cid \<and> cr_draining_at c = None then drain_row t (high_water db) c else c"
  have find: "find_consumer i ?db = map_option ?f (find_consumer i db)"
    unfolding drained_db_def by (rule find_consumer_map) (simp add: drain_row_def)
  have row: "inbox_of ?db (?f c) = (if cr_id c = cid then (inbox_of db c)\<lparr>ib_accepting := False\<rparr> else inbox_of db c)"
    if c: "c \<in> set (t_consumers db)" for c
  proof -
    have same: "inbox_of ?db x = inbox_of db x" for x
      using unscanned_cong [of ?db db x]
      by (simp add: inbox_of_def owed_def drained_db_def deliveries_of_def archives_of_def)
    have "unscanned db (drain_row t (high_water db) c) = unscanned db c" if "cr_draining_at c = None"
    proof -
      have "cr_drain_cursor c = None"
        using that c db_invD(2) [OF inv] by (simp add: consumers_inv_def consumer_row_inv_def)
      then show ?thesis
        unfolding unscanned_ahead
        by (intro filter_cong) (auto simp: ahead_of_def drain_row_def high_water_ge le_max_iff_disj)
    qed
    then show ?thesis
      unfolding same by (auto simp: inbox_of_def owed_def drain_row_def)
  qed
  show "inboxes ?db i = apply_event (Frozen cid) (inboxes db) i"
  proof (cases "find_consumer i db")
    case None
    then show ?thesis by (auto simp: inboxes_def find update_inbox_def)
  next
    case (Some c)
    then have "c \<in> set (t_consumers db)" "cr_id c = i" using find_consumer_Some [OF db_invD(2) [OF inv]] by auto
    then show ?thesis
      using row [of c] Some by (auto simp: inboxes_def find update_inbox_def)
  qed
qed

subsection \<open>The archives of one batch\<close>

lemma exclusive_keys:
  assumes "db_inv db" and "d \<in> set (t_deliveries db)" and "a \<in> set (t_archives db)"
    and "ar_consumer_id a = dr_consumer_id d"
  shows "dr_message_id d \<noteq> ar_message_id a"
proof
  assume "dr_message_id d = ar_message_id a"
  then have "dr_key d = ar_key a" using assms(4) by (simp add: dr_key_def ar_key_def)
  then show False using db_invD(6) [OF assms(1)] assms(2,3) by (force simp: exclusive_def)
qed

lemma named_archived:
  assumes inv: "db_inv db"
  shows "named_ids cid (map ArchiveId [seq_archives db + 1..seq_archives db + int (length (archived_leases cid rs db))])
      (archived_db cid rs t detail db) = held_ids cid rs db"
proof -
  let ?new = "archive_rows t detail (seq_archives db) (archived_leases cid rs db)"
  let ?ids = "[seq_archives db + 1..seq_archives db + int (length (archived_leases cid rs db))]"
  have old: "ar_id a \<notin> set ?ids" if "a \<in> set (t_archives db)" for a
    using that db_invD(4) [OF inv] by (auto simp: archives_inv_def)
  have "set (map ar_id ?new) = set ?ids" by (simp add: map_archive_rows)
  then have new: "ar_id a \<in> set ?ids" if "a \<in> set ?new" for a using that by auto
  have "set (filter (redrive_clause cid (map ArchiveId ?ids)) (t_archives (archived_db cid rs t detail db)))
      = set (filter (\<lambda>a. ar_consumer_id a = cid) ?new)"
    using old new by (auto simp: redrive_clause_def comp_def)
  then have "named_ids cid (map ArchiveId ?ids) (archived_db cid rs t detail db)
      = ar_message_id ` set (filter (\<lambda>a. ar_consumer_id a = cid) ?new)"
    unfolding named_ids_def by simp
  also have "\<dots> = held_ids cid rs db"
    unfolding archived_ids_rows
    by (auto simp: set_archived_leases held_ids_def archived_lease_from_row_def receipt_clause_def image_iff)
  finally show ?thesis .
qed

subsection \<open>Counting and pruning in terms of the inboxes\<close>

lemma outstanding_owed:
  assumes inv: "db_inv db" and c: "c \<in> set (t_consumers db)"
  shows "outstanding_of db c = card (owed db c)"
proof -
  have "distinct (map dr_message_id (deliveries_of db (cr_id c)))"
    using db_invD(3) [OF inv]
    by (auto simp: deliveries_inv_def deliveries_of_def distinct_map dr_key_def inj_on_def)
  then have d: "card (dr_message_id ` set (deliveries_of db (cr_id c))) = length (deliveries_of db (cr_id c))"
    by (metis distinct_card length_map set_map)
  have "distinct (map mr_id (unscanned db c))"
    using unscanned_sorted [OF db_invD(1) [OF inv], of c] by (rule strict_sorted_distinct)
  then have u: "card (mr_id ` set (unscanned db c)) = length (unscanned db c)"
    by (metis distinct_card length_map set_map)
  have "dr_message_id d \<noteq> mr_id m" if "d \<in> set (deliveries_of db (cr_id c))" "m \<in> set (unscanned db c)" for d m
    using deliveries_behind [OF inv _ c, of d] unscanned_bounds [OF that(2)] that(1)
    by (auto simp: deliveries_of_def)
  then have "dr_message_id ` set (deliveries_of db (cr_id c)) \<inter> mr_id ` set (unscanned db c) = {}" by blast
  then show ?thesis by (simp add: outstanding_of_def owed_def card_Un_disjoint d u)
qed

lemma prunable_unreferenced:
  assumes inv: "db_inv db" and m: "m \<in> set (t_messages db)"
  shows "prunable db t m \<longleftrightarrow> mr_published_at m < t \<and>
    (\<forall>cid b. inboxes db cid = Some b \<longrightarrow> mr_id m \<notin> ib_owed b \<and> mr_id m \<notin> ib_archived b)"
proof -
  have ahead: "mr_id m \<in> mr_id ` set (unscanned db c) \<longleftrightarrow> ahead_of c m" for c
  proof -
    have "x = m" if "x \<in> set (t_messages db)" "mr_id x = mr_id m" for x
      using that m db_invD(1) [OF inv] distinct_map_inj [of mr_id "t_messages db" x m]
      by (simp add: messages_inv_def strict_sorted_distinct)
    then show ?thesis using m by (force simp: ahead_of_unscanned [symmetric])
  qed
  have owner: "\<exists>c \<in> set (t_consumers db). cr_id c = cid" if "passed db cid mid" for cid mid
    using that by (auto simp: passed_def)
  have boxes: "(\<forall>cid b. inboxes db cid = Some b \<longrightarrow> P b) \<longleftrightarrow> (\<forall>c \<in> set (t_consumers db). P (inbox_of db c))" for P
    using inboxes_Some [OF db_invD(2) [OF inv]] by metis
  have d: "\<exists>c \<in> set (t_consumers db). d \<in> set (deliveries_of db (cr_id c))" if in_table: "d \<in> set (t_deliveries db)" for d
  proof -
    have "passed db (dr_consumer_id d) (dr_message_id d)"
      using in_table db_invD(3) [OF inv] by (simp add: deliveries_inv_def)
    from owner [OF this] obtain c where "c \<in> set (t_consumers db)" "cr_id c = dr_consumer_id d" by blast
    then show ?thesis using in_table by (intro bexI [of _ c]) (simp_all add: deliveries_of_def)
  qed
  have "(\<exists>d \<in> set (t_deliveries db). dr_message_id d = mr_id m) \<longleftrightarrow>
      (\<exists>c \<in> set (t_consumers db). mr_id m \<in> dr_message_id ` set (deliveries_of db (cr_id c)))" (is "?l \<longleftrightarrow> ?r")
  proof
    show "?l \<Longrightarrow> ?r" using d by force
  qed (auto simp: deliveries_of_def)
  moreover have a: "\<exists>c \<in> set (t_consumers db). a \<in> set (archives_of db (cr_id c))" if in_table: "a \<in> set (t_archives db)" for a
  proof -
    have "passed db (ar_consumer_id a) (ar_message_id a)"
      using in_table db_invD(4) [OF inv] by (simp add: archives_inv_def)
    from owner [OF this] obtain c where "c \<in> set (t_consumers db)" "cr_id c = ar_consumer_id a" by blast
    then show ?thesis using in_table by (intro bexI [of _ c]) (simp_all add: archives_of_def)
  qed
  have "(\<exists>a \<in> set (t_archives db). ar_message_id a = mr_id m) \<longleftrightarrow>
      (\<exists>c \<in> set (t_consumers db). mr_id m \<in> ar_message_id ` set (archives_of db (cr_id c)))" (is "?l' \<longleftrightarrow> ?r'")
  proof
    show "?l' \<Longrightarrow> ?r'" using a by force
  qed (auto simp: archives_of_def)
  moreover have "(\<exists>c \<in> set (t_consumers db). ahead_of c m) \<longleftrightarrow>
      (\<exists>c \<in> set (t_consumers db). mr_id m \<in> mr_id ` set (unscanned db c))"
    by (simp only: ahead)
  ultimately show ?thesis
    unfolding prunable_def boxes inbox_of_def owed_def inbox.simps Un_iff by blast
qed

end
