(* ===== verification/Polling.thy ===== *)
theory Polling
  imports Claiming
begin

text \<open>
  \<open>Consumer::poll\<close> of \<open>consumer.rs\<close>: claim, and while nothing is there wait for a signal, the
  next deadline, the poll interval or the end of the caller's patience. Every turn of the
  loop takes one \<open>tick\<close>: the clocks it reads, what others commit inside the claim, and what
  happens in the process from then on until \<open>select!\<close> wakes the loop up. The loop runs over
  a list of ticks; \<open>None\<close> is a poll still waiting when the list ends. The monotonic clock
  \<open>Instant\<close> counts nanoseconds, and \<open>horizon\<close> is its largest value.

  The senders of both watch channels are held by the handle itself, so \<open>changed\<close> never fails.
\<close>

record tick =
  tk_clock :: clock
  tk_others1 :: "database \<Rightarrow> database"
  tk_others2 :: "database \<Rightarrow> database"
  tk_instant :: nat
  tk_until_clock :: clock
  tk_meanwhile :: "litefan \<Rightarrow> litefan"

type_synonym receivers = "receiver \<times> receiver"

definition watch_of :: "litefan \<Rightarrow> nat \<Rightarrow> watch" where
  "watch_of fan s = sh_watch (sg_heap (lf_signals fan)) s"

definition subscribe_both :: "consumer \<Rightarrow> litefan \<Rightarrow> receivers" where
  "subscribe_both self fan =
     (watch_subscribe (watch_of fan (co_publish_signal self)),
      watch_subscribe (watch_of fan (co_consumer_signal self)))"

definition update_both :: "consumer \<Rightarrow> litefan \<Rightarrow> receivers \<Rightarrow> receivers" where
  "update_both self fan = (\<lambda>(publishes, consumer_changes).
     (watch_borrow_and_update (watch_of fan (co_publish_signal self)) publishes,
      watch_borrow_and_update (watch_of fan (co_consumer_signal self)) consumer_changes))"

text \<open>A branch of \<open>select!\<close> other than the sleep is ready.\<close>

definition signalled :: "consumer \<Rightarrow> litefan \<Rightarrow> receivers \<Rightarrow> bool" where
  "signalled self fan = (\<lambda>(publishes, consumer_changes).
     watch_changed (watch_of fan (co_publish_signal self)) publishes \<or>
     watch_changed (watch_of fan (co_consumer_signal self)) consumer_changes)"

text \<open>\<open>Left\<close> ends the loop with a result, \<open>Right\<close> waits for at most the duration.\<close>

definition poll_turn :: "engine \<Rightarrow> consumer \<Rightarrow> nat \<Rightarrow> int \<Rightarrow> nat \<Rightarrow> tick \<Rightarrow> receivers \<Rightarrow> litefan
    \<Rightarrow> (delivery list outcome + duration \<times> receivers) \<times> litefan" where
  "poll_turn E self max_messages lease_ms deadline t receivers fan =
     (let receivers' = update_both self fan receivers in
      case claim E (tk_others1 t) (tk_others2 t) (tk_clock t) self max_messages lease_ms fan of
        (Inl e, fan') \<Rightarrow> (Inl (Inl e), fan')
      | (Inr claimed, fan') \<Rightarrow>
          if cl_deliveries claimed \<noteq> [] then (Inl (Inr (cl_deliveries claimed)), fan')
          else if cl_draining claimed \<and> cl_next_visible_at claimed = None then (Inl (Inr []), fan')
          else let remaining = deadline - tk_instant t in
            if remaining = 0 then (Inl (Inr []), fan')
            else let sleep_for = min remaining (lf_cross_process_poll_interval fan) in
              case cl_next_visible_at claimed of
                None \<Rightarrow> (Inr (sleep_for, receivers'), fan')
              | Some next_visible_at \<Rightarrow>
                  (case duration_until_ms (tk_until_clock t) next_visible_at of
                     Inl e \<Rightarrow> (Inl (Inl e), fan')
                   | Inr until_visible \<Rightarrow> (Inr (min sleep_for until_visible, receivers'), fan')))"

fun poll_loop :: "engine \<Rightarrow> consumer \<Rightarrow> nat \<Rightarrow> int \<Rightarrow> nat \<Rightarrow> tick list \<Rightarrow> receivers \<Rightarrow> litefan
    \<Rightarrow> delivery list outcome option \<times> litefan" where
  "poll_loop E self max_messages lease_ms deadline [] receivers fan = (None, fan)"
| "poll_loop E self max_messages lease_ms deadline (t # ts) receivers fan =
     (case poll_turn E self max_messages lease_ms deadline t receivers fan of
        (Inl result, fan') \<Rightarrow> (Some result, fan')
      | (Inr (sleep_for, receivers'), fan') \<Rightarrow>
          poll_loop E self max_messages lease_ms deadline ts receivers' (tk_meanwhile t fan'))"

text \<open>The checks before the loop: the lease in milliseconds and the deadline.\<close>

definition poll_setup :: "nat \<Rightarrow> nat \<Rightarrow> poll_opts \<Rightarrow> litefan \<Rightarrow> (int \<times> nat) outcome" where
  "poll_setup horizon start opts fan =
     and_then (ensure_batch_size fan (po_max_messages opts)) (\<lambda>_.
     and_then (duration_ms (po_visibility_timeout opts)) (\<lambda>lease_ms.
     if lease_ms = 0 then Inl InvalidVisibilityTimeout
     else if horizon < start + po_wait opts then Inl (InvalidPoll ''wait is too large'')
     else Inr (lease_ms, start + po_wait opts)))"

definition poll :: "engine \<Rightarrow> nat \<Rightarrow> nat \<Rightarrow> tick list \<Rightarrow> consumer \<Rightarrow> poll_opts \<Rightarrow> litefan
    \<Rightarrow> delivery list outcome option \<times> litefan" where
  "poll E horizon start ticks self opts fan =
     (if po_max_messages opts = 0 then (Some (Inr []), fan)
      else case poll_setup horizon start opts fan of
        Inl e \<Rightarrow> (Some (Inl e), fan)
      | Inr (lease_ms, deadline) \<Rightarrow>
          poll_loop E self (po_max_messages opts) lease_ms deadline ticks (subscribe_both self fan) fan)"

subsection \<open>Time\<close>

text \<open>A turn at or after the deadline ends the loop.\<close>

lemma poll_turn_deadline:
  assumes "deadline \<le> tk_instant t"
  shows "\<exists>r fan'. poll_turn E self n lease deadline t rs fan = (Inl r, fan')"
  using assms
  by (cases "claim E (tk_others1 t) (tk_others2 t) (tk_clock t) self n lease fan")
    (auto simp: poll_turn_def Let_def split: sum.splits)

text \<open>No wait is longer than the rest of the patience, the poll interval or the next deadline.\<close>

lemma poll_turn_wait:
  assumes "poll_turn E self n lease deadline t rs fan = (Inr (d, rs'), fan')"
  shows "d \<le> deadline - tk_instant t" and "d \<le> lf_cross_process_poll_interval fan"
    and "tk_instant t < deadline" and "rs' = update_both self fan rs"
  using assms
  by (auto simp: poll_turn_def Let_def split: sum.splits prod.splits if_splits option.splits)

lemma poll_loop_deadline:
  assumes "\<exists>t \<in> set ts. deadline \<le> tk_instant t"
  shows "\<exists>r fan'. poll_loop E self n lease deadline ts rs fan = (Some r, fan')"
  using assms
proof (induction ts arbitrary: rs fan)
  case (Cons t ts)
  obtain x fan1 where turn: "poll_turn E self n lease deadline t rs fan = (x, fan1)"
    by (cases "poll_turn E self n lease deadline t rs fan")
  show ?case
  proof (cases x)
    case (Inl r)
    with turn show ?thesis by simp
  next
    case (Inr y)
    obtain d rs' where y: "y = (d, rs')" by (cases y)
    have "\<not> deadline \<le> tk_instant t"
      using poll_turn_deadline [of deadline t E self n lease rs fan] turn Inr by auto
    then have "\<exists>t \<in> set ts. deadline \<le> tk_instant t" using Cons.prems by auto
    with Cons.IH turn Inr y show ?thesis by simp
  qed
qed simp

text \<open>The claim inside a turn.\<close>

lemma claim_batch_size:
  "claim E others1 others2 clk self n lease_ms fan = (r, fan') \<Longrightarrow> lf_max_batch_size fan' = lf_max_batch_size fan"
  by (auto simp: claim_def Let_def split: if_splits sum.splits prod.splits)

lemma poll_turn_claim:
  assumes "poll_turn E self n lease_ms deadline t receivers fan = (x, fan')"
  obtains r where "claim E (tk_others1 t) (tk_others2 t) (tk_clock t) self n lease_ms fan = (r, fan')"
    and "\<And>ds. x = Inl (Inr ds) \<Longrightarrow> ds \<noteq> [] \<Longrightarrow> \<exists>c. r = Inr c \<and> cl_deliveries c = ds"
  using assms
  by (cases "claim E (tk_others1 t) (tk_others2 t) (tk_clock t) self n lease_ms fan")
    (auto simp: poll_turn_def Let_def split: sum.splits if_splits option.splits)

subsection \<open>The invariant and the wake-ups\<close>

lemma poll_turn_inv:
  assumes E: "engine_ok E" and inv: "fan_inv fan" and n: "n \<le> lf_max_batch_size fan"
    and others: "\<And>db. db_inv db \<Longrightarrow> db_inv (tk_others1 t db)" "\<And>db. db_inv db \<Longrightarrow> db_inv (tk_others2 t db)"
    and run: "poll_turn E self n lease deadline t rs fan = (x, fan')"
  shows "fan_inv fan'"
proof -
  obtain r fan1 where cl: "claim E (tk_others1 t) (tk_others2 t) (tk_clock t) self n lease fan = (r, fan1)"
    by (cases "claim E (tk_others1 t) (tk_others2 t) (tk_clock t) self n lease fan")
  have "fan' = fan1"
    using run cl by (auto simp: poll_turn_def Let_def split: sum.splits if_splits option.splits)
  with claim_inv [OF E inv n others cl] show ?thesis by simp
qed

text \<open>After the turn has looked at its receivers, one notification of either signal wakes it.\<close>

lemma update_both_quiet: "\<not> signalled self fan (update_both self fan rs)"
  by (cases rs)
    (simp add: signalled_def update_both_def watch_changed_def watch_borrow_and_update_def)

lemma signalled_after:
  assumes "w_sends (watch_of fan (co_publish_signal self)) < w_sends (watch_of fan' (co_publish_signal self)) \<or>
      w_sends (watch_of fan (co_consumer_signal self)) < w_sends (watch_of fan' (co_consumer_signal self))"
  shows "signalled self fan' (update_both self fan rs)"
  using assms
  by (cases rs)
    (auto simp: signalled_def update_both_def watch_changed_def watch_borrow_and_update_def)

end
