(* ===== verification/Catalog.thy ===== *)
theory Catalog
  imports Api
begin

text \<open>
  The schema script of \<open>schema.rs\<close> as the sequence of its statements, run on the catalog of a
  database file: the names of its tables, with their columns, and of its indexes. Each statement commits
  by itself, so a script that fails leaves what it has created until then. Column
  types and constraints act on rows and are in \<open>Schema\<close>.
\<close>

datatype schema_object = TableObject "utf8 list" | IndexObject

type_synonym catalog = "utf8 \<rightharpoonup> schema_object"

datatype schema_statement = CreateTable utf8 "utf8 list" | CreateIndex utf8 utf8 "utf8 list"

definition schema_script :: "schema_statement list" where
  "schema_script =
     [CreateTable ''litefan_messages'' [''id'', ''topic'', ''body'', ''published_at''],
      CreateIndex ''litefan_messages_topic'' ''litefan_messages'' [''topic'', ''id''],
      CreateTable ''litefan_idempotency'' [''key'', ''message_id'', ''expires_at''],
      CreateIndex ''litefan_idempotency_expiry'' ''litefan_idempotency'' [''expires_at''],
      CreateTable ''litefan_consumers''
        [''id'', ''name'', ''topic_filter'', ''created_at'', ''draining_at'', ''scan_cursor'', ''drain_cursor''],
      CreateTable ''litefan_deliveries''
        [''consumer_id'', ''message_id'', ''visible_at'', ''generation'', ''delivery_count''],
      CreateIndex ''litefan_deliveries_visible'' ''litefan_deliveries'' [''consumer_id'', ''visible_at'', ''message_id''],
      CreateIndex ''litefan_deliveries_message'' ''litefan_deliveries'' [''message_id''],
      CreateTable ''litefan_archived_deliveries''
        [''id'', ''consumer_id'', ''message_id'', ''archived_at'', ''delivery_count'', ''last_generation'', ''detail''],
      CreateIndex ''litefan_archives_consumer'' ''litefan_archived_deliveries'' [''consumer_id'', ''archived_at'', ''id''],
      CreateIndex ''litefan_archives_message'' ''litefan_archived_deliveries'' [''message_id'']]"

text \<open>
  \<open>IF NOT EXISTS\<close>: a table that exists stays as it is, with whatever columns, and so does an
  index. Tables and indexes share their names; an index needs its table and columns.
\<close>

fun run_statement :: "schema_statement \<Rightarrow> catalog \<Rightarrow> catalog outcome" where
  "run_statement (CreateTable name columns) cat =
     (case cat name of
        None \<Rightarrow> Inr (cat(name \<mapsto> TableObject columns))
      | Some (TableObject _) \<Rightarrow> Inr cat
      | Some IndexObject \<Rightarrow> Inl (Sqlx SqlLogicError))"
| "run_statement (CreateIndex name table columns) cat =
     (case cat table of
        Some (TableObject present) \<Rightarrow>
          (case cat name of
             Some (TableObject _) \<Rightarrow> Inl (Sqlx SqlLogicError)
           | Some IndexObject \<Rightarrow> Inr cat
           | None \<Rightarrow> if set columns \<subseteq> set present then Inr (cat(name \<mapsto> IndexObject))
                     else Inl (Sqlx SqlLogicError))
      | _ \<Rightarrow> Inl (Sqlx SqlLogicError))"

fun run_script :: "schema_statement list \<Rightarrow> catalog \<Rightarrow> unit outcome \<times> catalog" where
  "run_script [] cat = (Inr (), cat)"
| "run_script (s # ss) cat =
     (case run_statement s cat of Inl e \<Rightarrow> (Inl e, cat) | Inr cat' \<Rightarrow> run_script ss cat')"

text \<open>\<open>SELECT columns FROM table LIMIT 0\<close> succeeds.\<close>

definition probe :: "utf8 \<Rightarrow> utf8 list \<Rightarrow> catalog \<Rightarrow> bool" where
  "probe table columns cat =
     (case cat table of Some (TableObject present) \<Rightarrow> set columns \<subseteq> set present | _ \<Rightarrow> False)"

subsection \<open>What the script does\<close>

text \<open>The name and the object of a statement, and when the statement succeeds.\<close>

fun object_of :: "schema_statement \<Rightarrow> utf8 \<times> schema_object" where
  "object_of (CreateTable name columns) = (name, TableObject columns)"
| "object_of (CreateIndex name table columns) = (name, IndexObject)"

fun succeeds :: "schema_statement \<Rightarrow> catalog \<Rightarrow> bool" where
  "succeeds (CreateTable name columns) cat \<longleftrightarrow> cat name \<noteq> Some IndexObject"
| "succeeds (CreateIndex name table columns) cat \<longleftrightarrow>
     (case cat table of Some (TableObject present) \<Rightarrow>
          cat name = Some IndexObject \<or> cat name = None \<and> set columns \<subseteq> set present
      | _ \<Rightarrow> False)"

lemma run_statement_eq:
  "run_statement s cat = (if succeeds s cat then Inr ([fst (object_of s) \<mapsto> snd (object_of s)] ++ cat)
     else Inl (Sqlx SqlLogicError))"
  by (cases s) (auto simp: map_add_def fun_eq_iff split: option.splits schema_object.splits)

fun succeed :: "schema_statement list \<Rightarrow> catalog \<Rightarrow> bool" where
  "succeed [] cat \<longleftrightarrow> True"
| "succeed (s # ss) cat \<longleftrightarrow> succeeds s cat \<and> succeed ss ([fst (object_of s) \<mapsto> snd (object_of s)] ++ cat)"

text \<open>A script that runs through adds its objects where the names are free, and any script only adds.\<close>

lemma run_script_result:
  "fst (run_script ss cat) = (if succeed ss cat then Inr () else Inl (Sqlx SqlLogicError))"
  by (induction ss arbitrary: cat) (simp_all add: run_statement_eq)

lemma run_script_catalog:
  "succeed ss cat \<Longrightarrow> distinct (map (fst \<circ> object_of) ss) \<Longrightarrow> snd (run_script ss cat) = map_of (map object_of ss) ++ cat"
proof (induction ss arbitrary: cat)
  case (Cons s ss)
  then have "snd (run_script (s # ss) cat) = map_of (map object_of ss) ++ ([fst (object_of s) \<mapsto> snd (object_of s)] ++ cat)"
    by (simp add: run_statement_eq)
  also have "\<dots> = map_of (map object_of (s # ss)) ++ cat"
  proof -
    have "map_of (map object_of ss) (fst (object_of s)) = None"
      using Cons.prems(2) by (auto simp: map_of_eq_None_iff image_iff)
    then show ?thesis by (cases "object_of s") (auto simp: map_add_def fun_eq_iff split: option.splits)
  qed
  finally show ?case .
qed simp

lemma run_script_adds: "cat \<subseteq>\<^sub>m snd (run_script ss cat)"
proof (induction ss arbitrary: cat)
  case (Cons s ss)
  have "cat \<subseteq>\<^sub>m [fst (object_of s) \<mapsto> snd (object_of s)] ++ cat" by simp
  from map_le_trans [OF this Cons.IH] show ?case by (simp add: run_statement_eq)
qed simp

definition schema_objects :: catalog where
  "schema_objects = map_of (map object_of schema_script)"

text \<open>
  When the script runs through, told from the catalog it starts on: no name of a table is
  taken by an index, and every index is there or can be made.
\<close>

fun fits :: "schema_statement \<Rightarrow> catalog \<Rightarrow> bool" where
  "fits (CreateTable name columns) cat \<longleftrightarrow> cat name \<noteq> Some IndexObject"
| "fits (CreateIndex name table columns) cat \<longleftrightarrow>
     cat name = Some IndexObject \<or>
     cat name = None \<and> (case cat table of Some (TableObject present) \<Rightarrow> set columns \<subseteq> set present | _ \<Rightarrow> True)"

definition script_fits :: "catalog \<Rightarrow> bool" where
  "script_fits cat \<longleftrightarrow> list_all (\<lambda>s. fits s cat) schema_script"

text \<open>A script that makes each object once, and an index only on columns of a table it has made before.\<close>

fun well_ordered :: "schema_statement list \<Rightarrow> catalog \<Rightarrow> bool" where
  "well_ordered [] made \<longleftrightarrow> True"
| "well_ordered (s # ss) made \<longleftrightarrow>
     made (fst (object_of s)) = None \<and> well_ordered ss (made(fst (object_of s) \<mapsto> snd (object_of s))) \<and>
     (case s of CreateTable _ _ \<Rightarrow> True
      | CreateIndex _ table columns \<Rightarrow>
          (case made table of Some (TableObject present) \<Rightarrow> set columns \<subseteq> set present | _ \<Rightarrow> False))"

lemma well_ordered_succeeds:
  assumes "well_ordered ss made" and "\<And>table columns. made table = Some (TableObject columns) \<Longrightarrow> cat table \<noteq> Some IndexObject"
  shows "succeed ss (made ++ cat) \<longleftrightarrow> list_all (\<lambda>s. fits s cat) ss"
  using assms
proof (induction ss arbitrary: made)
  case (Cons s ss)
  have new: "made (fst (object_of s)) = None" using Cons.prems(1) by simp
  have "succeeds s (made ++ cat) \<longleftrightarrow> fits s cat"
    using Cons.prems new
    by (cases s) (auto simp: map_add_def split: option.splits schema_object.splits)
  moreover have "succeed ss (made(fst (object_of s) \<mapsto> snd (object_of s)) ++ cat) \<longleftrightarrow> list_all (\<lambda>s. fits s cat) ss"
    if fit: "fits s cat"
  proof (rule Cons.IH)
    show "well_ordered ss (made(fst (object_of s) \<mapsto> snd (object_of s)))" using Cons.prems(1) by simp
    fix table columns assume "(made(fst (object_of s) \<mapsto> snd (object_of s))) table = Some (TableObject columns)"
    then show "cat table \<noteq> Some IndexObject"
      using fit Cons.prems(2) [of table columns] by (cases s) (simp_all split: if_split_asm)
  qed
  moreover have "[fst (object_of s) \<mapsto> snd (object_of s)] ++ (made ++ cat) = made(fst (object_of s) \<mapsto> snd (object_of s)) ++ cat"
    using new by (auto simp: map_add_def fun_eq_iff split: option.splits)
  ultimately show ?case by auto
qed simp

lemma schema_script_succeeds: "succeed schema_script cat \<longleftrightarrow> script_fits cat"
proof -
  have "well_ordered schema_script Map.empty" by (simp add: schema_script_def)
  from well_ordered_succeeds [OF this, of cat] show ?thesis by (simp add: script_fits_def)
qed

lemma schema_script_distinct: "distinct (map (fst \<circ> object_of) schema_script)"
  by (simp add: schema_script_def)

lemmas schema_script_catalog =
  run_script_catalog [OF _ schema_script_distinct, folded schema_objects_def, unfolded schema_script_succeeds]
lemmas schema_script_result = run_script_result [of schema_script, unfolded schema_script_succeeds]

text \<open>Once the script has run through, it does nothing more.\<close>

lemma probe_added:
  "probe table columns (map_of (map object_of ss) ++ cat) \<longleftrightarrow>
     (case cat table of Some _ \<Rightarrow> probe table columns cat | None \<Rightarrow> probe table columns (map_of (map object_of ss)))"
  by (auto simp: probe_def map_add_def split: option.splits)

lemma fits_again:
  assumes "fits s cat" and "made (fst (object_of s)) = Some (snd (object_of s))"
  shows "fits s (made ++ cat)"
  using assms by (cases s) (auto simp: map_add_def split: option.splits)

lemma script_fits_again: "script_fits cat \<Longrightarrow> script_fits (schema_objects ++ cat)"
proof -
  have "schema_objects (fst (object_of s)) = Some (snd (object_of s))" if "s \<in> set schema_script" for s
    unfolding schema_objects_def by (rule map_of_is_SomeI) (use that schema_script_distinct in \<open>auto simp: o_def\<close>)
  then show "script_fits cat \<Longrightarrow> script_fits (schema_objects ++ cat)"
    by (auto simp only: script_fits_def list_all_iff intro: fits_again)
qed

end
