(* ===== verification/Opening.thy ===== *)
theory Opening
  imports Litefan Catalog
begin

text \<open>
  \<open>LiteFan::open_with_config\<close> of \<open>store.rs\<close> on a database file: the configuration check, the
  gate on \<open>PRAGMA user_version\<close>, the schema script, which creates what is missing, and the
  two probes for the columns of an older layout. The file is its version, the catalog of its
  tables and indexes, and the rows; the options of the connection pool are not modelled.
\<close>

record db_file =
  fl_user_version :: int
  fl_catalog :: catalog
  fl_database :: database

text \<open>A file that does not exist yet is created empty: version 0, no table and no row.\<close>

definition missing_file :: db_file where
  "missing_file = \<lparr>fl_user_version = 0, fl_catalog = Map.empty, fl_database = empty_database\<rparr>"

definition open_with_config :: "config \<Rightarrow> db_file \<Rightarrow> litefan outcome \<times> db_file" where
  "open_with_config config file =
     (case validate_config config of
        Inl e \<Rightarrow> (Inl e, file)
      | Inr _ \<Rightarrow>
        (case ok_or (i64_try_from (int (as_millis (cfg_idempotency_window config))))
            (InvalidConfig ''idempotency_window must fit in SQLite milliseconds'') of
           Inl e \<Rightarrow> (Inl e, file)
         | Inr idempotency_window_ms \<Rightarrow>
             if schema_version < fl_user_version file then
               (Inl (UnsupportedSchemaVersion (fl_user_version file) schema_version), file)
             else
               (case run_script schema_script (fl_catalog file) of
                  (Inl e, cat) \<Rightarrow> (Inl e, file\<lparr>fl_catalog := cat\<rparr>)
                | (Inr _, cat) \<Rightarrow>
                    if \<not> probe ''litefan_consumers'' [''scan_cursor'', ''drain_cursor''] cat then
                      (Inl IncompatibleSchema, file\<lparr>fl_catalog := cat\<rparr>)
                    else if \<not> probe ''litefan_archived_deliveries'' [''consumer_id'', ''message_id'', ''detail''] cat then
                      (Inl IncompatibleSchema, file\<lparr>fl_catalog := cat\<rparr>)
                    else
                      (Inr \<lparr>lf_pool = fl_database file,
                            lf_max_batch_size = cfg_max_batch_size config,
                            lf_cross_process_poll_interval = cfg_cross_process_poll_interval config,
                            lf_idempotency_window_ms = idempotency_window_ms,
                            lf_signals = signals_new\<rparr>,
                       file\<lparr>fl_user_version := if fl_user_version file < schema_version then schema_version
                                               else fl_user_version file,
                            fl_catalog := cat\<rparr>))))"

definition open_default :: "db_file \<Rightarrow> litefan outcome \<times> db_file" where
  "open_default file = open_with_config default_config file"

subsection \<open>The gates, told from the file as it was found\<close>

text \<open>
  The tables that the file already has carry the columns of the probes; a missing one is
  made with them.
\<close>

definition probes_fit :: "catalog \<Rightarrow> bool" where
  "probes_fit cat \<longleftrightarrow>
     (cat ''litefan_consumers'' = None \<or> probe ''litefan_consumers'' [''scan_cursor'', ''drain_cursor''] cat) \<and>
     (cat ''litefan_archived_deliveries'' = None \<or>
      probe ''litefan_archived_deliveries'' [''consumer_id'', ''message_id'', ''detail''] cat)"

definition probes_pass :: "catalog \<Rightarrow> bool" where
  "probes_pass cat \<longleftrightarrow>
     probe ''litefan_consumers'' [''scan_cursor'', ''drain_cursor''] cat \<and>
     probe ''litefan_archived_deliveries'' [''consumer_id'', ''message_id'', ''detail''] cat"

lemma probes_pass_made: "probes_pass (schema_objects ++ cat) \<longleftrightarrow> probes_fit cat"
  unfolding probes_pass_def probes_fit_def schema_objects_def probe_added
  by (auto simp: schema_script_def probe_def split: option.splits)

lemma schema_objects_absorb [simp]: "schema_objects ++ schema_objects = schema_objects"
  by (auto simp: map_add_def fun_eq_iff split: option.splits)

lemma probes_fit_again: "probes_fit cat \<Longrightarrow> probes_fit (schema_objects ++ cat)"
  using probes_pass_made [of cat] probes_pass_made [of "schema_objects ++ cat"] by simp

text \<open>A configuration that is accepted, and the window it sets.\<close>

lemma valid_window:
  assumes "validate_config config = Inr u"
  shows "i64_try_from (int (as_millis (cfg_idempotency_window config)))
      = Some (int (as_millis (cfg_idempotency_window config)))"
proof -
  have "int (as_millis (cfg_idempotency_window config)) \<le> i64_max"
    using assms validate_config_ok_iff [of config] by (simp add: as_millis_def)
  then show ?thesis by (simp add: i64_try_from_def in_i64_def order_trans [OF i64_min_neg(2)])
qed

definition opened_store :: "config \<Rightarrow> db_file \<Rightarrow> litefan" where
  "opened_store config file =
     \<lparr>lf_pool = fl_database file,
      lf_max_batch_size = cfg_max_batch_size config,
      lf_cross_process_poll_interval = cfg_cross_process_poll_interval config,
      lf_idempotency_window_ms = int (as_millis (cfg_idempotency_window config)),
      lf_signals = signals_new\<rparr>"

lemma open_with_config_eq:
  "open_with_config config file =
     (case validate_config config of Inl e \<Rightarrow> (Inl e, file) | Inr _ \<Rightarrow>
      if schema_version < fl_user_version file then
        (Inl (UnsupportedSchemaVersion (fl_user_version file) schema_version), file)
      else if \<not> script_fits (fl_catalog file) then
        (Inl (Sqlx SqlLogicError), file\<lparr>fl_catalog := snd (run_script schema_script (fl_catalog file))\<rparr>)
      else if \<not> probes_fit (fl_catalog file) then
        (Inl IncompatibleSchema, file\<lparr>fl_catalog := schema_objects ++ fl_catalog file\<rparr>)
      else
        (Inr (opened_store config file),
         file\<lparr>fl_user_version := schema_version, fl_catalog := schema_objects ++ fl_catalog file\<rparr>))"
proof (cases "validate_config config")
  case (Inr u)
  let ?cat = "fl_catalog file"
  note window = valid_window [OF Inr]
  show ?thesis
  proof (cases "script_fits ?cat")
    case True
    then have "run_script schema_script ?cat = (Inr (), schema_objects ++ ?cat)"
      by (simp add: prod_eq_iff schema_script_result schema_script_catalog)
    then show ?thesis
      using Inr True probes_pass_made [of ?cat]
      by (auto simp: open_with_config_def window opened_store_def probes_pass_def not_less)
  next
    case False
    then obtain made where "run_script schema_script ?cat = (Inl (Sqlx SqlLogicError), made)"
      using schema_script_result [of ?cat] by (cases "run_script schema_script ?cat") simp
    then show ?thesis
      using Inr False by (simp add: open_with_config_def window)
  qed
qed (simp add: open_with_config_def)

lemma open_with_config_Inr:
  assumes "open_with_config config file = (Inr fan, file')"
  shows "validate_config config = Inr ()" and "lf_pool fan = fl_database file"
    and "fl_user_version file \<le> schema_version" and "fl_user_version file' = schema_version"
  using assms
  by (auto simp: open_with_config_eq opened_store_def split: sum.splits if_splits)

lemma open_with_config_inv:
  assumes "open_with_config config file = (Inr fan, file')" and "db_inv (fl_database file)"
  shows "fan_inv fan"
  using assms
  by (auto simp: open_with_config_eq opened_store_def fan_inv_def signals_new_inv validate_config_ok_iff as_millis_def
      div_greater_zero_iff split: sum.splits if_splits)

text \<open>A file with the layout of this version opens as it is.\<close>

lemma script_fits_empty: "script_fits Map.empty"
  by (simp add: script_fits_def list_all_iff schema_script_def)

lemma probes_fit_empty: "probes_fit Map.empty"
  by (simp add: probes_fit_def)

lemma script_fits_schema: "script_fits schema_objects" "probes_fit schema_objects"
  using script_fits_again [OF script_fits_empty] probes_fit_again [OF probes_fit_empty] by simp_all

end
