(* ===== verification/System.thy ===== *)
theory System
  imports Inbox Polling Opening
begin

text \<open>
  The operations as one transition system. An \<open>action\<close> is a committed transaction of some
  process: SQLite serialises writers, so every interleaving of operations is a list of
  actions. A claim is the lease transaction of \<open>Consumer::claim\<close>, with the time and the
  deadline its caller computed; draining is the statement of \<open>begin_draining\<close>.

  \<open>run_actions\<close> runs a list of actions, \<open>event_of\<close> says what an action does to the inboxes,
  and the locale \<open>refinement\<close> carries both along a run.
\<close>

datatype action =
    DoPublish engine clock "publish list"
  | DoOpen engine clock consumer_builder
  | DoDrain clock consumer
  | DoClaim engine consumer nat int int
  | DoAck consumer "receipt list"
  | DoNack clock consumer "receipt list" retry
  | DoExtend clock consumer "receipt list" duration
  | DoArchive engine clock consumer "receipt list" "utf8 option"
  | DoRedrive engine clock consumer "archive_id list" retry
  | DoPurge consumer purge_archives_opts
  | DoDelete utf8 delete_mode
  | DoPrune prune_opts
  | DoDrop consumer

fun perform :: "action \<Rightarrow> litefan \<Rightarrow> litefan" where
  "perform (DoPublish E clk ms) fan = snd (publish_batch E clk ms fan)"
| "perform (DoOpen E clk b) fan = snd (open_consumer E clk b fan)"
| "perform (DoDrain clk self) fan = snd (begin_draining (\<lambda>db. db) clk self fan)"
| "perform (DoClaim E self n now v) fan =
     fan\<lparr>lf_pool := snd (transaction (claim_txn E self n now v) (lf_pool fan))\<rparr>"
| "perform (DoAck self rs) fan = snd (ack_batch self rs fan)"
| "perform (DoNack clk self rs retry) fan = snd (nack_batch clk self rs retry fan)"
| "perform (DoExtend clk self rs timeout) fan = snd (extend_visibility_batch clk self rs timeout fan)"
| "perform (DoArchive E clk self rs detail) fan = snd (archive_batch_with_detail E clk self rs detail fan)"
| "perform (DoRedrive E clk self ids retry) fan = snd (redrive_batch E clk self ids retry fan)"
| "perform (DoPurge self purge) fan = snd (purge_archives self purge fan)"
| "perform (DoDelete name mode) fan = snd (delete_consumer name mode fan)"
| "perform (DoPrune prune) fan = snd (prune_messages prune fan)"
| "perform (DoDrop self) fan = drop_consumer self fan"

text \<open>The engine is as documented, and a claim asks for no more than \<open>poll\<close> lets through.\<close>

fun action_ok :: "litefan \<Rightarrow> action \<Rightarrow> bool" where
  "action_ok fan (DoPublish E clk ms) = engine_ok E"
| "action_ok fan (DoOpen E clk b) = engine_ok E"
| "action_ok fan (DoClaim E self n now v) = (engine_ok E \<and> n \<le> lf_max_batch_size fan)"
| "action_ok fan (DoArchive E clk self rs detail) = engine_ok E"
| "action_ok fan (DoRedrive E clk self ids retry) = engine_ok E"
| "action_ok fan _ = True"

definition posted_by :: "publish_outcome list \<Rightarrow> publish list \<Rightarrow> (int \<times> utf8 option) set" where
  "posted_by os ms = set (List.map_filter (\<lambda>(x, m). case x of
       Published i \<Rightarrow> Some (message_id_get i, pb_topic m) | Duplicate _ \<Rightarrow> None) (zip os ms))"

text \<open>What an action does to the inboxes, read off its result and the state before it.\<close>

fun event_of :: "litefan \<Rightarrow> action \<Rightarrow> inbox_event" where
  "event_of fan (DoPublish E clk ms) =
     (case fst (publish_batch E clk ms fan) of Inr os \<Rightarrow> Posted (posted_by os ms) | Inl _ \<Rightarrow> Quiet)"
| "event_of fan (DoOpen E clk b) =
     (case fst (open_consumer E clk b fan) of
        Inr c \<Rightarrow> if cb_name b \<in> cr_name ` set (t_consumers (lf_pool fan)) then Quiet
                 else Created (co_id c) (as_database_value (cb_filter b))
      | Inl _ \<Rightarrow> Quiet)"
| "event_of fan (DoDrain clk self) =
     (case now_ms clk of Inr _ \<Rightarrow> Frozen (co_id self) | Inl _ \<Rightarrow> Quiet)"
| "event_of fan (DoAck self rs) =
     (case fst (ack_batch self rs fan) of
        Inr _ \<Rightarrow> Settled (co_id self) (held_ids (co_id self) rs (lf_pool fan)) | Inl _ \<Rightarrow> Quiet)"
| "event_of fan (DoArchive E clk self rs detail) =
     (case fst (archive_batch_with_detail E clk self rs detail fan) of
        Inr _ \<Rightarrow> Shelved (co_id self) (held_ids (co_id self) rs (lf_pool fan)) | Inl _ \<Rightarrow> Quiet)"
| "event_of fan (DoRedrive E clk self ids retry) =
     (case fst (redrive_batch E clk self ids retry fan) of
        Inr _ \<Rightarrow> Restored (co_id self) (named_ids (co_id self) ids (lf_pool fan)) | Inl _ \<Rightarrow> Quiet)"
| "event_of fan (DoPurge self purge) =
     (case fst (purge_archives self purge fan) of
        Inr _ \<Rightarrow> Discarded (co_id self) (purged_ids (co_id self) (pa_before_ms purge)
                   (int (pa_max_archives purge)) (lf_pool fan))
      | Inl _ \<Rightarrow> Quiet)"
| "event_of fan (DoDelete name mode) =
     (case fst (delete_consumer name mode fan) of
        Inr _ \<Rightarrow> (case find_consumer_by_name name (lf_pool fan) of Some c \<Rightarrow> Removed (cr_id c) | None \<Rightarrow> Quiet)
      | Inl _ \<Rightarrow> Quiet)"
| "event_of fan _ = Quiet"

subsection \<open>What each action leaves in the database\<close>

lemma pool_publish:
  assumes inv: "fan_inv fan" and E: "engine_ok E"
  obtains (failed) e where "publish_batch E clk ms fan = (Inl e, fan)"
    | (empty) "ms = []" "publish_batch E clk ms fan = (Inr [], fan)"
    | (published) t os ps L' where
      "publish_each (live_ledger t (lf_pool fan)) (seq_messages (lf_pool fan)) ms = (os, ps, L')"
      "seq_messages (lf_pool fan) + int (length ps) \<le> i64_max"
      "publish_batch E clk ms fan = (Inr os, perform (DoPublish E clk ms) fan)"
      "lf_pool (perform (DoPublish E clk ms) fan)
        = published_db E t (t + lf_idempotency_window_ms fan) ms (lf_pool fan)"
      "now_ms clk = Inr t"
proof -
  obtain r fan' where run: "publish_batch E clk ms fan = (r, fan')"
    by (cases "publish_batch E clk ms fan")
  show thesis
  proof (cases r)
    case (Inl e)
    with run publish_batch_Inl [of E clk ms fan e fan'] show thesis by (intro failed) auto
  next
    case (Inr os)
    show thesis
    proof (cases "ms = []")
      case True
      then show thesis by (intro empty) (simp_all add: publish_batch_def)
    next
      case False
      from run Inr have "publish_batch E clk ms fan = (Inr os, fan')" by simp
      then show thesis
        by (rule publish_batch_Inr [OF inv E False]) (rule published; use run Inr in auto)
    qed
  qed
qed

lemma posted_by_outcomes:
  "publish_each L n ms = (os, ps, L') \<Longrightarrow> posted_by os ms = posted n t ps"
proof (induction ms arbitrary: L n os ps)
  case Nil
  then show ?case by (simp add: posted_by_def posted_def List.map_filter_simps)
next
  case (Cons m ms)
  have step: "posted_by (x # xs) (m # ms) = (case x of Published i \<Rightarrow> {(message_id_get i, pb_topic m)}
      | Duplicate i \<Rightarrow> {}) \<union> posted_by xs ms" for x xs
    by (cases x) (simp_all add: posted_by_def List.map_filter_simps)
  have new: "posted n t (m # ps') = {(n + 1, pb_topic m)} \<union> posted (n + 1) t ps'" for ps'
    by (simp add: posted_def)
  from Cons.prems show ?case
  proof (cases rule: publish_each_ConsE)
    case (unkeyed os1 ps1)
    with Cons.IH step new show ?thesis by simp
  next
    case (known k i os1)
    with Cons.IH step show ?thesis by simp
  next
    case (first k os1 ps1)
    with Cons.IH step new show ?thesis by simp
  qed
qed

text \<open>
  The contract the operations share: one that fails leaves the store as it found it and is
  invisible to the inboxes. What a client has to look at are the successes.
\<close>

definition simulated :: "litefan \<Rightarrow> action \<Rightarrow> bool" where
  "simulated fan a \<longleftrightarrow> inboxes (lf_pool (perform a fan)) = apply_event (event_of fan a) (inboxes (lf_pool fan))"

locale atomic_operation =
  fixes operation :: "litefan \<Rightarrow> 'r outcome \<times> litefan" and act :: action
  assumes failed: "operation fan = (Inl e, fan') \<Longrightarrow> fan' = fan"
    and performs: "perform act fan = snd (operation fan)"
    and quiet: "fst (operation fan) = Inl e \<Longrightarrow> event_of fan act = Quiet"
begin

lemma failed_snd: "fst (operation fan) = Inl e \<Longrightarrow> snd (operation fan) = fan"
  by (cases "operation fan") (auto dest: failed)

lemma outcome_cases:
  obtains (failure) e where "fst (operation fan) = Inl e" "perform act fan = fan" "event_of fan act = Quiet"
    | (success) x where "operation fan = (Inr x, perform act fan)"
proof (cases "fst (operation fan)")
  case (Inl e)
  with failed_snd [OF Inl] show thesis by (intro failure) (simp_all add: performs quiet)
next
  case (Inr x)
  then have "operation fan = (Inr x, perform act fan)" unfolding performs by (metis prod.collapse)
  then show thesis by (rule success)
qed

lemma simulates:
  assumes "\<And>x fan'. operation fan = (Inr x, fan') \<Longrightarrow>
      inboxes (lf_pool fan') = apply_event (event_of fan act) (inboxes (lf_pool fan))"
  shows "simulated fan act"
  by (rule outcome_cases [of fan]) (simp_all add: simulated_def assms)

end

interpretation publish_op: atomic_operation "publish_batch E clk ms" "DoPublish E clk ms"
  for E clk ms
proof
  fix fan e fan'
  show "publish_batch E clk ms fan = (Inl e, fan') \<Longrightarrow> fan' = fan" by (rule publish_batch_Inl)
qed simp_all

interpretation open_op: atomic_operation "open_consumer E clk b" "DoOpen E clk b"
  for E clk b
proof
  fix fan e fan'
  show "open_consumer E clk b fan = (Inl e, fan') \<Longrightarrow> fan' = fan" by (rule open_consumer_Inl)
qed simp_all

interpretation ack_op: atomic_operation "ack_batch self rs" "DoAck self rs"
  for self rs
  by unfold_locales (auto simp: ack_batch_def transaction_def split: if_splits sum.splits prod.splits)

interpretation nack_op: atomic_operation "nack_batch clk self rs retry" "DoNack clk self rs retry"
  for clk self rs retry
  by unfold_locales (auto simp: nack_batch_def transaction_def split: if_splits sum.splits prod.splits)

interpretation extend_op: atomic_operation "extend_visibility_batch clk self rs timeout" "DoExtend clk self rs timeout"
  for clk self rs timeout
  by unfold_locales (auto simp: extend_visibility_batch_def transaction_def split: if_splits sum.splits prod.splits)

interpretation archive_op: atomic_operation "archive_batch_with_detail E clk self rs detail" "DoArchive E clk self rs detail"
  for E clk self rs detail
  by unfold_locales (auto simp: archive_batch_with_detail_def transaction_def split: if_splits sum.splits prod.splits)

interpretation redrive_op: atomic_operation "redrive_batch E clk self ids retry" "DoRedrive E clk self ids retry"
  for E clk self ids retry
  by unfold_locales (auto simp: redrive_batch_def transaction_def split: if_splits sum.splits prod.splits)

interpretation purge_op: atomic_operation "purge_archives self purge" "DoPurge self purge"
  for self purge
  by unfold_locales (auto simp: purge_archives_def transaction_def split: if_splits sum.splits prod.splits)

interpretation delete_op: atomic_operation "delete_consumer name mode" "DoDelete name mode"
  for name mode
  by unfold_locales (auto simp: delete_consumer_def transaction_def split: if_splits sum.splits prod.splits)

interpretation prune_op: atomic_operation "prune_messages prune" "DoPrune prune"
  for prune
  by unfold_locales (auto simp: prune_messages_def transaction_def split: if_splits sum.splits prod.splits)

text \<open>The successful cases, as closed forms of the database.\<close>

lemma acked_db_Nil: "acked_db cid [] db = db"
  by (simp add: acked_db_def)

lemma pool_ack:
  assumes inv: "fan_inv fan" and run: "ack_batch self rs fan = (Inr b, fan')"
  shows "lf_pool fan' = acked_db (co_id self) rs (lf_pool fan)"
proof (cases "rs = []")
  case True
  with run show ?thesis by (simp add: ack_batch_def acked_db_Nil)
next
  case False
  then have "length rs \<le> lf_max_batch_size fan"
    using run by (auto simp: ack_batch_def ensure_batch_size_def split: if_splits)
  from ack_batch_eq [OF inv False this, of self] run show ?thesis by auto
qed

definition nacked_chunks :: "int \<Rightarrow> int \<Rightarrow> receipt list \<Rightarrow> database \<Rightarrow> database" where
  "nacked_chunks v cid rs db = fold (nacked_db v cid) (chunks RECEIPTS_PER_CHUNK rs) db"

lemma nack_run:
  "run_chunks (nack_chunk v cid) rss db = Inr (ns, db') \<Longrightarrow> db' = fold (nacked_db v cid) rss db"
proof (induction rss arbitrary: db ns)
  case (Cons rs rss)
  then show ?case by (auto simp: nack_chunk_eq split: prod.splits if_splits)
qed simp

lemma pool_nack:
  assumes run: "nack_batch clk self rs retry fan = (Inr b, fan')"
  obtains v where "lf_pool fan' = nacked_chunks v (co_id self) rs (lf_pool fan)"
proof (cases "rs = []")
  case True
  with run show thesis by (intro that) (auto simp: nack_batch_def nacked_chunks_def)
next
  case False
  then obtain v n where "receipts_txn (nack_chunk v (co_id self)) rs (lf_pool fan) = Inr (n, lf_pool fan')"
    using run by (auto simp: nack_batch_def transaction_def split: if_splits sum.splits)
  then have "lf_pool fan' = nacked_chunks v (co_id self) rs (lf_pool fan)"
    using nack_run by (auto simp: receipts_txn_def nacked_chunks_def)
  then show thesis by (rule that)
qed

lemma pool_extend:
  assumes run: "extend_visibility_batch clk self rs timeout fan = (Inr b, fan')"
  obtains v where "lf_pool fan' = extended_db v (co_id self) rs (lf_pool fan)"
proof (cases "rs = []")
  case True
  with run show thesis by (intro that) (auto simp: extend_visibility_batch_def extended_db_def)
next
  case False
  with run show thesis
    by (auto simp: extend_visibility_batch_def transaction_def extend_txn_eq intro: that
        split: if_splits sum.splits)
qed

lemma pool_archive:
  assumes E: "engine_ok E" and inv: "fan_inv fan"
    and run: "archive_batch_with_detail E clk self rs detail fan = (Inr b, fan')"
  obtains (empty) "rs = []" "fan' = fan"
    | (moved) t where "lf_pool fan' = archived_db (co_id self) rs t detail (lf_pool fan)"
proof (cases "rs = []")
  case True
  with run show thesis by (intro empty) (simp_all add: archive_batch_with_detail_def)
next
  case False
  with run show thesis
    by (auto simp: archive_batch_with_detail_def transaction_def archive_txn_eq [OF E fan_invD(1) [OF inv]]
        intro: moved split: if_splits sum.splits)
qed

lemma pool_redrive:
  assumes E: "engine_ok E" and inv: "fan_inv fan"
    and run: "redrive_batch E clk self ids retry fan = (Inr b, fan')"
  obtains (empty) "ids = []" "fan' = fan"
    | (restored) v mids where "mset mids = mset (archived_messages (co_id self) ids (lf_pool fan))"
      "lf_pool fan' = redriven_db (co_id self) v ids mids (lf_pool fan)"
proof (cases "ids = []")
  case True
  with run show thesis by (intro empty) (simp_all add: redrive_batch_def)
next
  case False
  then obtain v n where txn: "redrive_txn E (co_id self) ids v (lf_pool fan) = Inr (n, lf_pool fan')"
    using run by (auto simp: redrive_batch_def transaction_def split: if_splits sum.splits)
  obtain mids where ms: "mset mids = mset (archived_messages (co_id self) ids (lf_pool fan))"
    and "redrive_txn E (co_id self) ids v (lf_pool fan) = Inr (length mids, redriven_db (co_id self) v ids mids (lf_pool fan))"
    by (rule redrive_txn_eq [OF E fan_invD(1) [OF inv]])
  with txn have "lf_pool fan' = redriven_db (co_id self) v ids mids (lf_pool fan)" by simp
  with ms show thesis by (rule restored)
qed

lemma purged_db_zero: "purged_db cid t 0 db = db" "purged_ids cid t 0 db = {}"
  by (simp_all add: purged_db_def purged_ids_def old_archive_ids_def)

lemma pool_purge:
  assumes run: "purge_archives self purge fan = (Inr b, fan')"
  shows "lf_pool fan' = purged_db (co_id self) (pa_before_ms purge) (int (pa_max_archives purge)) (lf_pool fan)"
  using run
  by (auto simp: purge_archives_def transaction_def purge_statement_eq i64_try_from_def purged_db_zero
      split: if_splits sum.splits)

lemma pool_delete:
  assumes inv: "fan_inv fan" and run: "delete_consumer name mode fan = (Inr b, fan')"
  obtains c where "find_consumer_by_name name (lf_pool fan) = Some c"
    "lf_pool fan' = without_consumer (cr_id c) (lf_pool fan)"
  using run
  by (auto simp: delete_consumer_def transaction_def delete_txn_eq [OF fan_invD(1) [OF inv]]
      split: option.splits sum.splits)

lemma pruned_db_zero: "pruned_db t 0 db = db"
  by (simp add: pruned_db_def prune_ids_def)

lemma pool_prune:
  assumes inv: "fan_inv fan" and run: "prune_messages prune fan = (Inr b, fan')"
  shows "lf_pool fan' = pruned_db (pr_before_ms prune) (pr_max_messages prune) (lf_pool fan)"
  using run
  by (auto simp: prune_messages_def transaction_def prune_statement_eq [OF db_invD(1) [OF fan_invD(1) [OF inv]]]
      i64_try_from_def pruned_db_zero split: if_splits sum.splits)

lemma pool_open:
  assumes inv: "fan_inv fan" and run: "open_consumer E clk b fan = (Inr c, fan')"
  obtains (created) t where "cb_name b \<notin> cr_name ` set (t_consumers (lf_pool fan))"
      "co_id c = seq_consumers (lf_pool fan) + 1"
      "lf_pool fan' = created_db (cb_name b) (as_database_value (cb_filter b)) t (lf_pool fan)"
    | (reopened) "cb_name b \<in> cr_name ` set (t_consumers (lf_pool fan))"
      "lf_pool fan' = (if eng_burns_rowid E
        then lf_pool fan\<lparr>seq_consumers := seq_consumers (lf_pool fan) + 1\<rparr> else lf_pool fan)"
proof -
  obtain t cid db where txn: "open_txn E b t (lf_pool fan) = Inr (cid, db)"
    and c: "co_id c = cid" and db: "lf_pool fan' = db"
    using run
    by (auto simp: open_consumer_def transaction_def split: if_splits sum.splits prod.splits)
  from fan_invD(1) [OF inv] txn show thesis
  proof (cases rule: open_txn_cases)
    case created
    then show thesis using c db by (intro that(1)) (auto simp: created_db_def)
  next
    case (reopened x)
    then have "cb_name b \<in> cr_name ` set (t_consumers (lf_pool fan))" by force
    then show thesis using reopened db by (intro that(2)) simp_all
  qed
qed

lemma pool_drain:
  assumes inv: "fan_inv fan"
  shows "lf_pool (perform (DoDrain clk self) fan) =
    (case now_ms clk of Inl _ \<Rightarrow> lf_pool fan | Inr t \<Rightarrow> drained_db (co_id self) t (lf_pool fan))"
  by (auto simp: begin_draining_def transaction_def drain_statement_ok [OF fan_invD(1) [OF inv]] drained_db_def
      split: sum.splits)

lemma pool_claim:
  assumes inv: "fan_inv fan" and E: "engine_ok E" and n: "n \<le> lf_max_batch_size fan"
  obtains (refused) "perform (DoClaim E self n now v) fan = fan"
    | (leased) c where "c \<in> set (t_consumers (lf_pool fan))" "cr_id c = co_id self"
      "attempt_room (lf_pool fan) (co_id self) now n"
      "lf_pool (perform (DoClaim E self n now v) fan) = claimed_db c now v n (lf_pool fan)"
proof -
  have "int n \<le> i64_max" using n fan_invD(4) [OF inv] by linarith
  with E fan_invD(1) [OF inv] show thesis
    by (rule claim_txn_cases [where self = self and now = now and v = v])
      (auto simp: transaction_def intro: refused leased)
qed

subsection \<open>Invariant and simulation\<close>

lemma perform_inv:
  assumes inv: "fan_inv fan" and ok: "action_ok fan a"
  shows "fan_inv (perform a fan)"
proof -
  have after: "fan_inv (snd x)" if "\<And>r fan'. x = (r, fan') \<Longrightarrow> fan_inv fan'" for x :: "'z outcome \<times> litefan"
    using that by (cases x) simp
  show ?thesis
  proof (cases a)
    case (DoClaim E self n now v)
    with ok have E: "engine_ok E" and n: "n \<le> lf_max_batch_size fan" by simp_all
    from inv E n show ?thesis
    proof (cases rule: pool_claim [where self = self and now = now and v = v])
      case refused
      with inv DoClaim show ?thesis by simp
    next
      case (leased c)
      have "db_inv (claimed_db c now v n (lf_pool fan))"
        using claimed_db_inv [OF fan_invD(1) [OF inv] leased(1)] leased(2,3) by simp
      with leased(4) have "db_inv (snd (transaction (claim_txn E self n now v) (lf_pool fan)))" by simp
      with inv DoClaim show ?thesis by (simp add: fan_inv_update(2))
    qed
  qed (use ok in \<open>auto intro!: after drop_consumer_inv [OF inv] elim: publish_batch_inv [OF inv] open_consumer_inv [OF inv]
      begin_draining_inv [OF inv, of "\<lambda>db. db", rotated] ack_batch_inv [OF inv] nack_batch_inv [OF inv]
      extend_visibility_batch_inv [OF inv] archive_batch_inv [OF _ inv] redrive_batch_inv [OF _ inv]
      purge_archives_inv [OF inv] delete_consumer_inv [OF inv] prune_messages_inv [OF inv]\<close>)
qed

lemma inboxes_nacked_chunks:
  assumes "consumers_inv db"
  shows "inboxes (nacked_chunks v cid rs db) = inboxes db"
proof -
  have "inboxes (fold (nacked_db v cid) rss db) = inboxes db" if "consumers_inv db" for rss and db :: database
    using that
  proof (induction rss arbitrary: db)
    case (Cons rs rss)
    have "consumers_inv (nacked_db v cid rs db)"
      using Cons.prems by (simp add: consumers_inv_def consumer_row_inv_def nacked_db_def)
    with Cons show ?case by (simp add: inboxes_nacked)
  qed simp
  with assms show ?thesis by (simp add: nacked_chunks_def)
qed

lemma posted_empty: "deposit {} = id"
  by (auto simp: deposit_def fun_eq_iff)

lemma inboxes_burned: "inboxes (db\<lparr>seq_consumers := n\<rparr>) = inboxes db"
proof
  fix cid
  have "inbox_of (db\<lparr>seq_consumers := n\<rparr>) c = inbox_of db c" for c
    using unscanned_cong [of "db\<lparr>seq_consumers := n\<rparr>" db c]
    by (simp add: inbox_of_def owed_def deliveries_of_def archives_of_def)
  then have "inbox_of (db\<lparr>seq_consumers := n\<rparr>) = inbox_of db" by (rule ext)
  then show "inboxes (db\<lparr>seq_consumers := n\<rparr>) cid = inboxes db cid"
    by (simp add: inboxes_def find_consumer_def)
qed

lemma held_ids_Nil [simp]: "held_ids cid [] db = {}"
  by (simp add: held_ids_def)

lemma update_inbox_same: "(\<And>b. f b = b) \<Longrightarrow> update_inbox cid f ib = ib"
  by (cases "ib cid") (simp_all add: update_inbox_def fun_upd_idem)

lemma sim_publish:
  assumes inv: "fan_inv fan" and E: "engine_ok E"
  shows "simulated fan (DoPublish E clk ms)"
  using inv E
proof (cases rule: pool_publish [where clk = clk and ms = ms])
  case (published t os ps L')
  have "fst (publish_batch E clk ms fan) = Inr os" by (metis published(3) fst_conv)
  then show ?thesis
    unfolding simulated_def published(4)
    using inboxes_published [OF fan_invD(1) [OF inv] E published(1,2)] posted_by_outcomes [OF published(1), of t]
    by simp
qed (simp_all add: simulated_def posted_by_def List.map_filter_simps posted_empty option.map_id0)

lemma sim_open:
  assumes inv: "fan_inv fan"
  shows "simulated fan (DoOpen E clk b)"
proof (rule open_op.simulates)
  fix c fan' assume run: "open_consumer E clk b fan = (Inr c, fan')"
  from inv run show "inboxes (lf_pool fan') = apply_event (event_of fan (DoOpen E clk b)) (inboxes (lf_pool fan))"
  proof (cases rule: pool_open)
    case (created t)
    with run show ?thesis by (simp add: inboxes_created [OF fan_invD(1) [OF inv]])
  next
    case reopened
    with run show ?thesis by (simp add: inboxes_burned)
  qed
qed

lemma sim_claim:
  assumes inv: "fan_inv fan" and E: "engine_ok E" and n: "n \<le> lf_max_batch_size fan"
  shows "simulated fan (DoClaim E self n now v)"
  using inv E n
proof (cases rule: pool_claim [where self = self and now = now and v = v])
  case (leased c)
  have "inboxes (claimed_db c now v n (lf_pool fan)) = inboxes (lf_pool fan)"
    using inboxes_claimed [OF fan_invD(1) [OF inv] leased(1)] leased(2,3) by simp
  then show ?thesis unfolding simulated_def leased(4) by simp
qed (simp add: simulated_def)

lemma sim_lease_operations:
  assumes inv: "fan_inv fan"
  shows "simulated fan (DoAck self rs)" "simulated fan (DoNack clk self rs retry)"
    "simulated fan (DoExtend clk self rs timeout)"
proof -
  note db = fan_invD(1) [OF inv]
  show "simulated fan (DoAck self rs)"
    by (rule ack_op.simulates)
      (use pool_ack [OF inv] inboxes_acked [OF db] in auto)
  show "simulated fan (DoNack clk self rs retry)"
  proof (rule nack_op.simulates)
    fix x fan' assume "nack_batch clk self rs retry fan = (Inr x, fan')"
    then obtain v where "lf_pool fan' = nacked_chunks v (co_id self) rs (lf_pool fan)" by (rule pool_nack)
    then show "inboxes (lf_pool fan') = apply_event (event_of fan (DoNack clk self rs retry)) (inboxes (lf_pool fan))"
      by (simp add: inboxes_nacked_chunks [OF db_invD(2) [OF db]])
  qed
  show "simulated fan (DoExtend clk self rs timeout)"
  proof (rule extend_op.simulates)
    fix x fan' assume "extend_visibility_batch clk self rs timeout fan = (Inr x, fan')"
    then obtain v where "lf_pool fan' = extended_db v (co_id self) rs (lf_pool fan)" by (rule pool_extend)
    then show "inboxes (lf_pool fan') = apply_event (event_of fan (DoExtend clk self rs timeout)) (inboxes (lf_pool fan))"
      by (simp add: inboxes_extended [OF db_invD(2) [OF db]])
  qed
qed

lemma sim_archive:
  assumes inv: "fan_inv fan" and E: "engine_ok E"
  shows "simulated fan (DoArchive E clk self rs detail)"
proof (rule archive_op.simulates)
  fix b fan' assume run: "archive_batch_with_detail E clk self rs detail fan = (Inr b, fan')"
  from E inv run
  show "inboxes (lf_pool fan') = apply_event (event_of fan (DoArchive E clk self rs detail)) (inboxes (lf_pool fan))"
  proof (cases rule: pool_archive)
    case empty
    with run show ?thesis by (simp add: update_inbox_same)
  next
    case (moved t)
    with run show ?thesis by (simp add: inboxes_archived [OF fan_invD(1) [OF inv]])
  qed
qed

lemma sim_redrive:
  assumes inv: "fan_inv fan" and E: "engine_ok E"
  shows "simulated fan (DoRedrive E clk self ids retry)"
proof (rule redrive_op.simulates)
  fix b fan' assume run: "redrive_batch E clk self ids retry fan = (Inr b, fan')"
  from E inv run
  show "inboxes (lf_pool fan') = apply_event (event_of fan (DoRedrive E clk self ids retry)) (inboxes (lf_pool fan))"
  proof (cases rule: pool_redrive)
    case empty
    with run show ?thesis by (simp add: update_inbox_same named_ids_def redrive_clause_def)
  next
    case (restored v mids)
    with run show ?thesis by (simp add: inboxes_redriven [OF fan_invD(1) [OF inv] restored(1)])
  qed
qed

lemma sim_retention:
  assumes inv: "fan_inv fan"
  shows "simulated fan (DoPurge self purge)" "simulated fan (DoDelete name mode)"
    "simulated fan (DoPrune prune)"
proof -
  note db = fan_invD(1) [OF inv]
  show "simulated fan (DoPurge self purge)"
    by (rule purge_op.simulates)
      (use pool_purge inboxes_purged [OF db] in auto)
  show "simulated fan (DoDelete name mode)"
  proof (rule delete_op.simulates)
    fix b fan' assume run: "delete_consumer name mode fan = (Inr b, fan')"
    with inv obtain c where "find_consumer_by_name name (lf_pool fan) = Some c"
      "lf_pool fan' = without_consumer (cr_id c) (lf_pool fan)"
      by (rule pool_delete)
    with run show "inboxes (lf_pool fan') = apply_event (event_of fan (DoDelete name mode)) (inboxes (lf_pool fan))"
      by (simp add: inboxes_without [OF db])
  qed
  show "simulated fan (DoPrune prune)"
    by (rule prune_op.simulates)
      (use pool_prune [OF inv] inboxes_pruned [OF db] in auto)
qed

lemma sim_drain:
  assumes inv: "fan_inv fan"
  shows "simulated fan (DoDrain clk self)"
  unfolding simulated_def pool_drain [OF inv]
  by (cases "now_ms clk") (simp_all add: inboxes_drained [OF fan_invD(1) [OF inv]] del: perform.simps)

lemma perform_simulates:
  assumes inv: "fan_inv fan" and ok: "action_ok fan a"
  shows "inboxes (lf_pool (perform a fan)) = apply_event (event_of fan a) (inboxes (lf_pool fan))"
proof -
  have "simulated fan (DoDrop self)" for self by (simp add: simulated_def drop_consumer_def)
  then have "simulated fan a"
    using inv ok
    by (cases a)
      (simp_all del: perform.simps event_of.simps
        add: sim_publish sim_open sim_claim sim_lease_operations sim_archive sim_redrive sim_retention sim_drain)
  then show ?thesis by (simp only: simulated_def)
qed

subsection \<open>Runs\<close>

text \<open>
  The interface between the code and its specification: states and actions of one side, the
  abstraction and the events of the other. What holds of one step holds along a run.
\<close>

fun run_ok :: "('s \<Rightarrow> 'a \<Rightarrow> bool) \<Rightarrow> ('a \<Rightarrow> 's \<Rightarrow> 's) \<Rightarrow> 's \<Rightarrow> 'a list \<Rightarrow> bool" where
  "run_ok ok step s [] \<longleftrightarrow> True"
| "run_ok ok step s (a # as) \<longleftrightarrow> ok s a \<and> run_ok ok step (step a s) as"

fun run_events :: "('s \<Rightarrow> 'a \<Rightarrow> 'e) \<Rightarrow> ('a \<Rightarrow> 's \<Rightarrow> 's) \<Rightarrow> 's \<Rightarrow> 'a list \<Rightarrow> 'e list" where
  "run_events ev step s [] = []"
| "run_events ev step s (a # as) = ev s a # run_events ev step (step a s) as"

locale refinement =
  fixes ok :: "'s \<Rightarrow> 'a \<Rightarrow> bool"
    and step :: "'a \<Rightarrow> 's \<Rightarrow> 's"
    and inv :: "'s \<Rightarrow> bool"
    and abs :: "'s \<Rightarrow> 't"
    and ev :: "'s \<Rightarrow> 'a \<Rightarrow> 'e"
    and apply_ev :: "'e \<Rightarrow> 't \<Rightarrow> 't"
  assumes step_inv: "inv s \<Longrightarrow> ok s a \<Longrightarrow> inv (step a s)"
    and step_sim: "inv s \<Longrightarrow> ok s a \<Longrightarrow> abs (step a s) = apply_ev (ev s a) (abs s)"
begin

lemma run_inv: "inv s \<Longrightarrow> run_ok ok step s as \<Longrightarrow> inv (fold step as s)"
  by (induction as arbitrary: s) (auto intro: step_inv)

lemma run_sim:
  "inv s \<Longrightarrow> run_ok ok step s as \<Longrightarrow>
   abs (fold step as s) = fold apply_ev (run_events ev step s as) (abs s)"
  by (induction as arbitrary: s) (auto simp: step_sim step_inv)

text \<open>A property of a state that every harmless action keeps is kept by a harmless run.\<close>

lemma run_stable:
  assumes "\<And>s a. inv s \<Longrightarrow> ok s a \<Longrightarrow> P s \<Longrightarrow> harmless s a \<Longrightarrow> P (step a s)"
  shows "inv s \<Longrightarrow> run_ok ok step s as \<Longrightarrow> P s \<Longrightarrow> run_ok harmless step s as \<Longrightarrow> P (fold step as s)"
  by (induction as arbitrary: s) (auto intro: step_inv assms)

end

interpretation fan: refinement action_ok perform fan_inv "\<lambda>fan. inboxes (lf_pool fan)" event_of apply_event
  by unfold_locales (auto intro: perform_inv perform_simulates simp del: perform.simps event_of.simps)

text \<open>
  The states of a store that starts on a new file. At any point the processes may stop, or
  crash, and open the file again, with any configuration: what was committed is what they find.
\<close>

definition closed_file :: "litefan \<Rightarrow> db_file" where
  "closed_file fan =
     \<lparr>fl_user_version = schema_version, fl_catalog = schema_objects, fl_database = lf_pool fan\<rparr>"

inductive reachable :: "config \<Rightarrow> litefan \<Rightarrow> bool" where
  opened: "open_with_config config missing_file = (Inr fan, file) \<Longrightarrow> reachable config fan"
| acted: "reachable config fan \<Longrightarrow> action_ok fan a \<Longrightarrow> reachable config (perform a fan)"
| reopened: "reachable config fan \<Longrightarrow> open_with_config config' (closed_file fan) = (Inr fan', file) \<Longrightarrow>
    reachable config' fan'"

lemma reachable_inv_fan: "reachable config fan \<Longrightarrow> fan_inv fan"
proof (induction rule: reachable.induct)
  case (opened config fan created)
  then show ?case by (rule open_with_config_inv) (simp add: missing_file_def empty_database_inv)
next
  case (acted config fan a)
  then show ?case by (blast intro: perform_inv)
next
  case (reopened config fan config' fan' created)
  from reopened.hyps(2) show ?case
    by (rule open_with_config_inv) (simp add: closed_file_def fan_invD(1) [OF reopened.IH])
qed

subsection \<open>What a consumer is owed\<close>

definition owes :: "litefan \<Rightarrow> int \<Rightarrow> int \<Rightarrow> bool" where
  "owes fan cid mid \<longleftrightarrow> (case inboxes (lf_pool fan) cid of None \<Rightarrow> False | Some b \<Rightarrow> mid \<in> ib_owed b)"

text \<open>The only events that take a message out of an inbox: its receipt is acknowledged or
  archived, or the consumer is deleted.\<close>

fun releases :: "int \<Rightarrow> int \<Rightarrow> inbox_event \<Rightarrow> bool" where
  "releases cid mid (Settled c ids) \<longleftrightarrow> c = cid \<and> mid \<in> ids"
| "releases cid mid (Shelved c ids) \<longleftrightarrow> c = cid \<and> mid \<in> ids"
| "releases cid mid (Removed c) \<longleftrightarrow> c = cid"
| "releases cid mid _ \<longleftrightarrow> False"

lemma created_is_new:
  assumes inv: "fan_inv fan" and ev: "event_of fan a = Created cid flt"
  shows "inboxes (lf_pool fan) cid = None"
proof (cases a)
  case (DoOpen E clk b)
  then obtain c where run: "fst (open_consumer E clk b fan) = Inr c" and c: "co_id c = cid"
    and new: "cb_name b \<notin> cr_name ` set (t_consumers (lf_pool fan))"
    using ev by (auto split: sum.splits if_splits)
  from run obtain fan' where "open_consumer E clk b fan = (Inr c, fan')"
    by (cases "open_consumer E clk b fan") simp
  with inv have "cid = seq_consumers (lf_pool fan) + 1"
    by (cases rule: pool_open) (use new c in auto)
  then have "cid \<notin> cr_id ` set (t_consumers (lf_pool fan))"
    using db_invD(2) [OF fan_invD(1) [OF inv]] by (fastforce simp: consumers_inv_def consumer_row_inv_def)
  then have "find_consumer cid (lf_pool fan) = None" by (simp add: find_consumer_None)
  then show ?thesis by (simp add: inboxes_def)
qed (use ev in \<open>auto split: sum.splits option.splits\<close>)

lemma owes_step:
  assumes inv: "fan_inv fan" and ok: "action_ok fan a" and owes: "owes fan cid mid"
    and keep: "\<not> releases cid mid (event_of fan a)"
  shows "owes (perform a fan) cid mid"
proof -
  obtain b where b: "inboxes (lf_pool fan) cid = Some b" "mid \<in> ib_owed b"
    using owes by (auto simp: owes_def split: option.splits)
  have "\<exists>b'. apply_event (event_of fan a) (inboxes (lf_pool fan)) cid = Some b' \<and> mid \<in> ib_owed b'"
  proof (cases "event_of fan a")
    case (Created c flt)
    then have "c \<noteq> cid" using created_is_new [OF inv Created] b by auto
    with Created b show ?thesis by simp
  qed (use b keep in \<open>auto simp: update_inbox_def deposit_def\<close>)
  then show ?thesis
    using perform_simulates [OF inv ok] by (auto simp: owes_def)
qed

subsection \<open>Steps of the database\<close>

text \<open>
  The step relation of the database: what an action that commits leaves, as the closed forms
  of the components. \<open>perform_step\<close> shows that every action is such a step.
\<close>

inductive db_step :: "int \<Rightarrow> database \<Rightarrow> action \<Rightarrow> database \<Rightarrow> bool" for w :: int where
  unchanged: "db_step w db a db"
| published: "publish_each (live_ledger t db) (seq_messages db) ms = (os, ps, L') \<Longrightarrow>
    seq_messages db + int (length ps) \<le> i64_max \<Longrightarrow> now_ms clk = Inr t \<Longrightarrow>
    db_step w db (DoPublish E clk ms) (published_db E t (t + w) ms db)"
| created: "cb_name b \<notin> cr_name ` set (t_consumers db) \<Longrightarrow>
    db_step w db (DoOpen E clk b) (created_db (cb_name b) (as_database_value (cb_filter b)) t db)"
| burned: "db_step w db (DoOpen E clk b) (db\<lparr>seq_consumers := seq_consumers db + 1\<rparr>)"
| drained: "db_step w db (DoDrain clk self) (drained_db (co_id self) t db)"
| claimed: "c \<in> set (t_consumers db) \<Longrightarrow> cr_id c = co_id self \<Longrightarrow> attempt_room db (co_id self) now n \<Longrightarrow>
    db_step w db (DoClaim E self n now v) (claimed_db c now v n db)"
| acked: "db_step w db (DoAck self rs) (acked_db (co_id self) rs db)"
| nacked: "db_step w db (DoNack clk self rs retry) (nacked_chunks v (co_id self) rs db)"
| extended: "db_step w db (DoExtend clk self rs timeout) (extended_db v (co_id self) rs db)"
| archived: "db_step w db (DoArchive E clk self rs detail) (archived_db (co_id self) rs t detail db)"
| redriven: "mset mids = mset (archived_messages (co_id self) ids db) \<Longrightarrow>
    db_step w db (DoRedrive E clk self ids retry) (redriven_db (co_id self) v ids mids db)"
| purged: "db_step w db (DoPurge self purge)
    (purged_db (co_id self) (pa_before_ms purge) (int (pa_max_archives purge)) db)"
| deleted: "c \<in> set (t_consumers db) \<Longrightarrow> cr_name c = name \<Longrightarrow>
    db_step w db (DoDelete name mode) (without_consumer (cr_id c) db)"
| pruned: "db_step w db (DoPrune prune) (pruned_db (pr_before_ms prune) (pr_max_messages prune) db)"

context atomic_operation
begin

lemma steps:
  assumes "\<And>x fan'. operation fan = (Inr x, fan') \<Longrightarrow> db_step w (lf_pool fan) act (lf_pool fan')"
  shows "db_step w (lf_pool fan) act (lf_pool (perform act fan))"
  by (rule outcome_cases [of fan]) (simp_all add: assms db_step.unchanged)

end

lemma step_receipts:
  assumes inv: "fan_inv fan"
  shows "db_step w (lf_pool fan) (DoAck self rs) (lf_pool (perform (DoAck self rs) fan))"
    and "db_step w (lf_pool fan) (DoNack clk self rs retry) (lf_pool (perform (DoNack clk self rs retry) fan))"
    and "db_step w (lf_pool fan) (DoExtend clk self rs timeout) (lf_pool (perform (DoExtend clk self rs timeout) fan))"
proof -
  show "db_step w (lf_pool fan) (DoAck self rs) (lf_pool (perform (DoAck self rs) fan))"
    by (rule ack_op.steps)
      (use pool_ack [OF inv] db_step.acked in auto)
  show "db_step w (lf_pool fan) (DoNack clk self rs retry) (lf_pool (perform (DoNack clk self rs retry) fan))"
    by (rule nack_op.steps)
      (auto elim!: pool_nack intro: db_step.nacked)
  show "db_step w (lf_pool fan) (DoExtend clk self rs timeout) (lf_pool (perform (DoExtend clk self rs timeout) fan))"
    by (rule extend_op.steps)
      (auto elim!: pool_extend intro: db_step.extended)
qed

lemma step_archives:
  assumes inv: "fan_inv fan" and E: "engine_ok E"
  shows "db_step w (lf_pool fan) (DoArchive E clk self rs detail) (lf_pool (perform (DoArchive E clk self rs detail) fan))"
    and "db_step w (lf_pool fan) (DoRedrive E clk self ids retry) (lf_pool (perform (DoRedrive E clk self ids retry) fan))"
proof -
  show "db_step w (lf_pool fan) (DoArchive E clk self rs detail) (lf_pool (perform (DoArchive E clk self rs detail) fan))"
  proof (rule archive_op.steps)
    fix x fan' assume "archive_batch_with_detail E clk self rs detail fan = (Inr x, fan')"
    with E inv show "db_step w (lf_pool fan) (DoArchive E clk self rs detail) (lf_pool fan')"
      by (cases rule: pool_archive) (auto intro: db_step.unchanged db_step.archived)
  qed
  show "db_step w (lf_pool fan) (DoRedrive E clk self ids retry) (lf_pool (perform (DoRedrive E clk self ids retry) fan))"
  proof (rule redrive_op.steps)
    fix x fan' assume "redrive_batch E clk self ids retry fan = (Inr x, fan')"
    with E inv show "db_step w (lf_pool fan) (DoRedrive E clk self ids retry) (lf_pool fan')"
      by (cases rule: pool_redrive) (auto intro: db_step.unchanged db_step.redriven)
  qed
qed

lemma step_retention:
  assumes inv: "fan_inv fan"
  shows "db_step w (lf_pool fan) (DoPurge self purge) (lf_pool (perform (DoPurge self purge) fan))"
    and "db_step w (lf_pool fan) (DoDelete name mode) (lf_pool (perform (DoDelete name mode) fan))"
    and "db_step w (lf_pool fan) (DoPrune prune) (lf_pool (perform (DoPrune prune) fan))"
proof -
  show "db_step w (lf_pool fan) (DoPurge self purge) (lf_pool (perform (DoPurge self purge) fan))"
    by (rule purge_op.steps)
      (use pool_purge db_step.purged in auto)
  show "db_step w (lf_pool fan) (DoDelete name mode) (lf_pool (perform (DoDelete name mode) fan))"
  proof (rule delete_op.steps)
    fix x fan' assume "delete_consumer name mode fan = (Inr x, fan')"
    with inv obtain c where "find_consumer_by_name name (lf_pool fan) = Some c"
      "lf_pool fan' = without_consumer (cr_id c) (lf_pool fan)" by (rule pool_delete)
    then show "db_step w (lf_pool fan) (DoDelete name mode) (lf_pool fan')"
      using find_consumer_by_name_Some [OF db_invD(2) [OF fan_invD(1) [OF inv]]]
      by (auto intro: db_step.deleted)
  qed
  show "db_step w (lf_pool fan) (DoPrune prune) (lf_pool (perform (DoPrune prune) fan))"
    by (rule prune_op.steps)
      (use pool_prune [OF inv] db_step.pruned in auto)
qed

lemma step_publish:
  assumes inv: "fan_inv fan" and E: "engine_ok E"
  shows "db_step (lf_idempotency_window_ms fan) (lf_pool fan) (DoPublish E clk ms)
    (lf_pool (perform (DoPublish E clk ms) fan))"
  using inv E
proof (cases rule: pool_publish [where clk = clk and ms = ms])
  case (published t os ps L')
  then show ?thesis by (simp only: published(4)) (rule db_step.published)
qed (auto intro: db_step.unchanged)

lemma step_consumers:
  assumes inv: "fan_inv fan"
  shows "db_step w (lf_pool fan) (DoOpen E clk b) (lf_pool (perform (DoOpen E clk b) fan))"
    and "db_step w (lf_pool fan) (DoDrain clk self) (lf_pool (perform (DoDrain clk self) fan))"
    and "engine_ok E \<Longrightarrow> n \<le> lf_max_batch_size fan \<Longrightarrow>
      db_step w (lf_pool fan) (DoClaim E self n now v) (lf_pool (perform (DoClaim E self n now v) fan))"
proof -
  show "db_step w (lf_pool fan) (DoOpen E clk b) (lf_pool (perform (DoOpen E clk b) fan))"
  proof (rule open_op.steps)
    fix x fan' assume "open_consumer E clk b fan = (Inr x, fan')"
    with inv show "db_step w (lf_pool fan) (DoOpen E clk b) (lf_pool fan')"
      by (cases rule: pool_open) (auto intro: db_step.unchanged db_step.created db_step.burned)
  qed
  show "db_step w (lf_pool fan) (DoDrain clk self) (lf_pool (perform (DoDrain clk self) fan))"
    unfolding pool_drain [OF inv] by (cases "now_ms clk") (auto intro: db_step.intros)
  assume "engine_ok E" "n \<le> lf_max_batch_size fan"
  with inv show "db_step w (lf_pool fan) (DoClaim E self n now v) (lf_pool (perform (DoClaim E self n now v) fan))"
    by (rule pool_claim [where self = self and now = now and v = v])
      (simp_all del: perform.simps add: db_step.unchanged db_step.claimed)
qed

lemma perform_step:
  assumes "fan_inv fan" and "action_ok fan a"
  shows "db_step (lf_idempotency_window_ms fan) (lf_pool fan) a (lf_pool (perform a fan))"
  using assms
proof (cases a)
  case (DoDrop self)
  then show ?thesis by (simp add: drop_consumer_def db_step.unchanged)
qed (simp_all del: perform.simps
      add: step_publish step_consumers step_receipts step_archives step_retention)

end
