(* ===== verification/Lifetimes.thy ===== *)
theory Lifetimes
  imports System
begin

text \<open>
  What lasts along a run: a receipt that stopped being current stays so until a redrive of
  its message, a lease runs to its deadline unless its own receipt or the consumer's deletion
  ends it, the work of a draining consumer only shrinks, and no row ever counts more attempts
  than its generation. Each is a predicate on one
  state, shown to survive every step of \<open>db_step\<close> or every event that may happen.
\<close>

subsection \<open>Receipts that can not come back\<close>

text \<open>
  A receipt is spent in a database when no delivery can match it any more: its consumer's
  cursor is past its message (or the consumer is gone), and a delivery of the message has a
  later generation. Deliveries only ever gain generations, unless a redrive starts over.
\<close>

definition spent :: "receipt \<Rightarrow> database \<Rightarrow> bool" where
  "spent r db \<longleftrightarrow> rc_consumer_id r \<le> seq_consumers db \<and> rc_message_id r \<le> seq_messages db \<and>
     (\<forall>c \<in> set (t_consumers db). cr_id c = rc_consumer_id r \<longrightarrow> rc_message_id r \<le> cr_scan_cursor c) \<and>
     (\<forall>d \<in> set (t_deliveries db). dr_key d = (rc_consumer_id r, rc_message_id r) \<longrightarrow>
        rc_generation r < dr_generation d)"

lemma spentI_rows:
  assumes "spent r db" and "seq_consumers db \<le> seq_consumers db'" and "seq_messages db \<le> seq_messages db'"
    and "\<And>c'. c' \<in> set (t_consumers db') \<Longrightarrow> cr_id c' = rc_consumer_id r \<Longrightarrow>
      \<exists>c \<in> set (t_consumers db). cr_id c = cr_id c' \<and> cr_scan_cursor c \<le> cr_scan_cursor c'"
    and "\<And>d'. d' \<in> set (t_deliveries db') \<Longrightarrow> dr_key d' = (rc_consumer_id r, rc_message_id r) \<Longrightarrow>
      \<exists>d \<in> set (t_deliveries db). dr_key d = dr_key d' \<and> dr_generation d \<le> dr_generation d'"
  shows "spent r db'"
  unfolding spent_def
proof (intro conjI ballI impI)
  note old = assms(1) [unfolded spent_def]
  show "rc_consumer_id r \<le> seq_consumers db'" "rc_message_id r \<le> seq_messages db'"
    using old assms(2,3) by auto
  show "rc_message_id r \<le> cr_scan_cursor c'" if "c' \<in> set (t_consumers db')" "cr_id c' = rc_consumer_id r" for c'
    using assms(4) [OF that] old that(2) by force
  show "rc_generation r < dr_generation d'"
    if "d' \<in> set (t_deliveries db')" "dr_key d' = (rc_consumer_id r, rc_message_id r)" for d'
    using assms(5) [OF that] old that(2) by force
qed

lemma spent_nacked: "spent r db \<Longrightarrow> spent r (nacked_db v cid rs db)"
  by (erule spentI_rows) (auto simp: nacked_db_def nacked_row_def dr_key_def)

lemma spent_nacked_chunks: "spent r db \<Longrightarrow> spent r (nacked_chunks v cid rs db)"
proof -
  have "spent r (fold (nacked_db v cid) rss db)" if "spent r db" for rss and db :: database
    using that by (induction rss arbitrary: db) (auto intro: spent_nacked)
  then show "spent r db \<Longrightarrow> ?thesis" by (simp add: nacked_chunks_def)
qed

lemma spent_claimed:
  assumes inv: "db_inv db" and c: "c \<in> set (t_consumers db)" and sp: "spent r db"
  shows "spent r (claimed_db c now v n db)"
proof (rule spentI_rows [OF sp])
  show "seq_consumers db \<le> seq_consumers (claimed_db c now v n db)"
    "seq_messages db \<le> seq_messages (claimed_db c now v n db)"
    by (simp_all add: claimed_db_def scanned_db_def moved_db_def renewed_db_def)
  fix c' assume "c' \<in> set (t_consumers (claimed_db c now v n db))"
  then obtain x where x: "x \<in> set (t_consumers db)"
    "c' = (if cr_id x = cr_id c then x\<lparr>cr_scan_cursor := next_cursor db c (claim_fresh db c now n)\<rparr> else x)"
    by (auto simp: moved_db_def)
  then show "\<exists>c \<in> set (t_consumers db). cr_id c = cr_id c' \<and> cr_scan_cursor c \<le> cr_scan_cursor c'"
    using next_cursor_bounds [of c db] consumer_unique [OF db_invD(2) [OF inv] c x(1)]
    by (intro bexI [of _ x]) auto
next
  fix d' assume d': "d' \<in> set (t_deliveries (claimed_db c now v n db))"
    "dr_key d' = (rc_consumer_id r, rc_message_id r)"
  consider d where "d \<in> set (t_deliveries db)" "d' = (if picked db (cr_id c) now n d then renewed_row v d else d)"
    | i where "i \<in> set (fresh_ids db c (claim_fresh db c now n))" "d' = fresh_row (cr_id c) v i"
    using d'(1) by auto
  then show "\<exists>d \<in> set (t_deliveries db). dr_key d = dr_key d' \<and> dr_generation d \<le> dr_generation d'"
  proof cases
    case 1
    then show ?thesis by (intro bexI [of _ d]) (auto simp: renewed_row_def dr_key_def)
  next
    case 2
    then have "cr_id c = rc_consumer_id r" "i = rc_message_id r" using d'(2) by simp_all
    moreover have "cr_scan_cursor c < i" using fresh_ids_in [OF 2(1)] unscanned_bounds by blast
    ultimately show ?thesis using sp c by (force simp: spent_def)
  qed
qed

lemma spent_stale:
  assumes "spent r db"
  shows "\<not> (\<exists>d \<in> set (t_deliveries db). lease_key d = receipt_key r)"
  using assms by (auto simp: spent_def lease_key_def receipt_key_def dr_key_def)

text \<open>Every action but a redrive of the message keeps a spent receipt spent.\<close>

fun redrives :: "receipt \<Rightarrow> litefan \<Rightarrow> action \<Rightarrow> bool" where
  "redrives r fan (DoRedrive E clk self ids retry) \<longleftrightarrow>
     co_id self = rc_consumer_id r \<and> rc_message_id r \<in> named_ids (co_id self) ids (lf_pool fan)"
| "redrives r fan _ \<longleftrightarrow> False"

lemma spent_redriven:
  assumes sp: "spent r db" and ms: "mset mids = mset (archived_messages cid ids db)"
    and no: "\<not> (cid = rc_consumer_id r \<and> rc_message_id r \<in> named_ids cid ids db)"
  shows "spent r (redriven_db cid v ids mids db)"
proof (rule spentI_rows [OF sp])
  fix d' assume d': "d' \<in> set (t_deliveries (redriven_db cid v ids mids db))"
    "dr_key d' = (rc_consumer_id r, rc_message_id r)"
  have "set mids = named_ids cid ids db"
    using mset_eq_setD [OF ms] by (simp add: archived_messages_def named_ids_def)
  with no d' have "d' \<in> set (t_deliveries db)" by auto
  then show "\<exists>d \<in> set (t_deliveries db). dr_key d = dr_key d' \<and> dr_generation d \<le> dr_generation d'" by blast
qed (auto simp: redriven_db_def removed_archives_def)

lemma spent_archived: "spent r db \<Longrightarrow> spent r (archived_db cid rs t detail db)"
  by (erule spentI_rows) (auto simp: archived_db_def acked_db_def)

lemma spent_published:
  "publish_each (live_ledger t db) (seq_messages db) ms = (os, ps, L') \<Longrightarrow> spent r db \<Longrightarrow>
   spent r (published_db E t e ms db)"
  by (erule spentI_rows) (auto simp: published_db_simps)

lemma spent_created:
  assumes inv: "db_inv db" and sp: "spent r db"
  shows "spent r (created_db name flt t db)"
proof (rule spentI_rows [OF sp])
  fix c' assume c': "c' \<in> set (t_consumers (created_db name flt t db))" "cr_id c' = rc_consumer_id r"
  then have "c' \<in> set (t_consumers db)"
    using sp by (auto simp: created_db_def new_consumer_row_def spent_def)
  then show "\<exists>c \<in> set (t_consumers db). cr_id c = cr_id c' \<and> cr_scan_cursor c \<le> cr_scan_cursor c'" by blast
qed (auto simp: created_db_def)

lemma spent_same_rows:
  assumes "spent r db" and "seq_consumers db \<le> seq_consumers db'" and "seq_messages db' = seq_messages db"
    and "set (t_consumers db') \<subseteq> set (t_consumers db)" and "set (t_deliveries db') \<subseteq> set (t_deliveries db)"
  shows "spent r db'"
  using assms(1) by (rule spentI_rows) (use assms in auto)

lemma spent_drained: "spent r db \<Longrightarrow> spent r (drained_db cid t db)"
  by (erule spentI_rows) (auto simp: drained_db_def drain_row_def)

lemma spent_extended: "spent r db \<Longrightarrow> spent r (extended_db v cid rs db)"
  by (erule spentI_rows) (auto simp: extended_db_def extended_row_def dr_key_def)

lemma spent_step:
  assumes step: "db_step w db a db'" and inv: "db_inv db" and sp: "spent r db"
    and no: "\<And>E clk self ids retry. a = DoRedrive E clk self ids retry \<Longrightarrow>
      \<not> (co_id self = rc_consumer_id r \<and> rc_message_id r \<in> named_ids (co_id self) ids db)"
  shows "spent r db'"
  using step
proof (cases rule: db_step.cases)
  case (claimed c)
  then show ?thesis using spent_claimed [OF inv _ sp] by blast
next
  case (redriven mids self ids)
  then show ?thesis using spent_redriven [OF sp] no by blast
next
  case (published t ms)
  then show ?thesis using spent_published sp by blast
qed (use sp in \<open>auto intro: spent_created [OF inv] spent_drained spent_nacked_chunks spent_extended
      spent_archived spent_same_rows simp: acked_db_def purged_db_def without_consumer_def pruned_db_def\<close>)

lemma spent_perform:
  assumes "fan_inv fan" and "action_ok fan a" and "spent r (lf_pool fan)" and "\<not> redrives r fan a"
  shows "spent r (lf_pool (perform a fan))"
  by (rule spent_step [OF perform_step [OF assms(1,2)] fan_invD(1) [OF assms(1)] assms(3)])
    (use assms(4) in auto)

subsection \<open>A lease that runs\<close>

text \<open>The delivery of a message at a generation, hidden from claims before \<open>v\<close>.\<close>

definition leased :: "int \<Rightarrow> int \<Rightarrow> int \<Rightarrow> int \<Rightarrow> database \<Rightarrow> bool" where
  "leased cid mid g v db \<longleftrightarrow>
     (\<exists>d \<in> set (t_deliveries db). lease_key d = (cid, mid, g) \<and> v \<le> dr_visible_at d)"

text \<open>What can end a lease: its own receipt, a claim after the deadline, the consumer's deletion.\<close>

fun disturbs :: "int \<Rightarrow> int \<Rightarrow> int \<Rightarrow> int \<Rightarrow> database \<Rightarrow> action \<Rightarrow> bool" where
  "disturbs cid mid g v db (DoClaim E self n now w) \<longleftrightarrow> co_id self = cid \<and> v \<le> now"
| "disturbs cid mid g v db (DoAck self rs) \<longleftrightarrow> co_id self = cid \<and> (cid, mid, g) \<in> receipt_key ` set rs"
| "disturbs cid mid g v db (DoNack clk self rs retry) \<longleftrightarrow>
     co_id self = cid \<and> (cid, mid, g) \<in> receipt_key ` set rs"
| "disturbs cid mid g v db (DoArchive E clk self rs detail) \<longleftrightarrow>
     co_id self = cid \<and> (cid, mid, g) \<in> receipt_key ` set rs"
| "disturbs cid mid g v db (DoDelete name mode) \<longleftrightarrow>
     (\<exists>c \<in> set (t_consumers db). cr_id c = cid \<and> cr_name c = name)"
| "disturbs cid mid g v db _ \<longleftrightarrow> False"

lemma leasedI:
  "d \<in> set (t_deliveries db) \<Longrightarrow> lease_key d = (cid, mid, g) \<Longrightarrow> v \<le> dr_visible_at d \<Longrightarrow> leased cid mid g v db"
  by (auto simp: leased_def)

lemma leasedE:
  assumes "leased cid mid g v db"
  obtains d where "d \<in> set (t_deliveries db)" "lease_key d = (cid, mid, g)" "v \<le> dr_visible_at d"
  using assms by (auto simp: leased_def)

lemma not_receipt_clause:
  "lease_key d = (cid, mid, g) \<Longrightarrow> \<not> (i = cid \<and> (cid, mid, g) \<in> receipt_key ` set rs) \<Longrightarrow> \<not> receipt_clause i rs d"
  by (auto simp: receipt_clause_def push_receipt_predicate_def lease_key_def)

lemma leased_nacked_chunks:
  assumes "leased cid mid g v db" and "\<not> (i = cid \<and> (cid, mid, g) \<in> receipt_key ` set rs)"
  shows "leased cid mid g v (nacked_chunks w i rs db)"
proof -
  have "leased cid mid g v (fold (nacked_db w i) rss db)"
    if "leased cid mid g v db" "\<forall>xs \<in> set rss. \<not> (i = cid \<and> (cid, mid, g) \<in> receipt_key ` set xs)"
    for rss and db :: database
    using that
  proof (induction rss arbitrary: db)
    case (Cons xs rss)
    from Cons.prems(1) obtain d where d: "d \<in> set (t_deliveries db)" "lease_key d = (cid, mid, g)"
      "v \<le> dr_visible_at d" by (rule leasedE)
    have "\<not> receipt_clause i xs d" using d(2) Cons.prems(2) by (intro not_receipt_clause) auto
    then have "d \<in> set (t_deliveries (nacked_db w i xs db))"
      using d(1) by (force simp: nacked_db_def)
    then have "leased cid mid g v (nacked_db w i xs db)" using d(2,3) by (rule leasedI)
    with Cons show ?case by simp
  qed simp
  moreover have "set xs \<subseteq> set rs" if "xs \<in> set (chunks RECEIPTS_PER_CHUNK rs)" for xs
    using that concat_chunks [OF RECEIPTS_PER_CHUNK_pos, of rs] by (metis UN_upper set_concat)
  ultimately show ?thesis using assms unfolding nacked_chunks_def by blast
qed

lemma leased_claimed:
  assumes del: "deliveries_inv db" and l: "leased cid mid g v db" and "\<not> (cr_id c = cid \<and> v \<le> now)"
  shows "leased cid mid g v (claimed_db c now w n db)"
proof -
  from l obtain d where d: "d \<in> set (t_deliveries db)" "lease_key d = (cid, mid, g)"
    "v \<le> dr_visible_at d" by (rule leasedE)
  have "\<not> picked db (cr_id c) now n d"
  proof
    assume "picked db (cr_id c) now n d"
    then obtain x where x: "x \<in> set (ready_rows db (cr_id c) now n)" "dr_key x = dr_key d"
      by (auto simp: picked_def)
    then have x': "x \<in> set (t_deliveries db)" "dr_consumer_id x = cr_id c" "dr_visible_at x \<le> now"
      using ready_rows_props(1) [OF del, of "cr_id c" now n] by auto
    have "x = d"
      using del d(1) x(2) x'(1) distinct_map_inj [of dr_key "t_deliveries db" x d]
      by (simp add: deliveries_inv_def)
    with x' d(2,3) assms(3) show False by (auto simp: lease_key_def)
  qed
  then have "d \<in> set (t_deliveries (claimed_db c now w n db))" using d(1) by force
  then show ?thesis using d(2,3) by (rule leasedI)
qed

lemma leased_step:
  assumes step: "db_step k db a db'" and inv: "db_inv db" and l: "leased cid mid g v db"
    and calm: "\<not> disturbs cid mid g v db a"
  shows "leased cid mid g v db'"
proof -
  from l obtain d where d: "d \<in> set (t_deliveries db)" "lease_key d = (cid, mid, g)"
    "v \<le> dr_visible_at d" by (rule leasedE)
  from step show ?thesis
  proof (cases rule: db_step.cases)
    case (claimed c self now n E w)
    then show ?thesis using leased_claimed [OF db_invD(3) [OF inv] l] calm by simp
  next
    case (acked self rs)
    then have "\<not> receipt_clause (co_id self) rs d" using d(2) calm by (intro not_receipt_clause) auto
    then have "d \<in> set (t_deliveries db')" using acked d(1) by (simp add: acked_db_def)
    then show ?thesis using d(2,3) by (rule leasedI)
  next
    case (nacked clk self rs retry w)
    then show ?thesis using leased_nacked_chunks [OF l] calm by simp
  next
    case (extended clk self rs timeout w)
    let ?d = "if receipt_clause (co_id self) rs d then extended_row w d else d"
    have "?d \<in> set (t_deliveries db')" using extended d(1) by (simp add: extended_db_def)
    moreover have "lease_key ?d = (cid, mid, g)" "v \<le> dr_visible_at ?d"
      using d(2,3) by (simp_all add: extended_row_def lease_key_def le_max_iff_disj)
    ultimately show ?thesis by (rule leasedI)
  next
    case (archived E clk self rs detail t)
    then have "\<not> receipt_clause (co_id self) rs d" using d(2) calm by (intro not_receipt_clause) auto
    then have "d \<in> set (t_deliveries db')" using archived d(1) by simp
    then show ?thesis using d(2,3) by (rule leasedI)
  next
    case (deleted c name mode)
    then have "cr_id c \<noteq> cid" using calm by auto
    then have "d \<in> set (t_deliveries db')" using deleted d(1,2) by (auto simp: without_consumer_def lease_key_def)
    then show ?thesis using d(2,3) by (rule leasedI)
  next
    case (published t ms os ps L')
    then have "d \<in> set (t_deliveries db')" using d(1) by (simp add: published_db_simps)
    then show ?thesis using d(2,3) by (rule leasedI)
  qed (use d in \<open>auto simp: leased_def created_db_def drained_db_def purged_db_def pruned_db_def\<close>)
qed

lemma leased_perform:
  assumes "fan_inv fan" and "action_ok fan a" and "leased cid mid g v (lf_pool fan)"
    and "\<not> disturbs cid mid g v (lf_pool fan) a"
  shows "leased cid mid g v (lf_pool (perform a fan))"
  using leased_step [OF perform_step [OF assms(1,2)] fan_invD(1) [OF assms(1)] assms(3,4)] .

text \<open>A claim before the deadline does not hand out a leased message.\<close>

lemma leased_not_claimed:
  assumes inv: "db_inv db" and c: "c \<in> set (t_consumers db)" "cr_id c = cid"
    and l: "leased cid mid g v db" and "now < v"
  shows "mid \<notin> set (map ls_message_id (claimed_leases c now w n db))"
proof -
  from l obtain d where d: "d \<in> set (t_deliveries db)" "lease_key d = (cid, mid, g)"
    "v \<le> dr_visible_at d" by (rule leasedE)
  have "mid \<noteq> dr_message_id x" if x: "x \<in> set (ready_rows db (cr_id c) now n)" for x
  proof
    assume "mid = dr_message_id x"
    moreover have x': "x \<in> set (t_deliveries db)" "dr_consumer_id x = cr_id c" "dr_visible_at x \<le> now"
      using x ready_rows_props(1) [OF db_invD(3) [OF inv], of "cr_id c" now n] by auto
    ultimately have "dr_key x = dr_key d" using d(2) c(2) by (auto simp: dr_key_def lease_key_def)
    then have "x = d"
      using db_invD(3) [OF inv] d(1) x'(1) distinct_map_inj [of dr_key "t_deliveries db" x d]
      by (simp add: deliveries_inv_def)
    with x'(3) d(3) assms(5) show False by simp
  qed
  moreover have "mid \<notin> set (fresh_ids db c k)" for k
  proof
    assume "mid \<in> set (fresh_ids db c k)"
    from fresh_keys_new(1) [OF inv c(1) this] d c(2) show False
      by (force simp: dr_key_def lease_key_def)
  qed
  ultimately show ?thesis unfolding claimed_ids by blast
qed

subsection \<open>Helper facts about leases and receipts\<close>

lemma claimed_leased:
  assumes inv: "db_inv db" and c: "c \<in> set (t_consumers db)"
    and l: "l \<in> set (claimed_leases c now v n db)"
  shows "leased (cr_id c) (ls_message_id l) (ls_generation l) v (claimed_db c now v n db)"
proof -
  consider d where "d \<in> set (ready_rows db (cr_id c) now n)" "l = lease_of_row (renewed_row v d)"
    | i where "i \<in> set (fresh_ids db c (claim_fresh db c now n))" "l = fresh_lease i"
    using l by (auto simp: claimed_leases_def)
  then show ?thesis
  proof cases
    case 1
    then have d: "d \<in> set (t_deliveries db)" "dr_consumer_id d = cr_id c" "picked db (cr_id c) now n d"
      using ready_rows_props(1) [OF db_invD(3) [OF inv], of "cr_id c" now n] by (auto simp: picked_def)
    then have "renewed_row v d \<in> set (t_deliveries (claimed_db c now v n db))" by force
    then show ?thesis
      by (rule leasedI) (simp_all add: 1 d lease_key_def lease_of_row_def renewed_row_def)
  next
    case 2
    then have "fresh_row (cr_id c) v i \<in> set (t_deliveries (claimed_db c now v n db))" by simp
    then show ?thesis
      by (rule leasedI) (simp_all add: 2 lease_key_def fresh_lease_def)
  qed
qed

text \<open>A receipt is current when some delivery matches it.\<close>

definition current :: "receipt \<Rightarrow> database \<Rightarrow> bool" where
  "current r db \<longleftrightarrow> (\<exists>d \<in> set (t_deliveries db). lease_key d = receipt_key r)"

definition earlier :: "receipt \<Rightarrow> receipt" where
  "earlier r = r\<lparr>rc_generation := rc_generation r - 1\<rparr>"

lemma current_earlier_spent:
  assumes inv: "db_inv db" and cur: "current r db"
  shows "spent (earlier r) db"
proof -
  obtain d where d: "d \<in> set (t_deliveries db)" "lease_key d = receipt_key r"
    using cur by (auto simp: current_def)
  then have key: "dr_consumer_id d = rc_consumer_id r" "dr_message_id d = rc_message_id r"
    "dr_generation d = rc_generation r" by (simp_all add: lease_key_def receipt_key_def)
  have "passed db (rc_consumer_id r) (rc_message_id r)"
    using db_invD(3) [OF inv] d(1) key by (auto simp: deliveries_inv_def)
  then have "rc_consumer_id r \<le> seq_consumers db" "rc_message_id r \<le> seq_messages db"
    using db_invD(1,2) [OF inv] by (auto simp: passed_def messages_inv_def consumers_inv_def consumer_row_inv_def)
  moreover have "rc_message_id r \<le> cr_scan_cursor c"
    if "c \<in> set (t_consumers db)" "cr_id c = rc_consumer_id r" for c
    using deliveries_behind [OF inv d(1) that(1)] key that(2) by simp
  moreover have "x = d" if "x \<in> set (t_deliveries db)" "dr_key x = (rc_consumer_id r, rc_message_id r)" for x
    using that d(1) key db_invD(3) [OF inv] distinct_map_inj [of dr_key "t_deliveries db" x d]
    by (simp add: deliveries_inv_def dr_key_def)
  ultimately show ?thesis using key by (auto simp: spent_def earlier_def)
qed

lemma earlier_spent_not_current:
  assumes "spent (earlier r) db" and "\<not> current r db"
  shows "spent r db"
proof -
  have "rc_generation r < dr_generation d"
    if "d \<in> set (t_deliveries db)" "dr_key d = (rc_consumer_id r, rc_message_id r)" for d
  proof -
    have "rc_generation r - 1 < dr_generation d" using assms(1) that by (auto simp: spent_def earlier_def)
    moreover have "dr_generation d \<noteq> rc_generation r"
      using assms(2) that by (auto simp: current_def lease_key_def receipt_key_def dr_key_def)
    ultimately show ?thesis by simp
  qed
  then show ?thesis using assms(1) by (auto simp: spent_def earlier_def)
qed

lemma redrives_earlier [simp]: "redrives (earlier r) fan a = redrives r fan a"
  by (cases a) (simp_all add: earlier_def)

lemma spent_run:
  assumes "fan_inv fan" and "run_ok action_ok perform fan as" and "spent r (lf_pool fan)"
    and "run_ok (\<lambda>fan a. \<not> redrives r fan a) perform fan as"
  shows "spent r (lf_pool (fold perform as fan))"
  by (rule fan.run_stable [where P = "\<lambda>fan. spent r (lf_pool fan)", OF _ assms]) (rule spent_perform)

lemma spent_not_current: "spent r db \<Longrightarrow> \<not> current r db"
  using spent_stale by (simp add: current_def)

lemma run_ok_append:
  "run_ok ok step s (as @ bs) \<longleftrightarrow> run_ok ok step s as \<and> run_ok ok step (fold step as s) bs"
  by (induction as arbitrary: s) auto

lemma ack_not_current:
  assumes inv: "fan_inv fan" and "\<not> current r (lf_pool fan)"
  shows "ack self r fan = (Inr False, fan)"
proof -
  have none: "\<not> receipt_clause cid [r] d" if "d \<in> set (t_deliveries (lf_pool fan))" for cid d
    using assms(2) that by (auto simp: current_def receipt_clause_singleton)
  then have "acked_db (co_id self) [r] (lf_pool fan) = lf_pool fan"
    by (simp add: acked_db_def)
  moreover have "held_leases (co_id self) [r] (lf_pool fan) = {}"
    using assms(2) by (auto simp: held_leases_def current_def deliveries_of_def)
  moreover have "length [r] \<le> lf_max_batch_size fan" using fan_invD(3) [OF inv] by simp
  ultimately show ?thesis
    using ack_batch_eq [OF inv, of "[r]" self]
    by (simp add: ack_def applied_one_def batch_result_of_def)
qed

subsection \<open>Draining\<close>

lemma restored_from_archive:
  assumes inv: "fan_inv fan" and ev: "event_of fan a = Restored cid ids" and b: "inboxes (lf_pool fan) cid = Some b"
  shows "ids \<subseteq> ib_archived b"
proof -
  from b obtain c where c: "c \<in> set (t_consumers (lf_pool fan))" "cr_id c = cid" "b = inbox_of (lf_pool fan) c"
    using inboxes_Some [OF db_invD(2) [OF fan_invD(1) [OF inv]]] by blast
  from ev obtain as where "ids = named_ids cid as (lf_pool fan)"
    by (cases a) (auto split: sum.splits option.splits if_splits)
  then show ?thesis
    using c by (auto simp: named_ids_def inbox_of_def archives_of_def redrive_clause_def)
qed

lemma shelved_from_owed:
  assumes inv: "fan_inv fan" and ev: "event_of fan a = Shelved cid ids" and b: "inboxes (lf_pool fan) cid = Some b"
  shows "ids \<subseteq> ib_owed b"
proof -
  from b obtain c where c: "c \<in> set (t_consumers (lf_pool fan))" "cr_id c = cid" "b = inbox_of (lf_pool fan) c"
    using inboxes_Some [OF db_invD(2) [OF fan_invD(1) [OF inv]]] by blast
  from ev obtain rs where "ids = held_ids cid rs (lf_pool fan)"
    by (cases a) (auto split: sum.splits option.splits if_splits)
  then show ?thesis
    using c by (auto simp: held_ids_def inbox_of_def owed_def deliveries_of_def receipt_clause_def)
qed

text \<open>The work a consumer still has, delivered, ahead or archived, when it is draining.\<close>

definition draining_within :: "int \<Rightarrow> int set \<Rightarrow> litefan \<Rightarrow> bool" where
  "draining_within cid work fan \<longleftrightarrow>
     (case inboxes (lf_pool fan) cid of
        None \<Rightarrow> True
      | Some b \<Rightarrow> \<not> ib_accepting b \<and> ib_owed b \<union> ib_archived b \<subseteq> work)"

lemma draining_step:
  assumes inv: "fan_inv fan" and ok: "action_ok fan a" and d: "draining_within cid work fan"
    and alive: "inboxes (lf_pool fan) cid \<noteq> None"
  shows "draining_within cid work (perform a fan)"
proof -
  obtain b where b: "inboxes (lf_pool fan) cid = Some b" using alive by blast
  with d have b': "\<not> ib_accepting b" "ib_owed b \<union> ib_archived b \<subseteq> work"
    by (simp_all add: draining_within_def)
  note sim = perform_simulates [OF inv ok]
  show ?thesis
  proof (cases "event_of fan a")
    case (Created c flt)
    then have "c \<noteq> cid" using created_is_new [OF inv Created] b by auto
    with Created sim b b' show ?thesis by (simp add: draining_within_def)
  next
    case (Restored c ids)
    then have "c = cid \<Longrightarrow> ids \<subseteq> work" using restored_from_archive [OF inv _ b] b'(2) by blast
    then show ?thesis
      using Restored sim b b' by (cases "c = cid") (simp_all add: draining_within_def update_inbox_def, blast)
  next
    case (Shelved c ids)
    then have "c = cid \<Longrightarrow> ids \<subseteq> work" using shelved_from_owed [OF inv _ b] b'(2) by blast
    then show ?thesis
      using Shelved sim b b' by (cases "c = cid") (simp_all add: draining_within_def update_inbox_def, blast)
  qed (use sim b b' in \<open>auto simp: draining_within_def update_inbox_def deposit_def\<close>)
qed

lemma ack_current:
  assumes inv: "fan_inv fan" and cur: "current r (lf_pool fan)" and "rc_consumer_id r = co_id self"
  shows "fst (ack self r fan) = Inr True"
proof -
  have "held_leases (co_id self) [r] (lf_pool fan) = {receipt_key r}"
    using cur assms(3) by (force simp: current_def held_leases_def deliveries_of_def lease_key_def receipt_key_def)
  moreover have "length [r] \<le> lf_max_batch_size fan" using fan_invD(3) [OF inv] by simp
  ultimately show ?thesis
    using ack_batch_eq [OF inv, of "[r]" self] by (simp add: ack_def applied_one_def batch_result_of_def)
qed

text \<open>A message that has a delivery is handed out with that delivery's next generation.\<close>

lemma claimed_generation:
  assumes inv: "db_inv db" and c: "c \<in> set (t_consumers db)"
    and d: "d \<in> set (t_deliveries db)" "dr_consumer_id d = cr_id c"
    and l: "l \<in> set (claimed_leases c now v n db)" "ls_message_id l = dr_message_id d"
  shows "ls_generation l = dr_generation d + 1"
proof -
  consider x where "x \<in> set (ready_rows db (cr_id c) now n)" "l = lease_of_row (renewed_row v x)"
    | i where "i \<in> set (fresh_ids db c (claim_fresh db c now n))" "l = fresh_lease i"
    using l(1) by (auto simp: claimed_leases_def)
  then show ?thesis
  proof cases
    case 1
    then have x: "x \<in> set (t_deliveries db)" "dr_consumer_id x = cr_id c"
      using ready_rows_props(1) [OF db_invD(3) [OF inv], of "cr_id c" now n] by auto
    then have "x = d"
      using 1(2) d l(2) db_invD(3) [OF inv] distinct_map_inj [of dr_key "t_deliveries db" x d]
      by (simp add: deliveries_inv_def dr_key_def)
    with 1(2) show ?thesis by (simp add: lease_of_row_def renewed_row_def)
  next
    case 2
    with d l(2) fresh_keys_new(1) [OF inv c 2(1)] show ?thesis by (force simp: dr_key_def)
  qed
qed

subsection \<open>Attempts and generations\<close>

text \<open>
  A lease starts a generation and counts an attempt, a release starts a generation only, and
  an archive keeps both numbers: no row counts more attempts than its generation.
\<close>

definition attempts_bounded :: "database \<Rightarrow> bool" where
  "attempts_bounded db \<longleftrightarrow>
     (\<forall>d \<in> set (t_deliveries db). dr_delivery_count d \<le> dr_generation d) \<and>
     (\<forall>a \<in> set (t_archives db). ar_delivery_count a \<le> ar_last_generation a)"

lemma attempts_bounded_rows:
  assumes "attempts_bounded db"
    and "\<And>d'. d' \<in> set (t_deliveries db') \<Longrightarrow>
      d' \<in> set (t_deliveries db) \<or> dr_delivery_count d' \<le> dr_generation d'"
    and "\<And>a'. a' \<in> set (t_archives db') \<Longrightarrow>
      a' \<in> set (t_archives db) \<or> ar_delivery_count a' \<le> ar_last_generation a'"
  shows "attempts_bounded db'"
  using assms unfolding attempts_bounded_def by blast

lemma attempts_bounded_nacked: "attempts_bounded db \<Longrightarrow> attempts_bounded (nacked_chunks v cid rs db)"
proof -
  have "attempts_bounded (fold (nacked_db v cid) rss db)" if "attempts_bounded db" for rss and db :: database
    using that
  proof (induction rss arbitrary: db)
    case (Cons xs rss)
    have "attempts_bounded (nacked_db v cid xs db)"
      using Cons.prems by (auto simp: attempts_bounded_def nacked_db_def nacked_row_def)
    with Cons.IH show ?case by simp
  qed simp
  then show "attempts_bounded db \<Longrightarrow> ?thesis" by (simp add: nacked_chunks_def)
qed

lemma attempts_bounded_claimed: "attempts_bounded db \<Longrightarrow> attempts_bounded (claimed_db c now v n db)"
  unfolding attempts_bounded_def
  by (auto simp: renewed_row_def fresh_row_def claimed_db_def scanned_db_def moved_db_def renewed_db_def)

lemma attempts_bounded_archived:
  assumes old: "attempts_bounded db"
  shows "attempts_bounded (archived_db cid rs t detail db)"
proof (rule attempts_bounded_rows [OF old])
  fix a assume "a \<in> set (t_archives (archived_db cid rs t detail db))"
  then consider "a \<in> set (t_archives db)"
    | "a \<in> set (archive_rows t detail (seq_archives db) (archived_leases cid rs db))"
    by (auto simp: archived_db_def)
  then show "a \<in> set (t_archives db) \<or> ar_delivery_count a \<le> ar_last_generation a"
  proof cases
    case 2
    then obtain d j where "d \<in> set (t_deliveries db)" "a = archive_row_of t detail (archived_lease_from_row d) j"
      using archive_rows_in [OF 2] by (auto simp: set_archived_leases)
    then show ?thesis
      using old by (simp add: attempts_bounded_def archive_row_of_def archived_lease_from_row_def)
  qed simp
qed (auto simp: archived_db_def acked_db_def)

lemma attempts_bounded_step:
  assumes step: "db_step w db a db'" and ab: "attempts_bounded db"
  shows "attempts_bounded db'"
  using step
proof (cases rule: db_step.cases)
  case published
  then show ?thesis using ab by (auto simp: attempts_bounded_def published_db_simps)
next
  case claimed
  then show ?thesis using attempts_bounded_claimed [OF ab] by simp
next
  case nacked
  then show ?thesis using attempts_bounded_nacked [OF ab] by simp
next
  case archived
  then show ?thesis using attempts_bounded_archived [OF ab] by simp
qed (use ab in \<open>auto simp: attempts_bounded_def created_db_def drained_db_def acked_db_def extended_db_def
      extended_row_def redriven_row_def purged_db_def without_consumer_def pruned_db_def\<close>)

lemma reachable_attempts: "reachable config fan \<Longrightarrow> attempts_bounded (lf_pool fan)"
proof (induction rule: reachable.induct)
  case (opened config fan created)
  then show ?case
    using open_with_config_Inr(2) [OF opened.hyps]
    by (simp add: attempts_bounded_def missing_file_def empty_database_def)
next
  case (acted config fan a)
  from perform_step [OF reachable_inv_fan [OF acted.hyps(1)] acted.hyps(2)] acted.IH
  show ?case by (rule attempts_bounded_step)
next
  case (reopened config fan config' fan' created)
  then show ?case using open_with_config_Inr(2) [OF reopened.hyps(2)] by (simp add: closed_file_def)
qed

end
