(* ===== verification/Delivering.thy ===== *)
theory Delivering
  imports Claiming
begin

text \<open>
  What \<open>Consumer::claim\<close> returns: the deliveries built from the leases and messages of a
  committed lease transaction, and the ways a claim can end.
\<close>

subsection \<open>The deliveries of a lease transaction\<close>

lemma claimed_messages:
  assumes inv: "db_inv db" and c: "c \<in> set (t_consumers db)"
  shows "map (message_id_get \<circ> msg_id) (messages_named db (map ls_message_id (claimed_leases c now v n db)))
    = map ls_message_id (claimed_leases c now v n db)"
  by (rule messages_named_ids [OF db_invD(1) [OF inv] claimed_leases_sorted [OF inv c] claimed_ids_retained [OF inv]])

lemma claimed_deliveries_nth:
  assumes inv: "db_inv db" and c: "c \<in> set (t_consumers db)" and d: "d \<in> set (claimed_deliveries self c now v n db)"
  obtains l m where "l \<in> set (claimed_leases c now v n db)" "m \<in> set (t_messages db)"
    "mr_id m = ls_message_id l" "d = delivery_record self l (message_of_row m)"
proof -
  let ?ls = "claimed_leases c now v n db" and ?ms = "messages_named db (map ls_message_id (claimed_leases c now v n db))"
  note ids = claimed_messages [OF inv c, of now v n]
  then have len: "length ?ms = length ?ls" by (metis length_map)
  from d obtain i where i: "i < length ?ls" "d = delivery_record self (?ls ! i) (?ms ! i)"
    using len by (auto simp: claimed_deliveries_def Let_def set_zip)
  have id: "message_id_get (msg_id (?ms ! i)) = ls_message_id (?ls ! i)"
    using arg_cong [OF ids, of "\<lambda>xs. xs ! i"] i(1) len by simp
  have "?ms ! i \<in> set ?ms" using i(1) len by simp
  then obtain m where m: "m \<in> set (t_messages db)" "?ms ! i = message_of_row m"
    by (auto simp: messages_named_def)
  have "?ls ! i \<in> set ?ls" using i(1) by simp
  with m id i(2) show thesis by (intro that) auto
qed

lemma claimed_deliveries_ids:
  assumes inv: "db_inv db" and c: "c \<in> set (t_consumers db)"
  shows "map (\<lambda>d. message_id_get (msg_id (dv_message d))) (claimed_deliveries self c now v n db)
    = map ls_message_id (claimed_leases c now v n db)"
proof -
  let ?ls = "claimed_leases c now v n db" and ?ms = "messages_named db (map ls_message_id (claimed_leases c now v n db))"
  note ids = claimed_messages [OF inv c, of now v n]
  then have len: "length ?ls = length ?ms" by (metis length_map)
  have "map (\<lambda>d. message_id_get (msg_id (dv_message d))) (map2 (delivery_record self) ls ms)
      = map (message_id_get \<circ> msg_id) ms" if "length ls = length ms" for ls ms
    using that by (induction ls ms rule: list_induct2) (simp_all add: delivery_record_def)
  with len ids show ?thesis by (simp add: claimed_deliveries_def Let_def)
qed

lemma length_claimed_leases:
  assumes "deliveries_inv db"
  shows "length (claimed_leases c now v n db) =
    min n (length (filter (\<lambda>d. dr_visible_at d \<le> now) (deliveries_of db (cr_id c))) + length (unscanned db c))"
  using ready_rows_props(3) [OF assms, of "cr_id c" now n]
  by (simp add: claimed_leases_def length_fresh_ids claim_fresh_def)

text \<open>
  The ways a claim can go: no time, no consumer, nothing to do, a deadline out of range, and the
  lease transaction, which fails or commits.
\<close>

lemma claim_cases:
  assumes "claim E others1 others2 clk self n lease_ms fan = (r, fan')"
  obtains (clock) e where "now_ms clk = Inl e" "r = Inl e" "fan' = fan"
    | (gone) "find_consumer (co_id self) (lf_pool fan) = None" "r = Inl (deleted_error self)" "fan' = fan"
    | (idle) now state where "now_ms clk = Inr now" "claim_state_query (co_id self) (lf_pool fan) = Some state"
      "\<not> (case st_earliest_visible_at state of None \<Rightarrow> False | Some v \<Rightarrow> v \<le> now)"
      "st_scan_limit state \<le> st_scan_cursor state"
      "r = Inr \<lparr>cl_deliveries = [], cl_next_visible_at = st_earliest_visible_at state, cl_draining = st_draining state\<rparr>"
      "fan' = fan"
    | (far) now where "now_ms clk = Inr now" "\<not> in_i64 (now + lease_ms)" "r = Inl DurationOutOfRange" "fan' = fan"
    | (failed) now e where "now_ms clk = Inr now"
      "claim_txn E self n now (now + lease_ms) (others1 (lf_pool fan)) = Inl e"
      "r = Inl e" "fan' = fan\<lparr>lf_pool := others1 (lf_pool fan)\<rparr>"
    | (committed) now claimed db where "now_ms clk = Inr now"
      "claim_txn E self n now (now + lease_ms) (others1 (lf_pool fan)) = Inr (claimed, db)"
      "claim_finish self now claimed (others2 db) = r" "fan' = fan\<lparr>lf_pool := others2 db\<rparr>"
proof (cases "now_ms clk")
  case (Inl e)
  with assms show thesis by (intro clock) (auto simp: claim_def)
next
  case (Inr now)
  note clk = Inr
  show thesis
  proof (cases "claim_state_query (co_id self) (lf_pool fan)")
    case None
    with assms clk show thesis by (intro gone) (auto simp: claim_def claim_state_query_def)
  next
    case (Some state)
    note run = assms [unfolded claim_def clk Some ok_or.simps and_then.simps sum.case prod.case Let_def]
    let ?ready = "case st_earliest_visible_at state of None \<Rightarrow> False | Some v \<Rightarrow> v \<le> now"
    show thesis
    proof (cases "\<not> ?ready \<and> st_scan_limit state \<le> st_scan_cursor state")
      case True
      with run clk Some show thesis by (intro idle [of now state]) simp_all
    next
      case busy: False
      show thesis
      proof (cases "in_i64 (now + lease_ms)")
        case False
        with run busy clk show thesis by (intro far [of now]) (simp_all add: checked_add_def)
      next
        case True
        with run busy clk show thesis
          by (cases "claim_txn E self n now (now + lease_ms) (others1 (lf_pool fan))")
            (force simp: checked_add_def transaction_def intro: failed committed)+
      qed
    qed
  qed
qed

text \<open>A claim without work has no delivery that is due and no message ahead.\<close>

lemma claim_idle:
  assumes inv: "db_inv db" and st: "claim_state_query cid db = Some state"
    and idle: "\<not> (case st_earliest_visible_at state of None \<Rightarrow> False | Some v \<Rightarrow> v \<le> now)"
      "st_scan_limit state \<le> st_scan_cursor state"
  obtains c where "c \<in> set (t_consumers db)" "cr_id c = cid"
    "\<forall>d \<in> set (deliveries_of db cid). now < dr_visible_at d" "unscanned db c = []"
proof -
  obtain c where c: "find_consumer cid db = Some c"
    and state: "st_scan_cursor state = cr_scan_cursor c" "st_scan_limit state = scan_limit db c"
      "st_earliest_visible_at state = min_opt (map dr_visible_at (deliveries_of db cid))"
    using st by (auto simp: claim_state_query_def)
  have c': "c \<in> set (t_consumers db)" "cr_id c = cid"
    using find_consumer_Some [OF db_invD(2) [OF inv]] c by auto
  have "now < dr_visible_at d" if "d \<in> set (deliveries_of db cid)" for d
  proof -
    have "deliveries_of db cid \<noteq> []" using that by auto
    then obtain m where m: "min_opt (map dr_visible_at (deliveries_of db cid)) = Some m"
      by (simp add: min_opt_def)
    then have "m \<le> dr_visible_at d" using that by (auto intro: min_opt_Some_le)
    with idle(1) m state(3) show ?thesis by simp
  qed
  moreover have "unscanned db c = []"
    using idle(2) state(1,2) by (auto simp: unscanned_def filter_empty_conv)
  ultimately show thesis using c' by (intro that) auto
qed

text \<open>How a claim ends when it succeeds: nothing was due, or the lease transaction ran.\<close>

lemma claim_Inr:
  assumes E: "engine_ok E" and inv: "fan_inv fan" and n: "n \<le> lf_max_batch_size fan"
    and db1: "db_inv (others1 (lf_pool fan))"
    and run: "claim E others1 others2 clk self n lease_ms fan = (Inr r, fan')"
  obtains (idle) now c where "now_ms clk = Inr now" "c \<in> set (t_consumers (lf_pool fan))" "cr_id c = co_id self"
      "\<forall>d \<in> set (deliveries_of (lf_pool fan) (cr_id c)). now < dr_visible_at d" "unscanned (lf_pool fan) c = []"
      "cl_deliveries r = []" "fan' = fan"
    | (leased) now c where "now_ms clk = Inr now" "c \<in> set (t_consumers (others1 (lf_pool fan)))" "cr_id c = co_id self"
      "cl_deliveries r = claimed_deliveries self c now (now + lease_ms) n (others1 (lf_pool fan))"
      "lf_pool fan' = others2 (claimed_db c now (now + lease_ms) n (others1 (lf_pool fan)))"
      "db_inv (claimed_db c now (now + lease_ms) n (others1 (lf_pool fan)))"
  using run
proof (cases rule: claim_cases)
  case (idle now state)
  obtain c where "c \<in> set (t_consumers (lf_pool fan))" "cr_id c = co_id self"
    "\<forall>d \<in> set (deliveries_of (lf_pool fan) (co_id self)). now < dr_visible_at d" "unscanned (lf_pool fan) c = []"
    by (rule claim_idle [OF fan_invD(1) [OF inv] idle(2-4)])
  with idle that(1) show thesis by simp
next
  case (committed now claimed db)
  let ?db1 = "others1 (lf_pool fan)"
  have n': "int n \<le> i64_max" using n fan_invD(4) [OF inv] by linarith
  from E db1 n' show thesis
  proof (cases rule: claim_txn_cases [where self = self and now = now and v = "now + lease_ms"])
    case (leased c)
    have "claimed_deliveries self c now (now + lease_ms) n ?db1 = []" if "claimed_leases c now (now + lease_ms) n ?db1 = []"
      using that by (simp add: claimed_deliveries_def)
    then have "cl_deliveries r = claimed_deliveries self c now (now + lease_ms) n ?db1"
      using committed leased claim_finish_eq [OF db1 leased(1), of self now "now + lease_ms" n]
      by (auto split: if_splits)
    moreover have "lf_pool fan' = others2 (claimed_db c now (now + lease_ms) n ?db1)"
      using committed leased by simp
    moreover have "db_inv (claimed_db c now (now + lease_ms) n ?db1)"
      using claimed_db_inv [OF db1 leased(1)] leased(2,3) by simp
    ultimately show thesis by (rule that(2) [OF committed(1) leased(1,2)])
  qed (use committed in simp_all)
qed simp_all

text \<open>The errors of a claim: a bad clock or lease, a deleted consumer, an exhausted counter.\<close>

lemma claim_Inl:
  assumes E: "engine_ok E" and inv: "fan_inv fan" and n: "n \<le> lf_max_batch_size fan"
    and db1: "db_inv (others1 (lf_pool fan))"
    and run: "claim E others1 others2 clk self n lease_ms fan = (Inl e, fan')"
  shows "e \<in> {ClockBeforeUnixEpoch, DurationOutOfRange, deleted_error self, Sqlx DatatypeViolation}"
  using run
proof (cases rule: claim_cases)
  case (clock e')
  with now_ms_Inl show ?thesis by auto
next
  case (failed now e')
  have n': "int n \<le> i64_max" using n fan_invD(4) [OF inv] by linarith
  from E db1 n' show ?thesis
    by (cases rule: claim_txn_cases [where self = self and now = now and v = "now + lease_ms"]) (use failed in auto)
next
  case (committed now claimed db)
  have n': "int n \<le> i64_max" using n fan_invD(4) [OF inv] by linarith
  from E db1 n' show ?thesis
  proof (cases rule: claim_txn_cases [where self = self and now = now and v = "now + lease_ms"])
    case (leased c)
    with committed claim_finish_eq [OF db1 leased(1), of self now "now + lease_ms" n]
    show ?thesis by (auto split: if_splits)
  qed (use committed in auto)
qed auto

text \<open>With no other process in between, a failed claim changes nothing.\<close>

lemma claim_failed:
  assumes E: "engine_ok E" and inv: "fan_inv fan" and n: "n \<le> lf_max_batch_size fan"
    and run: "claim E (\<lambda>db. db) (\<lambda>db. db) clk self n lease_ms fan = (Inl e, fan')"
  shows "fan' = fan"
  using run
proof (cases rule: claim_cases)
  case (committed now claimed db)
  let ?db = "lf_pool fan"
  have n': "int n \<le> i64_max" using n fan_invD(4) [OF inv] by linarith
  from E fan_invD(1) [OF inv] n' show ?thesis
  proof (cases rule: claim_txn_cases [where self = self and now = now and v = "now + lease_ms"])
    case (leased c)
    have "map cr_id (t_consumers (claimed_db c now (now + lease_ms) n ?db)) = map cr_id (t_consumers ?db)"
      by (simp add: claimed_db_def scanned_db_def moved_db_def renewed_db_def)
    then have "co_id self \<in> cr_id ` set (t_consumers (claimed_db c now (now + lease_ms) n ?db))"
      using leased(1,2) by (metis imageI list.set_map)
    then have "find_consumer (co_id self) (claimed_db c now (now + lease_ms) n ?db) \<noteq> None"
      by (simp add: find_consumer_None)
    with committed leased claim_finish_eq [OF fan_invD(1) [OF inv] leased(1), of self now "now + lease_ms" n]
    show ?thesis by (auto simp: claim_state_query_def split: if_splits)
  qed (use committed in auto)
qed simp_all

end
