(* ===== verification/Idempotency.thy ===== *)
theory Idempotency
  imports System
begin

text \<open>
  The idempotency ledger over time: a batch as an equation over its reference
  \<open>publish_each\<close>, the ledger it leaves, the same batch published one message at a time,
  and the keys that stay remembered along a run until their window ends.
\<close>

subsection \<open>The reference\<close>

lemma publish_each_append:
  "publish_each L n (xs @ ys) = (let (os1, ps1, L1) = publish_each L n xs;
      (os2, ps2, L2) = publish_each L1 (n + int (length ps1)) ys in (os1 @ os2, ps1 @ ps2, L2))"
  by (induction xs arbitrary: L n) (auto simp: Let_def add_ac split: option.splits prod.splits)

lemma find_ledger_entries:
  "find (\<lambda>r. ir_key r = k) (map (ledger_entry e L) ks) = (if k \<in> set ks then Some (ledger_entry e L k) else None)"
  by (induction ks) (auto simp: ledger_entry_def)

lemma publish_each_other_keys:
  "publish_each L n ms = (os, ps, L') \<Longrightarrow> \<forall>m \<in> set ms. pb_idempotency_key m \<noteq> Some k \<Longrightarrow> L' k = L k"
  by (induction ms arbitrary: L n os ps) (auto split: option.splits prod.splits)

text \<open>The ledger a batch leaves, read at the time of the batch, is the reference's.\<close>

lemma published_ledger:
  assumes inv: "db_inv db" and E: "engine_ok E"
    and ref: "publish_each (live_ledger t db) (seq_messages db) ms = (os, ps, L')"
    and cap: "seq_messages db + int (length ps) \<le> i64_max" and e: "t < e"
  shows "live_ledger t (published_db E t e ms db) = L'"
proof
  fix k
  show "live_ledger t (published_db E t e ms db) k = L' k"
  proof (cases "batch_unkeyed ms")
    case True
    then have "L' = live_ledger t db"
      using ref publish_each_unkeyed [of ms "live_ledger t db" "seq_messages db"] by (simp add: batch_unkeyed_def)
    with True show ?thesis
      by (simp add: published_db_def live_ledger_def add_messages_def purge_expired_idempotency_def)
  next
    case False
    note led = db_invD(5) [OF inv]
    let ?old = "t_idempotency (purge_expired_idempotency t db)"
    have rows: "t_idempotency (purge_expired_idempotency t (keyed_result E t e ms db))
        = ?old @ map (ledger_entry e L') (reserved_keys E t ms db)"
      using e by (simp add: keyed_result_ref [OF ref] purge_expired_idempotency_def ledger_entry_def)
    have keys: "k \<in> set (reserved_keys E t ms db) \<longleftrightarrow>
        live_ledger t db k = None \<and> (\<exists>m \<in> set ms. pb_idempotency_key m = Some k)"
      using batch_keys_facts(2) [OF E, of ms] by (auto simp: reserved_keys_def)
    show ?thesis
    proof (cases "live_ledger t db k")
      case None
      have "find (\<lambda>r. ir_key r = k) ?old = None"
        using None live_ledger_None [OF led, of t k] by (auto simp: find_None_iff)
      then have "live_ledger t (keyed_result E t e ms db) k = (if k \<in> set (reserved_keys E t ms db) then L' k else None)"
        by (simp add: live_ledger_def rows find_append_None find_ledger_entries ledger_entry_def)
      moreover have "L' k = None" if "k \<notin> set (reserved_keys E t ms db)"
      proof -
        have "\<forall>m \<in> set ms. pb_idempotency_key m \<noteq> Some k" using that None keys by auto
        from publish_each_other_keys [OF ref this] None show ?thesis by simp
      qed
      ultimately show ?thesis using False by (simp add: published_db_def)
    next
      case (Some i)
      from keyed_result_keeps [OF inv E ref cap Some order_refl] publish_each_mono [OF ref Some] False
      show ?thesis by (simp add: published_db_def)
    qed
  qed
qed

subsection \<open>One message at a time\<close>

text \<open>The specification of a batch: the messages published one by one by calls of their own.\<close>

fun publish_one_by_one :: "engine \<Rightarrow> clock \<Rightarrow> publish list \<Rightarrow> publish_outcome list handler" where
  "publish_one_by_one E clk [] fan = (Inr [], fan)"
| "publish_one_by_one E clk (m # ms) fan =
     (case publish E clk m fan of
        (Inl e, fan') \<Rightarrow> (Inl e, fan')
      | (Inr x, fan') \<Rightarrow>
          (case publish_one_by_one E clk ms fan' of
             (Inl e, fan'') \<Rightarrow> (Inl e, fan'')
           | (Inr xs, fan'') \<Rightarrow> (Inr (x # xs), fan'')))"

lemma one_by_one_reference:
  assumes "fan_inv fan" and E: "engine_ok E" and t: "now_ms clk = Inr t"
    and room: "t + lf_idempotency_window_ms fan \<le> i64_max"
    and "publish_each (live_ledger t (lf_pool fan)) (seq_messages (lf_pool fan)) ms = (os, ps, L')"
    and "seq_messages (lf_pool fan) + int (length ps) \<le> i64_max"
  shows "\<exists>fan'. publish_one_by_one E clk ms fan = (Inr os, fan') \<and>
    t_messages (lf_pool fan') = t_messages (lf_pool fan) @ message_rows (seq_messages (lf_pool fan)) t ps \<and>
    live_ledger t (lf_pool fan') = L'"
  using assms(1,4-6)
proof (induction ms arbitrary: fan os ps)
  case (Cons m ms)
  let ?db = "lf_pool fan" and ?w = "lf_idempotency_window_ms fan"
  obtain os1 ps1 L1 where one: "publish_each (live_ledger t ?db) (seq_messages ?db) [m] = (os1, ps1, L1)"
    by (cases "publish_each (live_ledger t ?db) (seq_messages ?db) [m]")
  obtain os2 ps2 where rest: "publish_each L1 (seq_messages ?db + int (length ps1)) ms = (os2, ps2, L')"
    and os: "os = os1 @ os2" "ps = ps1 @ ps2"
    using Cons.prems(3) publish_each_append [of "live_ledger t ?db" "seq_messages ?db" "[m]" ms] one
    by (auto split: prod.splits)
  have cap1: "seq_messages ?db + int (length ps1) \<le> i64_max" using Cons.prems(4) os(2) by simp
  have range: "in_i64 (t + ?w)"
    using Cons.prems(1,2) now_ms_bounds [OF t] by (simp add: in_i64_def fan_inv_def i64_min_def)
  have size: "length [m] \<le> lf_max_batch_size fan" using fan_invD(3) [OF Cons.prems(1)] by simp
  define fan1 where "fan1 = fan\<lparr>lf_pool := published_db E t (t + ?w) [m] ?db, lf_signals := wake_publishes ps1 (lf_signals fan)\<rparr>"
  have batch: "publish_batch E clk [m] fan = (Inr os1, fan1)"
    using publish_batch_eq [OF Cons.prems(1) E _ size, of clk "\<lambda>_. os1" "\<lambda>_. ps1" "\<lambda>_. L1"] one t range cap1
    by (simp add: fan1_def)
  have inv1: "fan_inv fan1" by (rule publish_batch_inv [OF Cons.prems(1) E batch])
  have db1: "seq_messages (lf_pool fan1) = seq_messages ?db + int (length ps1)"
    "t_messages (lf_pool fan1) = t_messages ?db @ message_rows (seq_messages ?db) t ps1"
    "live_ledger t (lf_pool fan1) = L1" "lf_idempotency_window_ms fan1 = ?w"
    using published_db_simps(1,2) [OF one]
      published_ledger [OF fan_invD(1) [OF Cons.prems(1)] E one cap1, of "t + ?w"] fan_invD(5) [OF Cons.prems(1)]
    by (simp_all add: fan1_def)
  obtain fan' where IH: "publish_one_by_one E clk ms fan1 = (Inr os2, fan')"
    "t_messages (lf_pool fan') = t_messages (lf_pool fan1) @ message_rows (seq_messages (lf_pool fan1)) t ps2"
    "live_ledger t (lf_pool fan') = L'"
    using Cons.IH [OF inv1, of os2 ps2] Cons.prems(2,4) rest os db1 by auto
  obtain x where "os1 = [x]" using publish_each_length [OF one] by (cases os1) auto
  with batch IH db1 os show ?case by (simp add: publish_def message_rows_append)
qed simp

subsection \<open>Keys along a run\<close>

text \<open>A key is remembered until a time when the ledger has its message and an expiry no earlier.\<close>

definition remembered :: "blob \<Rightarrow> int \<Rightarrow> int \<Rightarrow> database \<Rightarrow> bool" where
  "remembered k i until db \<longleftrightarrow>
     (\<exists>r \<in> set (t_idempotency db). ir_key r = k \<and> ir_message_id r = Some i \<and> until \<le> ir_expires_at r)"

text \<open>Only a publish at or after that time can forget it.\<close>

fun publishes_after :: "int \<Rightarrow> action \<Rightarrow> bool" where
  "publishes_after until (DoPublish E clk ms) \<longleftrightarrow> (\<exists>t. now_ms clk = Inr t \<and> until \<le> t)"
| "publishes_after until _ \<longleftrightarrow> False"

lemma published_idempotency:
  assumes "publish_each (live_ledger t db) (seq_messages db) ms = (os, ps, L')"
    and "r \<in> set (t_idempotency db)" and "t < ir_expires_at r"
  shows "r \<in> set (t_idempotency (published_db E t e ms db))"
  using assms(2,3)
  by (simp add: published_db_def add_messages_def keyed_result_ref [OF assms(1)] purge_expired_idempotency_def)

lemma remembered_step:
  assumes step: "db_step w db a db'" and "remembered k i until db" and calm: "\<not> publishes_after until a"
  shows "remembered k i until db'"
proof -
  obtain r where r: "r \<in> set (t_idempotency db)" "ir_key r = k" "ir_message_id r = Some i" "until \<le> ir_expires_at r"
    using assms(2) by (auto simp: remembered_def)
  have same: "t_idempotency (nacked_chunks v cid rs db) = t_idempotency db" for v cid rs
  proof -
    have "t_idempotency (fold (nacked_db v cid) rss db) = t_idempotency db" for rss
      by (induction rss arbitrary: db) (simp_all add: nacked_db_def)
    then show ?thesis by (simp add: nacked_chunks_def)
  qed
  from step show ?thesis
  proof (cases rule: db_step.cases)
    case (published t ms os ps L' clk E)
    then have "t < ir_expires_at r" using calm r(4) by force
    with published_idempotency [OF published(3) r(1)] r published(2) show ?thesis by (auto simp: remembered_def)
  qed (use assms(2) same in \<open>simp_all add: remembered_def created_db_def drained_db_def acked_db_def extended_db_def
      purged_db_def without_consumer_def pruned_db_def\<close>)
qed

lemma remembered_perform:
  assumes "fan_inv fan" and "action_ok fan a" and "remembered k i until (lf_pool fan)" and "\<not> publishes_after until a"
  shows "remembered k i until (lf_pool (perform a fan))"
  by (rule remembered_step [OF perform_step [OF assms(1,2)] assms(3,4)])

lemma publish_each_published:
  "publish_each L n ms = (os, ps, L') \<Longrightarrow> (Published (MessageId i), m) \<in> set (zip os ms) \<Longrightarrow>
   pb_idempotency_key m = Some k \<Longrightarrow> L k = None \<and> L' k = Some i"
proof (induction ms arbitrary: L n os ps)
  case (Cons a ms)
  from Cons.prems(1) show ?case
  proof (cases rule: publish_each_ConsE)
    case (unkeyed os1 ps1)
    with Cons.IH [OF unkeyed(2)] Cons.prems(2,3) show ?thesis by auto
  next
    case (known k' i' os1)
    with Cons.IH [OF known(3)] Cons.prems(2,3) show ?thesis by auto
  next
    case (first k' os1 ps1)
    show ?thesis
    proof (cases "(Published (MessageId i), m) = (Published (MessageId (n + 1)), a)")
      case True
      with first Cons.prems(3) publish_each_mono [OF first(3), of k "n + 1"] show ?thesis by auto
    next
      case False
      with Cons.prems(2) first(4) have "(Published (MessageId i), m) \<in> set (zip os1 ms)" by auto
      from Cons.IH [OF first(3) this Cons.prems(3)] show ?thesis by (auto split: if_splits)
    qed
  qed
qed simp

lemma publish_each_known:
  "publish_each L n ms = (os, ps, L') \<Longrightarrow> (x, m) \<in> set (zip os ms) \<Longrightarrow>
   pb_idempotency_key m = Some k \<Longrightarrow> L k = Some i \<Longrightarrow> x = Duplicate (MessageId i)"
proof (induction ms arbitrary: L n os ps)
  case (Cons a ms)
  from Cons.prems(1) show ?case
  proof (cases rule: publish_each_ConsE)
    case (unkeyed os1 ps1)
    with Cons.IH [OF unkeyed(2)] Cons.prems(2-4) show ?thesis by auto
  next
    case (known k' i' os1)
    with Cons.IH [OF known(3)] Cons.prems(2-4) show ?thesis by auto
  next
    case (first k' os1 ps1)
    then have "k' \<noteq> k" using Cons.prems(4) by auto
    with first Cons.IH [OF first(3)] Cons.prems(2-4) show ?thesis by auto
  qed
qed simp

end
