(* ===== verification/Waiting.thy ===== *)
theory Waiting
  imports Lifetimes Delivering
begin

text \<open>
  Wake-ups inside a process: what notifications do to the registry, how the handles a process
  holds keep their signals alive and registered, and that every operation that gives a waiting
  handle work sends on a signal the handle listens to. A process is its store together with
  the handles it holds, a second instance of the locale \<open>refinement\<close>.
\<close>

subsection \<open>Sends\<close>

definition sends :: "nat \<Rightarrow> signals \<Rightarrow> nat" where
  "sends s sg = w_sends (sh_watch (sg_heap sg) s)"

lemma sends_signal_notify [simp]: "w_sends (signal_notify w) = Suc (w_sends w)"
  by (simp add: signal_notify_def watch_send_modify_def)

text \<open>What notifications keep: the allocated signals, the reference counts and the live entries.\<close>

definition only_notified :: "signals \<Rightarrow> signals \<Rightarrow> bool" where
  "only_notified sg sg' \<longleftrightarrow> sh_next (sg_heap sg') = sh_next (sg_heap sg) \<and>
     sh_strong (sg_heap sg') = sh_strong (sg_heap sg) \<and> sg_all_publishes sg' = sg_all_publishes sg \<and>
     (\<forall>s. sends s sg \<le> sends s sg') \<and>
     (\<forall>t. live_signal (sg_topics sg') (sg_heap sg') t = live_signal (sg_topics sg) (sg_heap sg) t) \<and>
     (\<forall>i. live_signal (sg_consumers sg') (sg_heap sg') i = live_signal (sg_consumers sg) (sg_heap sg) i)"

lemma only_notified_refl [simp]: "only_notified sg sg"
  by (simp add: only_notified_def)

lemma only_notified_trans: "only_notified a b \<Longrightarrow> only_notified b c \<Longrightarrow> only_notified a c"
  by (auto simp: only_notified_def intro: order_trans)

lemma only_notified_signal: "only_notified sg (notify_signal s sg)"
  by (simp add: only_notified_def notify_signal_def sends_def)

lemma live_signal_removed: "live_signal reg h k = None \<Longrightarrow> live_signal (reg(k := None)) h x = live_signal reg h x"
  by (auto simp: live_signal_def split: option.splits)

lemma only_notified_topic: "only_notified sg (notify_topic t sg)"
  by (auto simp: only_notified_def notify_topic_def sends_def live_signal_removed split: option.splits)

lemma only_notified_consumer: "only_notified sg (notify_consumer i sg)"
  by (auto simp: only_notified_def notify_consumer_def sends_def live_signal_removed split: option.splits)

lemma only_notified_topics: "only_notified sg (fold notify_topic ts sg)"
  by (induction ts arbitrary: sg) (auto intro: only_notified_trans only_notified_topic)

lemma notify_publishes_fold:
  "notify_publishes topics sg = fold notify_topic (remdups (List.map_filter id topics)) (notify_signal (sg_all_publishes sg) sg)"
  by (simp add: notify_publishes_def notify_signal_def)

lemma only_notified_publishes: "only_notified sg (notify_publishes topics sg)"
  unfolding notify_publishes_fold by (rule only_notified_trans [OF only_notified_signal only_notified_topics])

lemma sends_all_publishes: "sends (sg_all_publishes sg) sg < sends (sg_all_publishes sg) (notify_publishes topics sg)"
proof -
  have "sends s sg' \<le> sends s (fold notify_topic ts sg')" for s ts sg'
    using only_notified_topics [of sg' ts] by (simp add: only_notified_def)
  moreover have "sends (sg_all_publishes sg) sg < sends (sg_all_publishes sg) (notify_signal (sg_all_publishes sg) sg)"
    by (simp add: sends_def notify_signal_def)
  ultimately show ?thesis unfolding notify_publishes_fold by (blast intro: less_le_trans)
qed

lemma sends_topics:
  assumes "live_signal (sg_topics sg) (sg_heap sg) t = Some s" and "t \<in> set ts"
  shows "sends s sg < sends s (fold notify_topic ts sg)"
  using assms
proof (induction ts arbitrary: sg)
  case (Cons u ts)
  have mono: "sends s sg' \<le> sends s (fold notify_topic ts sg')" for sg'
    using only_notified_topics [of sg' ts] by (simp add: only_notified_def)
  show ?case
  proof (cases "u = t")
    case True
    then have "sends s sg < sends s (notify_topic u sg)"
      using Cons.prems(1) by (simp add: notify_topic_def sends_def)
    with mono [of "notify_topic u sg"] show ?thesis by simp
  next
    case False
    with Cons.prems have "t \<in> set ts" by simp
    have same: "live_signal (sg_topics (notify_topic u sg)) (sg_heap (notify_topic u sg)) t = Some s"
      "sends s sg \<le> sends s (notify_topic u sg)"
      using only_notified_topic [of sg u] Cons.prems(1) by (simp_all add: only_notified_def)
    from Cons.IH [OF same(1) \<open>t \<in> set ts\<close>] same(2) show ?thesis by simp
  qed
qed simp

lemma sends_topic:
  assumes "live_signal (sg_topics sg) (sg_heap sg) t = Some s" and "Some t \<in> set topics"
  shows "sends s sg < sends s (notify_publishes topics sg)"
proof -
  let ?sg1 = "notify_signal (sg_all_publishes sg) sg"
  have "live_signal (sg_topics ?sg1) (sg_heap ?sg1) t = Some s" "sends s sg \<le> sends s ?sg1"
    using only_notified_signal [of sg "sg_all_publishes sg"] assms(1) by (simp_all add: only_notified_def)
  moreover have "t \<in> set (remdups (List.map_filter id topics))"
    using assms(2) by (force simp: List.map_filter_def)
  ultimately show ?thesis unfolding notify_publishes_fold using sends_topics by (meson le_less_trans)
qed

subsection \<open>Handles in use\<close>

text \<open>
  The handles a process holds. Each \<open>Arc\<close> they hold is counted in the heap, and the registry
  leads from the topic and the id of a handle to its signals.
\<close>

definition uses :: "consumer list \<Rightarrow> nat \<Rightarrow> nat" where
  "uses handles s = length (filter (\<lambda>self. co_publish_signal self = s) handles)
     + length (filter (\<lambda>self. co_consumer_signal self = s) handles)"

definition registered :: "signals \<Rightarrow> consumer \<Rightarrow> bool" where
  "registered sg self \<longleftrightarrow> sg_consumers sg (co_id self) = Some (co_consumer_signal self) \<and>
     (case co_filter self of
        FilterAll \<Rightarrow> co_publish_signal self = sg_all_publishes sg
      | FilterTopic t \<Rightarrow> sg_topics sg t = Some (co_publish_signal self))"

definition handles_ok :: "consumer list \<Rightarrow> signals \<Rightarrow> bool" where
  "handles_ok handles sg \<longleftrightarrow> (\<forall>s. uses handles s \<le> sh_strong (sg_heap sg) s) \<and>
     (\<forall>self \<in> set handles. registered sg self)"

fun handles_after :: "litefan \<Rightarrow> action \<Rightarrow> consumer list \<Rightarrow> consumer list" where
  "handles_after fan (DoOpen E clk b) handles =
     (case fst (open_consumer E clk b fan) of Inr self \<Rightarrow> self # handles | Inl _ \<Rightarrow> handles)"
| "handles_after fan (DoDrop self) handles = remove1 self handles"
| "handles_after fan _ handles = handles"

lemma uses_pos:
  assumes "self \<in> set handles"
  shows "0 < uses handles (co_publish_signal self)" "0 < uses handles (co_consumer_signal self)"
  using assms by (auto simp: uses_def filter_empty_conv)

lemma handle_live:
  assumes "handles_ok handles sg" and "self \<in> set handles"
  shows "live_signal (sg_consumers sg) (sg_heap sg) (co_id self) = Some (co_consumer_signal self)"
    and "co_filter self = FilterTopic t \<Longrightarrow>
      live_signal (sg_topics sg) (sg_heap sg) t = Some (co_publish_signal self)"
    and "co_filter self = FilterAll \<Longrightarrow> co_publish_signal self = sg_all_publishes sg"
proof -
  have "registered sg self" "0 < sh_strong (sg_heap sg) (co_publish_signal self)"
    "0 < sh_strong (sg_heap sg) (co_consumer_signal self)"
    using assms uses_pos [OF assms(2)] by (auto simp: handles_ok_def intro: less_le_trans)
  then show "live_signal (sg_consumers sg) (sg_heap sg) (co_id self) = Some (co_consumer_signal self)"
    "co_filter self = FilterTopic t \<Longrightarrow> live_signal (sg_topics sg) (sg_heap sg) t = Some (co_publish_signal self)"
    "co_filter self = FilterAll \<Longrightarrow> co_publish_signal self = sg_all_publishes sg"
    by (simp_all add: registered_def live_signal_Some)
qed

lemma handle_allocated:
  assumes "signals_inv sg" and "registered sg self"
  shows "co_publish_signal self < sh_next (sg_heap sg)" "co_consumer_signal self < sh_next (sg_heap sg)"
  using assms(2) signals_invD(1) [OF assms(1)] registry_invD(1) [OF signals_invD(2) [OF assms(1)]]
    registry_invD(1) [OF signals_invD(3) [OF assms(1)]]
  by (auto simp: registered_def split: filter_spec.splits)

lemma handles_notified:
  assumes n: "only_notified sg sg'" and ok: "handles_ok handles sg"
  shows "handles_ok handles sg'"
proof -
  have "registered sg' self" if self: "self \<in> set handles" for self
  proof -
    note live = handle_live [OF ok self]
    have "live_signal (sg_consumers sg') (sg_heap sg') (co_id self) = Some (co_consumer_signal self)"
      "sg_all_publishes sg' = sg_all_publishes sg"
      "co_filter self = FilterTopic t \<Longrightarrow>
         live_signal (sg_topics sg') (sg_heap sg') t = Some (co_publish_signal self)" for t
      using live n by (simp_all add: only_notified_def)
    with live(3) show ?thesis by (simp add: registered_def live_signal_Some split: filter_spec.splits)
  qed
  with ok n show ?thesis by (simp add: handles_ok_def only_notified_def)
qed


lemma uses_Cons:
  "uses (self # handles) s = uses handles s + (if co_publish_signal self = s then 1 else 0)
     + (if co_consumer_signal self = s then 1 else 0)"
  by (simp add: uses_def)

lemma uses_remove1:
  assumes "self \<in> set handles"
  shows "uses handles s = uses (remove1 self handles) s + (if co_publish_signal self = s then 1 else 0)
     + (if co_consumer_signal self = s then 1 else 0)"
  using assms by (induction handles) (auto simp: uses_def)

lemma handles_dropped:
  assumes ok: "handles_ok handles sg" and self: "self \<in> set handles"
  shows "handles_ok (remove1 self handles) (drop_signal (co_consumer_signal self) (drop_signal (co_publish_signal self) sg))"
proof -
  let ?sg' = "drop_signal (co_consumer_signal self) (drop_signal (co_publish_signal self) sg)"
  have "uses (remove1 self handles) s \<le> sh_strong (sg_heap ?sg') s" for s
  proof -
    have "uses handles s \<le> sh_strong (sg_heap sg) s" using ok by (simp add: handles_ok_def)
    with uses_remove1 [OF self, of s] show ?thesis
      by (auto simp: drop_signal_def arc_drop_def split: if_splits)
  qed
  moreover have "registered ?sg' x" if "x \<in> set (remove1 self handles)" for x
    using ok notin_set_remove1 that
    by (fastforce simp: handles_ok_def registered_def drop_signal_def split: filter_spec.splits)
  ultimately show ?thesis by (simp add: handles_ok_def)
qed

text \<open>Taking a signal: one of its counts goes up, and what was live stays registered.\<close>

definition acquired :: "nat \<Rightarrow> signals \<Rightarrow> signals \<Rightarrow> bool" where
  "acquired s sg sg' \<longleftrightarrow> sh_next (sg_heap sg) \<le> sh_next (sg_heap sg') \<and> s < sh_next (sg_heap sg') \<and>
     (\<forall>x < sh_next (sg_heap sg). sh_strong (sg_heap sg) x + (if x = s then 1 else 0) \<le> sh_strong (sg_heap sg') x \<and>
        sends x sg' = sends x sg) \<and>
     0 < sh_strong (sg_heap sg') s \<and> sg_all_publishes sg' = sg_all_publishes sg \<and>
     (\<forall>t x. live_signal (sg_topics sg) (sg_heap sg) t = Some x \<longrightarrow> sg_topics sg' t = Some x) \<and>
     (\<forall>i x. live_signal (sg_consumers sg) (sg_heap sg) i = Some x \<longrightarrow> sg_consumers sg' i = Some x)"

lemma publishes_for_acquired:
  assumes inv: "signals_inv sg" and eq: "publishes_for flt sg = (s, sg')"
  shows "acquired s sg sg'" and "sg_consumers sg' = sg_consumers sg"
    and "case flt of FilterAll \<Rightarrow> s = sg_all_publishes sg' | FilterTopic t \<Rightarrow> sg_topics sg' t = Some s"
proof -
  have "acquired s sg sg' \<and> sg_consumers sg' = sg_consumers sg \<and>
    (case flt of FilterAll \<Rightarrow> s = sg_all_publishes sg' | FilterTopic t \<Rightarrow> sg_topics sg' t = Some s)"
  proof (cases flt)
    case FilterAll
    with eq signals_invD(1) [OF inv] show ?thesis
      by (auto simp: acquired_def arc_clone_def sends_def live_signal_Some)
  next
    case (FilterTopic t)
    obtain s1 reg h where k: "signal_for_key (sg_topics sg) t (sg_heap sg) = (s1, reg, h)"
      by (cases "signal_for_key (sg_topics sg) t (sg_heap sg)") auto
    with eq FilterTopic have sg': "sg' = sg\<lparr>sg_topics := reg, sg_heap := h\<rparr>" "s1 = s" by auto
    from k show ?thesis
    proof (cases rule: signal_for_key_cases)
      case live
      with sg' FilterTopic registry_invD(1) [OF signals_invD(2) [OF inv] live(1)] show ?thesis
        by (auto simp: acquired_def arc_clone_def sends_def live_signal_Some)
    next
      case fresh
      with sg' FilterTopic show ?thesis
        by (auto simp: acquired_def signal_new_def sends_def live_signal_def split: option.splits if_splits)
    qed
  qed
  then show "acquired s sg sg'" "sg_consumers sg' = sg_consumers sg"
    "case flt of FilterAll \<Rightarrow> s = sg_all_publishes sg' | FilterTopic t \<Rightarrow> sg_topics sg' t = Some s" by simp_all
qed

lemma consumer_signal_acquired:
  assumes inv: "signals_inv sg" and eq: "consumer_signal i sg = (s, sg')"
  shows "acquired s sg sg'" and "sg_topics sg' = sg_topics sg" and "sg_consumers sg' i = Some s"
proof -
  obtain s1 reg h where k: "signal_for_key (sg_consumers sg) i (sg_heap sg) = (s1, reg, h)"
    by (cases "signal_for_key (sg_consumers sg) i (sg_heap sg)") auto
  with eq have sg': "sg' = sg\<lparr>sg_consumers := reg, sg_heap := h\<rparr>" "s1 = s"
    by (auto simp: consumer_signal_def)
  from k have "acquired s sg sg' \<and> sg_topics sg' = sg_topics sg \<and> sg_consumers sg' i = Some s"
  proof (cases rule: signal_for_key_cases)
    case live
    with sg' registry_invD(1) [OF signals_invD(3) [OF inv] live(1)] show ?thesis
      by (auto simp: acquired_def arc_clone_def sends_def live_signal_Some)
  next
    case fresh
    with sg' show ?thesis
      by (auto simp: acquired_def signal_new_def sends_def live_signal_def split: option.splits if_splits)
  qed
  then show "acquired s sg sg'" "sg_topics sg' = sg_topics sg" "sg_consumers sg' i = Some s" by simp_all
qed

lemma uses_unallocated:
  assumes "signals_inv sg" and "handles_ok handles sg" and "sh_next (sg_heap sg) \<le> x"
  shows "uses handles x = 0"
  using handle_allocated [OF assms(1)] assms(2,3)
  by (fastforce simp: uses_def handles_ok_def filter_empty_conv)

lemma handles_acquired:
  assumes inv: "signals_inv sg" and ok: "handles_ok handles sg" and acq: "acquired s sg sg'"
  shows "uses handles x + (if x = s then 1 else 0) \<le> sh_strong (sg_heap sg') x" and "handles_ok handles sg'"
proof -
  have used: "uses handles x + (if x = s then 1 else 0) \<le> sh_strong (sg_heap sg') x" for x
  proof (cases "x < sh_next (sg_heap sg)")
    case True
    then have "sh_strong (sg_heap sg) x + (if x = s then 1 else 0) \<le> sh_strong (sg_heap sg') x"
      using acq unfolding acquired_def by blast
    moreover have "uses handles x \<le> sh_strong (sg_heap sg) x" using ok by (simp add: handles_ok_def)
    ultimately show ?thesis by linarith
  next
    case False
    with uses_unallocated [OF inv ok, of x] acq show ?thesis by (auto simp: acquired_def)
  qed
  then show "uses handles x + (if x = s then 1 else 0) \<le> sh_strong (sg_heap sg') x" .
  have "registered sg' self" if self: "self \<in> set handles" for self
    using handle_live [OF ok self] acq by (simp add: acquired_def registered_def split: filter_spec.splits)
  with used show "handles_ok handles sg'" unfolding handles_ok_def by (meson add_leD1)
qed

lemma handles_opened:
  assumes inv: "signals_inv sg" and ok: "handles_ok handles sg"
    and pub: "publishes_for (co_filter self) sg = (co_publish_signal self, sg1)"
    and con: "consumer_signal (co_id self) sg1 = (co_consumer_signal self, sg2)"
  shows "handles_ok (self # handles) sg2"
proof -
  note p = publishes_for_acquired [OF inv pub]
  have inv1: "signals_inv sg1" by (rule publishes_for_inv [OF inv pub])
  note c = consumer_signal_acquired [OF inv1 con]
  have h1: "uses handles x + (if x = co_publish_signal self then 1 else 0) \<le> sh_strong (sg_heap sg1) x" for x
    by (rule handles_acquired(1) [OF inv ok p(1)])
  have ok1: "handles_ok handles sg1" by (rule handles_acquired(2) [OF inv ok p(1)])
  have "uses (self # handles) x \<le> sh_strong (sg_heap sg2) x" for x
  proof (cases "x < sh_next (sg_heap sg1)")
    case True
    then have "sh_strong (sg_heap sg1) x + (if x = co_consumer_signal self then 1 else 0) \<le> sh_strong (sg_heap sg2) x"
      using c(1) unfolding acquired_def by blast
    with h1 [of x] show ?thesis by (simp add: uses_Cons split: if_splits)
  next
    case False
    moreover have "co_publish_signal self < sh_next (sg_heap sg1)" using p(1) by (simp add: acquired_def)
    ultimately have "x \<noteq> co_publish_signal self" by blast
    with handles_acquired(1) [OF inv1 ok1 c(1), of x] show ?thesis by (simp add: uses_Cons split: if_splits)
  qed
  moreover have "registered sg2 self"
    using p(3) c by (simp add: registered_def acquired_def split: filter_spec.splits)
  moreover have "handles_ok handles sg2" by (rule handles_acquired(2) [OF inv1 ok1 c(1)])
  ultimately show ?thesis by (simp add: handles_ok_def)
qed


subsection \<open>The handles of a process along its operations\<close>

text \<open>Every operation but opening and dropping a handle only notifies.\<close>

fun changes_handles :: "action \<Rightarrow> bool" where
  "changes_handles (DoOpen E clk b) = True"
| "changes_handles (DoDrop self) = True"
| "changes_handles _ = False"

lemma perform_only_notifies:
  assumes "\<not> changes_handles a"
  shows "only_notified (lf_signals fan) (lf_signals (perform a fan))"
  using assms
  by (cases a)
    (auto simp: publish_batch_def publish_unkeyed_batch_def begin_draining_def ack_batch_def nack_batch_def
      extend_visibility_batch_def archive_batch_with_detail_def redrive_batch_def purge_archives_def
      delete_consumer_def prune_messages_def only_notified_publishes only_notified_signal only_notified_consumer
      split: sum.splits prod.splits if_splits)

lemma open_consumer_signals:
  assumes "open_consumer E clk b fan = (Inr self, fan')"
  obtains sg1 where "publishes_for (co_filter self) (lf_signals fan) = (co_publish_signal self, sg1)"
    "consumer_signal (co_id self) sg1 = (co_consumer_signal self, lf_signals fan')"
  using assms
  by (auto simp: open_consumer_def Let_def split: if_splits sum.splits prod.splits)

lemma handles_perform:
  assumes inv: "fan_inv fan" and ok: "handles_ok handles (lf_signals fan)"
    and held: "\<And>self. a = DoDrop self \<Longrightarrow> self \<in> set handles"
  shows "handles_ok (handles_after fan a handles) (lf_signals (perform a fan))"
proof (cases "changes_handles a")
  case False
  then have "handles_after fan a handles = handles" by (cases a) auto
  with handles_notified [OF perform_only_notifies [OF False] ok] show ?thesis by simp
next
  case True
  then consider E clk b where "a = DoOpen E clk b" | self where "a = DoDrop self" by (cases a) auto
  then show ?thesis
  proof cases
    case 1
    show ?thesis
    proof (cases "fst (open_consumer E clk b fan)")
      case (Inl e)
      then have "open_consumer E clk b fan = (Inl e, snd (open_consumer E clk b fan))" by (metis prod.collapse)
      from open_consumer_Inl [OF this] 1 Inl ok show ?thesis by simp
    next
      case (Inr self)
      then have run: "open_consumer E clk b fan = (Inr self, snd (open_consumer E clk b fan))" by (metis prod.collapse)
      obtain sg1 where "publishes_for (co_filter self) (lf_signals fan) = (co_publish_signal self, sg1)"
        "consumer_signal (co_id self) sg1 = (co_consumer_signal self, lf_signals (snd (open_consumer E clk b fan)))"
        by (rule open_consumer_signals [OF run])
      from handles_opened [OF fan_invD(2) [OF inv] ok this] 1 Inr show ?thesis by simp
    qed
  next
    case 2
    with handles_dropped [OF ok held [OF 2]] show ?thesis by (simp add: drop_consumer_def)
  qed
qed

text \<open>The sends of an allocated signal never go down.\<close>

lemma sends_perform:
  assumes inv: "fan_inv fan" and s: "s < sh_next (sg_heap (lf_signals fan))"
  shows "sends s (lf_signals fan) \<le> sends s (lf_signals (perform a fan)) \<and>
    s < sh_next (sg_heap (lf_signals (perform a fan)))"
proof (cases "changes_handles a")
  case False
  with perform_only_notifies [OF False] s show ?thesis by (simp add: only_notified_def)
next
  case True
  then consider E clk b where "a = DoOpen E clk b" | self where "a = DoDrop self" by (cases a) auto
  then show ?thesis
  proof cases
    case 1
    show ?thesis
    proof (cases "fst (open_consumer E clk b fan)")
      case (Inl e)
      then have "open_consumer E clk b fan = (Inl e, snd (open_consumer E clk b fan))" by (metis prod.collapse)
      from open_consumer_Inl [OF this] 1 s show ?thesis by simp
    next
      case (Inr self)
      then have run: "open_consumer E clk b fan = (Inr self, snd (open_consumer E clk b fan))" by (metis prod.collapse)
      obtain sg1 where sg: "publishes_for (co_filter self) (lf_signals fan) = (co_publish_signal self, sg1)"
        "consumer_signal (co_id self) sg1 = (co_consumer_signal self, lf_signals (snd (open_consumer E clk b fan)))"
        by (rule open_consumer_signals [OF run])
      note p = publishes_for_acquired(1) [OF fan_invD(2) [OF inv] sg(1)]
      note c = consumer_signal_acquired(1) [OF publishes_for_inv [OF fan_invD(2) [OF inv] sg(1)] sg(2)]
      from p c s 1 show ?thesis by (simp add: acquired_def)
    qed
  next
    case 2
    with s show ?thesis by (simp add: drop_consumer_def drop_signal_def arc_drop_def sends_def)
  qed
qed


text \<open>The store of a process together with the handles it holds; a process drops what it holds.\<close>

type_synonym process = "litefan \<times> consumer list"

fun process_ok :: "process \<Rightarrow> action \<Rightarrow> bool" where
  "process_ok (fan, handles) (DoDrop self) \<longleftrightarrow> self \<in> set handles"
| "process_ok (fan, handles) a \<longleftrightarrow> action_ok fan a"

fun process_step :: "action \<Rightarrow> process \<Rightarrow> process" where
  "process_step a (fan, handles) = (perform a fan, handles_after fan a handles)"

fun process_inv :: "process \<Rightarrow> bool" where
  "process_inv (fan, handles) \<longleftrightarrow> fan_inv fan \<and> handles_ok handles (lf_signals fan)"

lemma process_okD:
  assumes "process_ok (fan, handles) a"
  shows "action_ok fan a" and "a = DoDrop self \<Longrightarrow> self \<in> set handles"
  using assms by (cases a; simp)+

lemma process_step_inv: "process_inv p \<Longrightarrow> process_ok p a \<Longrightarrow> process_inv (process_step a p)"
  by (cases p) (auto simp del: perform.simps handles_after.simps process_ok.simps
      intro: perform_inv handles_perform dest: process_okD)

lemma process_step_fst: "fst (fold process_step as (fan, handles)) = fold perform as fan"
  by (induction as arbitrary: fan handles) simp_all

interpretation process: refinement process_ok process_step process_inv
  "\<lambda>p. inboxes (lf_pool (fst p))" "\<lambda>p. event_of (fst p)" apply_event
proof
  fix p a assume p: "process_inv p" "process_ok p a"
  show "process_inv (process_step a p)" by (rule process_step_inv [OF p])
  obtain fan hs where [simp]: "p = (fan, hs)" by (cases p)
  show "inboxes (lf_pool (fst (process_step a p))) = apply_event (event_of (fst p) a) (inboxes (lf_pool (fst p)))"
    using p perform_simulates [of fan a] process_okD(1) [of fan hs a]
    by (simp del: perform.simps event_of.simps process_ok.simps)
qed

text \<open>The actions that must wake a waiting handle: a publish it subscribes to, a release, archive
  or redrive of some of its consumer's deliveries, the start of draining, the deletion.\<close>

fun wakes :: "consumer \<Rightarrow> process \<Rightarrow> action \<Rightarrow> bool" where
  "wakes self (fan, handles) (DoPublish E clk ms) \<longleftrightarrow>
     (case fst (publish_batch E clk ms fan) of
        Inr os \<Rightarrow> \<exists>(x, m) \<in> set (zip os ms). is_published x \<and>
          topic_matches (as_database_value (co_filter self)) (pb_topic m)
      | Inl _ \<Rightarrow> False)"
| "wakes self (fan, handles) (DoNack clk other rs retry) \<longleftrightarrow> other \<in> set handles \<and> co_id other = co_id self \<and>
     (case fst (nack_batch clk other rs retry fan) of Inr b \<Rightarrow> 0 < br_applied b | Inl _ \<Rightarrow> False)"
| "wakes self (fan, handles) (DoArchive E clk other rs detail) \<longleftrightarrow> other \<in> set handles \<and> co_id other = co_id self \<and>
     (case fst (archive_batch_with_detail E clk other rs detail fan) of Inr b \<Rightarrow> 0 < br_applied b | Inl _ \<Rightarrow> False)"
| "wakes self (fan, handles) (DoRedrive E clk other ids retry) \<longleftrightarrow> other \<in> set handles \<and> co_id other = co_id self \<and>
     (case fst (redrive_batch E clk other ids retry fan) of Inr b \<Rightarrow> 0 < br_applied b | Inl _ \<Rightarrow> False)"
| "wakes self (fan, handles) (DoDrain clk other) \<longleftrightarrow> other \<in> set handles \<and> co_id other = co_id self \<and>
     fst (begin_draining (\<lambda>db. db) clk other fan) = Inr True"
| "wakes self (fan, handles) (DoDelete name mode) \<longleftrightarrow>
     (\<exists>c \<in> set (t_consumers (lf_pool fan)). cr_id c = co_id self \<and> cr_name c = name) \<and>
     (case fst (delete_consumer name mode fan) of Inr _ \<Rightarrow> True | Inl _ \<Rightarrow> False)"
| "wakes self (fan, handles) _ \<longleftrightarrow> False"

lemma publish_each_inserted:
  "publish_each L n ms = (os, ps, L') \<Longrightarrow> (x, m) \<in> set (zip os ms) \<Longrightarrow> is_published x \<Longrightarrow> m \<in> set ps"
proof (induction ms arbitrary: L n os ps)
  case (Cons a ms)
  from Cons.prems(1) show ?case
  proof (cases rule: publish_each_ConsE)
    case (unkeyed os1 ps1)
    with Cons.IH [OF unkeyed(2)] Cons.prems(2,3) show ?thesis by auto
  next
    case (known k' i' os1)
    with Cons.IH [OF known(3)] Cons.prems(2,3) show ?thesis by auto
  next
    case (first k' os1 ps1)
    with Cons.IH [OF first(3)] Cons.prems(2,3) show ?thesis by auto
  qed
qed simp

lemma publish_sends:
  assumes inv: "fan_inv fan" and E: "engine_ok E" and ok: "handles_ok hs (lf_signals fan)" and self: "self \<in> set hs"
    and run: "publish_batch E clk ms fan = (Inr os, fan')" and m: "(x, m) \<in> set (zip os ms)" "is_published x"
      "topic_matches (as_database_value (co_filter self)) (pb_topic m)"
  shows "sends (co_publish_signal self) (lf_signals fan) < sends (co_publish_signal self) (lf_signals fan')"
proof -
  from m(1) have "ms \<noteq> []" by auto
  from run obtain t ps L' where ref: "publish_each (live_ledger t (lf_pool fan)) (seq_messages (lf_pool fan)) ms = (os, ps, L')"
    and fan': "fan' = fan\<lparr>lf_pool := published_db E t (t + lf_idempotency_window_ms fan) ms (lf_pool fan),
               lf_signals := wake_publishes ps (lf_signals fan)\<rparr>"
    by (rule publish_batch_Inr [OF inv E \<open>ms \<noteq> []\<close>])
  have "m \<in> set ps" by (rule publish_each_inserted [OF ref m(1,2)])
  then have sg': "lf_signals fan' = notify_publishes (map pb_topic ps) (lf_signals fan)" "pb_topic m \<in> set (map pb_topic ps)"
    by (auto simp: fan' wake_publishes_def)
  show ?thesis
  proof (cases "co_filter self")
    case FilterAll
    with handle_live(3) [OF ok self] sends_all_publishes sg'(1) show ?thesis by simp
  next
    case (FilterTopic t)
    then have "Some t \<in> set (map pb_topic ps)" using m(3) sg'(2) by (simp add: topic_matches_def)
    with sends_topic [OF handle_live(2) [OF ok self FilterTopic]] sg'(1) show ?thesis by simp
  qed
qed

lemma same_consumer_signal:
  assumes "handles_ok hs sg" and "self \<in> set hs" and "other \<in> set hs" and "co_id other = co_id self"
  shows "co_consumer_signal other = co_consumer_signal self"
  using handle_live(1) [OF assms(1,2)] handle_live(1) [OF assms(1,3)] assms(4) by simp

lemma sends_notify_signal [simp]: "sends s sg < sends s (notify_signal s sg)"
  by (simp add: sends_def notify_signal_def)

lemma wakes_sends:
  assumes p: "process_inv (fan, hs)" "process_ok (fan, hs) a" and self: "self \<in> set hs" and w: "wakes self (fan, hs) a"
  shows "sends (co_publish_signal self) (lf_signals fan) < sends (co_publish_signal self) (lf_signals (perform a fan)) \<or>
    sends (co_consumer_signal self) (lf_signals fan) < sends (co_consumer_signal self) (lf_signals (perform a fan))"
proof -
  have inv: "fan_inv fan" and ok: "handles_ok hs (lf_signals fan)" using p(1) by simp_all
  note same = same_consumer_signal [OF ok self]
  show ?thesis
  proof (cases a)
    case (DoPublish E clk ms)
    with w obtain os x m where r: "fst (publish_batch E clk ms fan) = Inr os"
      and m: "(x, m) \<in> set (zip os ms)" "is_published x" "topic_matches (as_database_value (co_filter self)) (pb_topic m)"
      by (auto split: sum.splits)
    then have "publish_batch E clk ms fan = (Inr os, snd (publish_batch E clk ms fan))" by (metis prod.collapse)
    from publish_sends [OF inv _ ok self this m] DoPublish p(2) show ?thesis by simp
  next
    case (DoNack clk other rs retry)
    with w same [of other] have "lf_signals (perform a fan) = notify_signal (co_consumer_signal self) (lf_signals fan)"
      by (auto simp: nack_batch_def batch_result_of_def default_batch_result_def ensure_batch_size_def split: sum.splits prod.splits if_splits)
    then show ?thesis by simp
  next
    case (DoArchive E clk other rs detail)
    with w same [of other] have "lf_signals (perform a fan) = notify_signal (co_consumer_signal self) (lf_signals fan)"
      by (auto simp: archive_batch_with_detail_def batch_result_of_def default_batch_result_def ensure_batch_size_def
          split: sum.splits prod.splits if_splits)
    then show ?thesis by simp
  next
    case (DoRedrive E clk other ids retry)
    with w same [of other] have "lf_signals (perform a fan) = notify_signal (co_consumer_signal self) (lf_signals fan)"
      by (auto simp: redrive_batch_def default_batch_result_def ensure_batch_size_def split: sum.splits prod.splits if_splits)
    then show ?thesis by simp
  next
    case (DoDrain clk other)
    with w same [of other] have "lf_signals (perform a fan) = notify_signal (co_consumer_signal self) (lf_signals fan)"
      by (auto simp: begin_draining_def split: sum.splits prod.splits if_splits)
    then show ?thesis by simp
  next
    case (DoDelete name mode)
    with w obtain c out where c: "c \<in> set (t_consumers (lf_pool fan))" "cr_id c = co_id self" "cr_name c = name"
      and r: "fst (delete_consumer name mode fan) = Inr out"
      by (auto split: sum.splits)
    have "find_consumer_by_name name (lf_pool fan) = Some c"
      using find_consumer_by_name_Some [OF db_invD(2) [OF fan_invD(1) [OF inv]]] c by blast
    with r c(2) DoDelete have "lf_signals (perform a fan) = notify_consumer (co_id self) (lf_signals fan)"
      by (auto simp: delete_consumer_def transaction_def delete_txn_eq [OF fan_invD(1) [OF inv]] split: sum.splits prod.splits)
    with handle_live(1) [OF ok self] show ?thesis
      by (simp add: notify_consumer_def sends_def)
  qed (use w in simp_all)
qed

lemma process_sends:
  assumes "process_inv (fan, hs)" and "run_ok process_ok process_step (fan, hs) as" and "s < sh_next (sg_heap (lf_signals fan))"
    and "k \<le> sends s (lf_signals fan)"
  shows "k \<le> sends s (lf_signals (fst (fold process_step as (fan, hs))))"
proof -
  let ?P = "\<lambda>p. s < sh_next (sg_heap (lf_signals (fst p))) \<and> k \<le> sends s (lf_signals (fst p))"
  have "?P (process_step a p)" if "process_inv p" "process_ok p a" "?P p" for p a
    using that sends_perform [of "fst p" s a] by (cases p) (auto simp del: perform.simps)
  moreover have "run_ok (\<lambda>_ _. True) process_step (fan, hs) as"
    by (induction as arbitrary: fan hs) auto
  ultimately have "?P (fold process_step as (fan, hs))"
    using process.run_stable [where P = ?P and harmless = "\<lambda>_ _. True", OF _ assms(1,2)] assms(3,4) by auto
  then show ?thesis by simp
qed

lemma process_holds:
  assumes "process_inv (fan, hs)" and "run_ok process_ok process_step (fan, hs) as" and "self \<in> set hs"
    and "DoDrop self \<notin> set as"
  shows "self \<in> set (snd (fold process_step as (fan, hs)))"
  using assms(3,4)
proof (induction as arbitrary: fan hs)
  case (Cons a as)
  have "self \<in> set (handles_after fan a hs)"
    using Cons.prems by (cases a) (auto simp: in_set_remove1 split: sum.splits)
  with Cons show ?case by simp
qed simp

subsection \<open>The deliveries of a poll\<close>

text \<open>
  The deliveries as the lease transaction of one turn committed them, with \<open>tk_others2\<close> after
  it: stored messages under current receipts, hidden for the lease length from the time of the turn.
\<close>

definition leased_in_turn :: "tick \<Rightarrow> int \<Rightarrow> delivery list \<Rightarrow> database \<Rightarrow> bool" where
  "leased_in_turn t lease_ms ds final \<longleftrightarrow>
     (\<exists>now db. now_ms (tk_clock t) = Inr now \<and> db_inv db \<and> final = tk_others2 t db \<and>
        (\<forall>d \<in> set ds. dv_message d \<in> message_of_row ` set (t_messages db) \<and>
           rc_message_id (dv_receipt d) = message_id_get (msg_id (dv_message d)) \<and> current (dv_receipt d) db \<and>
           leased (rc_consumer_id (dv_receipt d)) (rc_message_id (dv_receipt d)) (rc_generation (dv_receipt d))
             (now + lease_ms) db))"

lemma leased_in_turnI:
  assumes "now_ms (tk_clock t) = Inr now" and "db_inv db" and "final = tk_others2 t db"
    and "\<And>d. d \<in> set ds \<Longrightarrow> dv_message d \<in> message_of_row ` set (t_messages db) \<and>
      rc_message_id (dv_receipt d) = message_id_get (msg_id (dv_message d)) \<and>
      leased (rc_consumer_id (dv_receipt d)) (rc_message_id (dv_receipt d)) (rc_generation (dv_receipt d)) (now + lease_ms) db"
  shows "leased_in_turn t lease_ms ds final"
proof -
  have "current r db" if "leased (rc_consumer_id r) (rc_message_id r) (rc_generation r) v db" for r v
    using that by (auto simp: leased_def current_def receipt_key_def)
  with assms show ?thesis unfolding leased_in_turn_def by blast
qed

lemma claim_delivers:
  assumes E: "engine_ok E" and inv: "fan_inv fan" and n: "n \<le> lf_max_batch_size fan"
    and db1: "db_inv (tk_others1 t (lf_pool fan))"
    and run: "claim E (tk_others1 t) (tk_others2 t) (tk_clock t) self n lease_ms fan = (Inr r, fan')"
  shows "length (cl_deliveries r) \<le> n \<and>
    sorted_wrt (<) (map (\<lambda>d. message_id_get (msg_id (dv_message d))) (cl_deliveries r)) \<and>
    (\<forall>d \<in> set (cl_deliveries r). rc_consumer_id (dv_receipt d) = co_id self) \<and>
    (cl_deliveries r \<noteq> [] \<longrightarrow> leased_in_turn t lease_ms (cl_deliveries r) (lf_pool fan'))"
  using E inv n db1 run
proof (cases rule: claim_Inr)
  case (leased now c)
  let ?db = "tk_others1 t (lf_pool fan)"
  let ?ds = "claimed_deliveries self c now (now + lease_ms) n ?db"
  let ?final = "claimed_db c now (now + lease_ms) n ?db"
  have ids: "map (\<lambda>d. message_id_get (msg_id (dv_message d))) ?ds
      = map ls_message_id (claimed_leases c now (now + lease_ms) n ?db)"
    by (rule claimed_deliveries_ids [OF db1 leased(2)])
  then have "length ?ds = length (claimed_leases c now (now + lease_ms) n ?db)" by (metis length_map)
  then have "length ?ds \<le> n" by (simp add: length_claimed_leases [OF db_invD(3) [OF db1]])
  moreover have row: "rc_consumer_id (dv_receipt d) = co_id self \<and>
      dv_message d \<in> message_of_row ` set (t_messages ?final) \<and>
      rc_message_id (dv_receipt d) = message_id_get (msg_id (dv_message d)) \<and>
      leased (rc_consumer_id (dv_receipt d)) (rc_message_id (dv_receipt d)) (rc_generation (dv_receipt d))
        (now + lease_ms) ?final" if d: "d \<in> set ?ds" for d
  proof -
    obtain l m where l: "l \<in> set (claimed_leases c now (now + lease_ms) n ?db)"
      and m: "m \<in> set (t_messages ?db)" "mr_id m = ls_message_id l" "d = delivery_record self l (message_of_row m)"
      using claimed_deliveries_nth [OF db1 leased(2) d] by blast
    then show ?thesis
      using claimed_leased [OF db1 leased(2) l] leased(3)
      by (auto simp: delivery_record_def claimed_db_def scanned_db_def moved_db_def renewed_db_def)
  qed
  moreover have "leased_in_turn t lease_ms ?ds (lf_pool fan')"
    by (rule leased_in_turnI [OF leased(1,6,5)]) (use row in blast)
  ultimately show ?thesis
    using leased(4) ids claimed_leases_sorted [OF db1 leased(2)] by simp
qed simp

lemma poll_loop_delivers:
  assumes E: "engine_ok E" and inv: "fan_inv fan" and n: "n \<le> lf_max_batch_size fan"
    and ticks: "\<forall>t \<in> set ticks. (\<forall>db. db_inv db \<longrightarrow> db_inv (tk_others1 t db) \<and> db_inv (tk_others2 t db)) \<and>
      (\<forall>fan. fan_inv fan \<longrightarrow> fan_inv (tk_meanwhile t fan) \<and>
         lf_max_batch_size (tk_meanwhile t fan) = lf_max_batch_size fan)"
    and run: "poll_loop E self n lease_ms deadline ticks receivers fan = (Some (Inr ds), fan')"
  shows "length ds \<le> n \<and> sorted_wrt (<) (map (\<lambda>d. message_id_get (msg_id (dv_message d))) ds) \<and>
    (\<forall>d \<in> set ds. rc_consumer_id (dv_receipt d) = co_id self) \<and>
    (ds \<noteq> [] \<longrightarrow> (\<exists>t \<in> set ticks. leased_in_turn t lease_ms ds (lf_pool fan')))"
  using inv n ticks run
proof (induction ticks arbitrary: receivers fan)
  case (Cons t ticks)
  have others: "db_inv db \<Longrightarrow> db_inv (tk_others1 t db)" "db_inv db \<Longrightarrow> db_inv (tk_others2 t db)" for db
    using Cons.prems(3) by simp_all
  obtain x fan1 where turn: "poll_turn E self n lease_ms deadline t receivers fan = (x, fan1)" by fastforce
  obtain r where claim: "claim E (tk_others1 t) (tk_others2 t) (tk_clock t) self n lease_ms fan = (r, fan1)"
    and ds: "\<And>ds. x = Inl (Inr ds) \<Longrightarrow> ds \<noteq> [] \<Longrightarrow> \<exists>c. r = Inr c \<and> cl_deliveries c = ds"
    using poll_turn_claim [OF turn] by blast
  show ?case
  proof (cases x)
    case (Inl result)
    then have "result = Inr ds" "fan' = fan1" using Cons.prems(4) turn by simp_all
    show ?thesis
    proof (cases "ds = []")
      case False
      with ds [of ds] Inl \<open>result = Inr ds\<close> obtain c where c: "r = Inr c" "cl_deliveries c = ds" by auto
      have db1: "db_inv (tk_others1 t (lf_pool fan))" by (rule others(1) [OF fan_invD(1) [OF Cons.prems(1)]])
      from claim_delivers [OF E Cons.prems(1,2) db1 claim [unfolded c(1)]] c(2) \<open>fan' = fan1\<close>
      show ?thesis by simp
    qed simp
  next
    case (Inr p)
    obtain d receivers' where p: "p = (d, receivers')" by (cases p)
    have "fan_inv fan1" by (rule claim_inv [OF E Cons.prems(1,2) others claim])
    then have "fan_inv (tk_meanwhile t fan1)" "n \<le> lf_max_batch_size (tk_meanwhile t fan1)"
      using Cons.prems(2,3) claim_batch_size [OF claim] by simp_all
    from Cons.IH [OF this] Cons.prems(3,4) turn Inr p show ?thesis by simp
  qed
qed simp

end
