(* ===== verification/Isolation.thy ===== *)
theory Isolation
  imports System
begin

text \<open>
  What an operation leaves alone: the ids it has given out, and every consumer it does not act on.
\<close>

subsection \<open>Ids only grow\<close>

lemma nacked_chunks_same:
  "seq_messages (nacked_chunks v cid rs db) = seq_messages db"
  "t_consumers (nacked_chunks v cid rs db) = t_consumers db"
  "t_archives (nacked_chunks v cid rs db) = t_archives db"
proof -
  have "seq_messages (fold (nacked_db v cid) rss db) = seq_messages db \<and>
      t_consumers (fold (nacked_db v cid) rss db) = t_consumers db \<and>
      t_archives (fold (nacked_db v cid) rss db) = t_archives db" for rss
    by (induction rss arbitrary: db) (simp_all add: nacked_db_def)
  then show "seq_messages (nacked_chunks v cid rs db) = seq_messages db"
    "t_consumers (nacked_chunks v cid rs db) = t_consumers db"
    "t_archives (nacked_chunks v cid rs db) = t_archives db"
    by (simp_all add: nacked_chunks_def)
qed

lemmas committed_db_defs = created_db_def drained_db_def claimed_db_def scanned_db_def moved_db_def renewed_db_def
  acked_db_def extended_db_def purged_db_def without_consumer_def pruned_db_def removed_archives_def

lemma db_step_seq: "db_step w db a db' \<Longrightarrow> seq_messages db \<le> seq_messages db'"
proof (induction rule: db_step.induct)
  case (published t db ms os ps L' clk E)
  then show ?case by (simp add: published_db_simps)
qed (simp_all add: committed_db_defs nacked_chunks_same archived_db_def redriven_db_def)

lemma publish_each_ids:
  "publish_each L n ms = (os, ps, L') \<Longrightarrow> Published (MessageId i) \<in> set os \<Longrightarrow> n < i \<and> i \<le> n + int (length ps)"
proof (induction ms arbitrary: L n os ps)
  case (Cons m ms)
  from Cons.prems(1) show ?case
    by (cases rule: publish_each_ConsE) (use Cons.prems(2) in \<open>auto dest!: Cons.IH\<close>)
qed simp

subsection \<open>The other consumers\<close>

fun acts_on :: "int \<Rightarrow> database \<Rightarrow> action \<Rightarrow> bool" where
  "acts_on cid db (DoPublish E clk ms) \<longleftrightarrow> False"
| "acts_on cid db (DoOpen E clk b) \<longleftrightarrow> False"
| "acts_on cid db (DoDrain clk self) \<longleftrightarrow> co_id self = cid"
| "acts_on cid db (DoClaim E self n now v) \<longleftrightarrow> co_id self = cid"
| "acts_on cid db (DoAck self rs) \<longleftrightarrow> co_id self = cid"
| "acts_on cid db (DoNack clk self rs retry) \<longleftrightarrow> co_id self = cid"
| "acts_on cid db (DoExtend clk self rs timeout) \<longleftrightarrow> co_id self = cid"
| "acts_on cid db (DoArchive E clk self rs detail) \<longleftrightarrow> co_id self = cid"
| "acts_on cid db (DoRedrive E clk self ids retry) \<longleftrightarrow> co_id self = cid"
| "acts_on cid db (DoPurge self purge) \<longleftrightarrow> co_id self = cid"
| "acts_on cid db (DoDelete name mode) \<longleftrightarrow> (\<exists>c \<in> set (t_consumers db). cr_id c = cid \<and> cr_name c = name)"
| "acts_on cid db (DoPrune prune) \<longleftrightarrow> False"
| "acts_on cid db (DoDrop self) \<longleftrightarrow> False"

text \<open>Everything a consumer owns: its row, its deliveries and its archives.\<close>

definition belongings :: "int \<Rightarrow> database \<Rightarrow> consumer_row option \<times> delivery_row list \<times> archive_row list" where
  "belongings cid db = (find_consumer cid db, deliveries_of db cid, archives_of db cid)"

lemma filter_map_other:
  "(\<And>x. x \<in> set xs \<Longrightarrow> P (f x) = P x) \<Longrightarrow> (\<And>x. x \<in> set xs \<Longrightarrow> P x \<Longrightarrow> f x = x) \<Longrightarrow> filter P (map f xs) = filter P xs"
  by (induction xs) auto

lemma find_map_other:
  "(\<And>x. x \<in> set xs \<Longrightarrow> P (f x) = P x) \<Longrightarrow> (\<And>x. x \<in> set xs \<Longrightarrow> P x \<Longrightarrow> f x = x) \<Longrightarrow> find P (map f xs) = find P xs"
  by (induction xs) auto

lemma find_other: "(\<And>x. x \<in> set xs \<Longrightarrow> P x \<Longrightarrow> Q x) \<Longrightarrow> find P (filter Q xs) = find P xs"
  by (induction xs) auto

lemma belongings_simps [simp]:
  "belongings cid (db\<lparr>seq_consumers := k\<rparr>) = belongings cid db"
  "belongings cid (db\<lparr>t_messages := ms\<rparr>) = belongings cid db"
  by (simp_all add: belongings_def find_consumer_def deliveries_of_def archives_of_def)

lemma find_Some_append: "find P xs = Some x \<Longrightarrow> find P (xs @ ys) = Some x"
  by (induction xs) (auto split: if_splits)

lemma belongings_created:
  "find_consumer cid db = Some c \<Longrightarrow> belongings cid (created_db name flt t db) = belongings cid db"
  by (auto simp: belongings_def find_consumer_def created_db_def deliveries_of_def archives_of_def find_Some_append)

lemma belongings_drained: "i \<noteq> cid \<Longrightarrow> belongings cid (drained_db i t db) = belongings cid db"
  by (auto simp: belongings_def find_consumer_def drained_db_def deliveries_of_def archives_of_def drain_row_def
      intro!: find_map_other)

lemma belongings_acked: "i \<noteq> cid \<Longrightarrow> belongings cid (acked_db i rs db) = belongings cid db"
  by (auto simp: belongings_def find_consumer_def acked_db_def deliveries_of_def archives_of_def receipt_clause_def
      intro!: filter_cong)

lemma belongings_nacked: "i \<noteq> cid \<Longrightarrow> belongings cid (nacked_db v i rs db) = belongings cid db"
  by (auto simp: belongings_def find_consumer_def nacked_db_def deliveries_of_def archives_of_def receipt_clause_def
      nacked_row_def intro!: filter_map_other)

lemma belongings_nacked_chunks:
  assumes "i \<noteq> cid"
  shows "belongings cid (nacked_chunks v i rs db) = belongings cid db"
proof -
  have "belongings cid (fold (nacked_db v i) rss db) = belongings cid db" for rss
    by (induction rss arbitrary: db) (simp_all add: belongings_nacked [OF assms])
  then show ?thesis by (simp add: nacked_chunks_def)
qed

lemma belongings_extended: "i \<noteq> cid \<Longrightarrow> belongings cid (extended_db v i rs db) = belongings cid db"
  by (auto simp: belongings_def find_consumer_def extended_db_def deliveries_of_def archives_of_def receipt_clause_def
      extended_row_def intro!: filter_map_other)

lemma archive_rows_owner:
  "a \<in> set (archive_rows t detail i ls) \<Longrightarrow> ar_consumer_id a \<in> al_consumer_id ` set ls"
  by (induction ls arbitrary: i) (auto simp: archive_row_of_def)

lemma belongings_archived:
  assumes "i \<noteq> cid"
  shows "belongings cid (archived_db i rs t detail db) = belongings cid db"
proof -
  have "ar_consumer_id a = i" if "a \<in> set (archive_rows t detail (seq_archives db) (archived_leases i rs db))" for a
    using archive_rows_owner [OF that] by (auto simp: set_archived_leases archived_lease_from_row_def receipt_clause_def)
  then have "filter (\<lambda>a. ar_consumer_id a = cid) (archive_rows t detail (seq_archives db) (archived_leases i rs db)) = []"
    using assms by (auto simp: filter_empty_conv)
  with belongings_acked [OF assms, of rs db] show ?thesis
    by (simp add: belongings_def archived_db_def find_consumer_def deliveries_of_def archives_of_def)
qed

lemma belongings_redriven:
  assumes "i \<noteq> cid"
  shows "belongings cid (redriven_db i v ids mids db) = belongings cid db"
  using assms
  by (auto simp: belongings_def redriven_db_def removed_archives_def find_consumer_def deliveries_of_def archives_of_def
      redriven_row_def redrive_clause_def filter_empty_conv intro!: filter_cong)

lemma belongings_deleted: "i \<noteq> cid \<Longrightarrow> belongings cid (without_consumer i db) = belongings cid db"
  by (auto simp: belongings_def without_consumer_def find_consumer_def deliveries_of_def archives_of_def
      intro!: filter_cong find_other)

lemma belongings_claimed:
  assumes inv: "db_inv db" and i: "cr_id c \<noteq> cid"
  shows "belongings cid (claimed_db c now v n db) = belongings cid db"
proof -
  let ?pick = "picked db (cr_id c) now n"
  have own: "dr_consumer_id d = cr_id c" if "?pick d" for d
  proof -
    from that obtain x where "x \<in> set (ready_rows db (cr_id c) now n)" "dr_key x = dr_key d" by (auto simp: picked_def)
    then show ?thesis
      using ready_rows_props(1) [OF db_invD(3) [OF inv], of "cr_id c" now n] by (auto simp: dr_key_def)
  qed
  have "filter (\<lambda>d. dr_consumer_id d = cid) (map (\<lambda>d. if ?pick d then renewed_row v d else d) (t_deliveries db))
      = filter (\<lambda>d. dr_consumer_id d = cid) (t_deliveries db)"
    by (rule filter_map_other) (use i in \<open>auto simp: renewed_row_def dest: own\<close>)
  moreover have "find (\<lambda>x. cr_id x = cid) (map (\<lambda>x. if cr_id x = cr_id c then x\<lparr>cr_scan_cursor := k\<rparr> else x) (t_consumers db))
      = find (\<lambda>x. cr_id x = cid) (t_consumers db)" for k
    by (rule find_map_other) (use i in auto)
  ultimately show ?thesis
    using i by (simp add: belongings_def claimed_db_def scanned_db_def moved_db_def renewed_db_def find_consumer_def
        deliveries_of_def archives_of_def fresh_row_def filter_empty_conv)
qed

lemma belongings_step:
  assumes step: "db_step w db a db'" and inv: "db_inv db" and c: "find_consumer cid db = Some c"
    and other: "\<not> acts_on cid db a"
  shows "belongings cid db' = belongings cid db"
  using step
proof (cases rule: db_step.cases)
  case (published t ms)
  then show ?thesis by (simp add: belongings_def find_consumer_def deliveries_of_def archives_of_def published_db_simps)
next
  case (deleted c' name)
  then show ?thesis using other by (auto intro: belongings_deleted)
next
  case (purged self purge)
  then have "co_id self \<noteq> cid" using other by simp
  moreover have "ar_consumer_id a = co_id self"
    if "a \<in> set (t_archives db)" "ar_id a \<in> set (old_archive_ids db (co_id self) t l)" for a t l
    by (rule old_archive_owner [OF db_invD(4) [OF inv] that])
  ultimately show ?thesis using purged
    by (auto simp: belongings_def purged_db_def find_consumer_def deliveries_of_def archives_of_def intro!: filter_cong)
qed (use c other in \<open>auto simp: belongings_drained belongings_acked belongings_nacked_chunks belongings_extended
      belongings_archived belongings_redriven belongings_claimed [OF inv] belongings_created pruned_db_def\<close>)


lemma belongings_perform:
  assumes "fan_inv fan" and "action_ok fan a" and "find_consumer cid (lf_pool fan) = Some c"
    and "\<not> acts_on cid (lf_pool fan) a"
  shows "belongings cid (lf_pool (perform a fan)) = belongings cid (lf_pool fan)"
  by (rule belongings_step [OF perform_step [OF assms(1,2)] fan_invD(1) [OF assms(1)] assms(3,4)])

lemma seq_messages_run:
  assumes "fan_inv fan" and "run_ok action_ok perform fan as" and "k \<le> seq_messages (lf_pool fan)"
  shows "k \<le> seq_messages (lf_pool (fold perform as fan))"
proof (rule fan.run_stable [where P = "\<lambda>fan. k \<le> seq_messages (lf_pool fan)" and harmless = "\<lambda>_ _. True",
      OF _ assms(1,2,3)])
  fix fan a assume "fan_inv fan" "action_ok fan a" and k: "k \<le> seq_messages (lf_pool fan)"
  then have "seq_messages (lf_pool fan) \<le> seq_messages (lf_pool (perform a fan))"
    by (intro db_step_seq [OF perform_step])
  with k show "k \<le> seq_messages (lf_pool (perform a fan))" by (rule order_trans)
next
  show "run_ok (\<lambda>_ _. True) perform fan as" by (induction as arbitrary: fan) simp_all
qed

end
