(* ===== verification/Examples.thy ===== *)
theory Examples
  imports Lifetimes Delivering Idempotency Waiting Isolation "HOL-Library.Code_Target_Nat"
begin

text \<open>
  A small store to apply the properties to: opened on a new file, with one worker that sees
  every topic, two messages, and a lease on both. The engine lists rows in reverse.
\<close>

definition demo_open :: litefan where
  "demo_open =
     \<lparr>lf_pool = empty_database, lf_max_batch_size = 500,
      lf_cross_process_poll_interval = 250000000, lf_idempotency_window_ms = 86400000,
      lf_signals = signals_new\<rparr>"

definition demo_worker :: consumer where
  "demo_worker =
     \<lparr>co_publish_signal = 0, co_consumer_signal = 1, co_id = 1, co_name = ''w'', co_filter = FilterAll\<rparr>"

definition demo_clock :: clock where
  "demo_clock = 1000000000"

definition demo_publishes :: "publish list" where
  "demo_publishes = [publish_new [1], with_topic ''t'' (publish_new [2])]"

definition demo_setup :: "action list" where
  "demo_setup =
     [DoOpen reversing_engine demo_clock (consumer_builder_new ''w''),
      DoPublish reversing_engine demo_clock demo_publishes]"

definition demo_ready :: litefan where
  "demo_ready = fold perform demo_setup demo_open"

definition demo_claim :: action where
  "demo_claim = DoClaim reversing_engine demo_worker 10 1000 31000"

definition demo_leased :: litefan where
  "demo_leased = perform demo_claim demo_ready"

definition demo_receipt :: "int \<Rightarrow> receipt" where
  "demo_receipt mid = \<lparr>rc_consumer_id = 1, rc_message_id = mid, rc_generation = 1\<rparr>"

lemma demo_opens: "open_with_config default_config missing_file
    = (Inr demo_open, missing_file\<lparr>fl_user_version := 2, fl_catalog := schema_objects\<rparr>)"
  by (simp add: open_with_config_eq script_fits_empty probes_fit_empty opened_store_def
      default_config_def validate_config_def as_millis_def
      duration_from_secs_def duration_from_millis_def i64_try_from_def in_i64_def i64_min_def i64_max_def
      missing_file_def schema_version_def demo_open_def)

lemma demo_batch_sizes: "lf_max_batch_size demo_ready = 500" "lf_max_batch_size demo_leased = 500"
  by code_simp+

lemma demo_reachable:
  "reachable default_config demo_open" "reachable default_config demo_ready"
  "reachable default_config demo_leased"
proof -
  show o: "reachable default_config demo_open" using demo_opens by (rule reachable.opened)
  have "reachable default_config (perform (DoOpen reversing_engine demo_clock (consumer_builder_new ''w'')) demo_open)"
    by (rule reachable.acted [OF o]) simp
  then show r: "reachable default_config demo_ready"
    unfolding demo_ready_def demo_setup_def fold.simps comp_apply id_apply
    by (rule reachable.acted) simp
  show "reachable default_config demo_leased"
    unfolding demo_leased_def demo_claim_def
    by (rule reachable.acted [OF r]) (simp add: demo_batch_sizes)
qed

lemmas demo_inv = demo_reachable [THEN reachable_inv_fan]

lemma demo_leases:
  "map lease_key (t_deliveries (lf_pool demo_leased)) = [(1, 1, 1), (1, 2, 1)]"
  "map dr_visible_at (t_deliveries (lf_pool demo_leased)) = [31000, 31000]"
  by code_simp+

text \<open>The row of the worker before and after its claim.\<close>

definition demo_row :: consumer_row where
  "demo_row =
     \<lparr>cr_id = 1, cr_name = ''w'', cr_topic_filter = None, cr_created_at = 1000, cr_draining_at = None,
      cr_scan_cursor = 0, cr_drain_cursor = None\<rparr>"

lemma demo_rows:
  "t_consumers (lf_pool demo_ready) = [demo_row]"
  "t_consumers (lf_pool demo_leased) = [demo_row\<lparr>cr_scan_cursor := 2\<rparr>]"
  by code_simp+

lemma demo_row_simps [simp]: "cr_id demo_row = 1" "cr_draining_at demo_row = None" "cr_topic_filter demo_row = None"
  by (simp_all add: demo_row_def)

lemma known_result: "fst x = y \<Longrightarrow> x = (y, snd x)"
  by (cases x) simp

text \<open>Both deliveries archived.\<close>

definition demo_archived :: litefan where
  "demo_archived =
     perform (DoArchive reversing_engine demo_clock demo_worker [demo_receipt 2, demo_receipt 1] (Some ''bad'')) demo_leased"

lemma demo_archived_inv: "fan_inv demo_archived"
  unfolding demo_archived_def by (rule perform_inv [OF demo_inv(3)]) simp

lemma demo_archived_batch_size: "lf_max_batch_size demo_archived = 500"
  by code_simp

text \<open>A run with a claim, a release, an acknowledgement, pruning and draining.\<close>

definition demo_run :: "action list" where
  "demo_run =
     [demo_claim, DoNack demo_clock demo_worker [demo_receipt 1] Immediately,
      DoPrune \<lparr>pr_before_ms = 5000, pr_max_messages = 10\<rparr>,
      DoAck demo_worker [demo_receipt 2], DoDrain demo_clock demo_worker]"

lemma demo_run_ok: "run_ok action_ok perform demo_ready demo_run"
  unfolding demo_run_def demo_claim_def by (simp add: demo_batch_sizes)

subsection \<open>A process that polls\<close>

lemma demo_process: "process_inv (demo_ready, [demo_worker])"
proof -
  have "process_inv (demo_open, [])"
    using demo_inv(1) by (simp add: handles_ok_def uses_def)
  moreover have "run_ok process_ok process_step (demo_open, []) demo_setup"
    unfolding demo_setup_def by simp
  ultimately have "process_inv (fold process_step demo_setup (demo_open, []))" by (rule process.run_inv)
  moreover have "fst (fold process_step demo_setup (demo_open, [])) = demo_ready"
    by (simp add: process_step_fst demo_ready_def)
  moreover have "snd (fold process_step demo_setup (demo_open, [])) = [demo_worker]" by code_simp
  ultimately show ?thesis by (metis prod.collapse)
qed

definition demo_busy :: "action list" where
  "demo_busy = [DoPrune \<lparr>pr_before_ms = 5000, pr_max_messages = 10\<rparr>]"

definition demo_news :: action where
  "demo_news = DoPublish reversing_engine demo_clock [publish_new [9]]"

definition demo_tick :: "nat \<Rightarrow> nat \<Rightarrow> nat \<Rightarrow> tick" where
  "demo_tick ms instant until =
     \<lparr>tk_clock = int ms * 1000000, tk_others1 = \<lambda>db. db, tk_others2 = \<lambda>db. db, tk_instant = instant,
      tk_until_clock = int until * 1000000, tk_meanwhile = \<lambda>fan. fan\<rparr>"

definition demo_poll :: poll_opts where
  "demo_poll = \<lparr>po_max_messages = 10, po_visibility_timeout = duration_from_secs 30, po_wait = duration_from_secs 5\<rparr>"

text \<open>A poll of the leased store finds nothing due, and the next visible time is 31000.\<close>

abbreviation demo_turn :: "tick \<Rightarrow> (delivery list outcome + duration \<times> receivers) \<times> litefan" where
  "demo_turn t \<equiv> poll_turn reversing_engine demo_worker 10 30000 5000000007 t (0, 0) demo_leased"

lemma demo_waits:
  assumes "fst (claim reversing_engine (tk_others1 t) (tk_others2 t) (tk_clock t) demo_worker 10 30000 demo_leased) = Inr r"
    and "fst (demo_turn t) = Inr (d, receivers')"
  shows "demo_turn t = (Inr (d, receivers'), snd (demo_turn t))"
    and "claim reversing_engine (tk_others1 t) (tk_others2 t) (tk_clock t) demo_worker 10 30000 demo_leased
      = (Inr r, snd (demo_turn t))"
proof -
  show turn: "demo_turn t = (Inr (d, receivers'), snd (demo_turn t))" by (rule known_result [OF assms(2)])
  obtain r' where claim: "claim reversing_engine (tk_others1 t) (tk_others2 t) (tk_clock t) demo_worker 10 30000 demo_leased
      = (r', snd (demo_turn t))"
    by (rule poll_turn_claim [OF turn]) (rule that)
  from claim assms(1) show "claim reversing_engine (tk_others1 t) (tk_others2 t) (tk_clock t) demo_worker 10 30000 demo_leased
      = (Inr r, snd (demo_turn t))" by simp
qed

definition demo_nothing :: claim_result where
  "demo_nothing = \<lparr>cl_deliveries = [], cl_next_visible_at = Some 31000, cl_draining = False\<rparr>"

lemma demo_interval: "lf_cross_process_poll_interval demo_leased = 250000000"
  by code_simp

subsection \<open>A keyed message, a pause and a second consumer\<close>

definition demo_key :: publish where
  "demo_key = with_idempotency_key [9] (publish_new [5])"

definition demo_keyed :: litefan where
  "demo_keyed = perform (DoPublish reversing_engine demo_clock [demo_key]) demo_ready"

definition demo_pause :: "action list" where
  "demo_pause = [DoPrune \<lparr>pr_before_ms = 5000, pr_max_messages = 10\<rparr>, DoAck demo_worker [demo_receipt 1]]"

lemma demo_keyed_inv: "fan_inv demo_keyed"
  unfolding demo_keyed_def by (rule perform_inv [OF demo_inv(2)]) simp

lemma demo_pause_ok: "run_ok action_ok perform fan demo_pause"
  unfolding demo_pause_def by (simp del: perform.simps)

abbreviation demo_again :: "clock \<Rightarrow> publish_outcome list outcome \<times> litefan" where
  "demo_again clk \<equiv> publish_batch reversing_engine clk [demo_key] (fold perform demo_pause demo_keyed)"

lemma demo_first: "publish_batch reversing_engine demo_clock [demo_key] demo_ready = (Inr [Published (MessageId 3)], demo_keyed)"
proof -
  have "fst (publish_batch reversing_engine demo_clock [demo_key] demo_ready) = Inr [Published (MessageId 3)]" by code_simp
  from known_result [OF this] show ?thesis by (simp add: demo_keyed_def)
qed

definition demo_other :: consumer where
  "demo_other = \<lparr>co_publish_signal = 0, co_consumer_signal = 2, co_id = 2, co_name = ''v'', co_filter = FilterAll\<rparr>"

definition demo_other_run :: "action list" where
  "demo_other_run =
     [DoOpen reversing_engine demo_clock (consumer_builder_new ''v''), DoPublish reversing_engine demo_clock demo_publishes,
      DoClaim reversing_engine demo_other 5 2000 32000, DoNack demo_clock demo_other [demo_receipt 1] Immediately,
      DoDrain demo_clock demo_other, DoDelete ''v'' DiscardAll]"

end
