(* ===== verification/Consumer_Guarantees.thy ===== *)
theory Consumer_Guarantees
  imports Examples
begin

text \<open>
  What the operations of a consumer handle guarantee: claims, receipts and archives, each
  followed by an application to the demo store.
\<close>

text \<open>C15: a claim takes exactly what is available.
  A successful claim returns as many deliveries as are due or not yet scanned, up to the batch
  size, in ascending message order, each with the stored message, a positive attempt count and
  a receipt that is current in the store it leaves.\<close>

theorem claim_exact:
  assumes E: "engine_ok E" and inv: "fan_inv fan" and n: "n \<le> lf_max_batch_size fan"
    and run: "claim E (\<lambda>db. db) (\<lambda>db. db) clk self n lease_ms fan = (Inr r, fan')"
    and clk: "now_ms clk = Inr now"
    and c: "c \<in> set (t_consumers (lf_pool fan))" "cr_id c = co_id self"
  shows "length (cl_deliveries r) = min n (length (filter (\<lambda>d. dr_visible_at d \<le> now)
           (deliveries_of (lf_pool fan) (cr_id c))) + length (unscanned (lf_pool fan) c)) \<and>
    sorted_wrt (<) (map (\<lambda>d. message_id_get (msg_id (dv_message d))) (cl_deliveries r)) \<and>
    (\<forall>d \<in> set (cl_deliveries r). dv_message d \<in> message_of_row ` set (t_messages (lf_pool fan)) \<and>
       rc_message_id (dv_receipt d) = message_id_get (msg_id (dv_message d)) \<and>
       0 < dv_delivery_count d \<and> current (dv_receipt d) (lf_pool fan'))"
proof -
  note db = fan_invD(1) [OF inv]
  from E inv n db run show ?thesis
  proof (cases rule: claim_Inr)
    case (idle now' c')
    then have "c' = c" using consumer_unique [OF db_invD(2) [OF db] idle(2) c(1)] c(2) by simp
    moreover have "now' = now" using idle(1) clk by simp
    ultimately show ?thesis using idle by (auto simp: filter_empty_conv not_le)
  next
    case (leased now' c')
    have [simp]: "c' = c" using consumer_unique [OF db_invD(2) [OF db] leased(2) c(1)] leased(3) c(2) by simp
    have [simp]: "now' = now" using leased(1) clk by simp
    let ?ds = "claimed_deliveries self c now (now + lease_ms) n (lf_pool fan)"
    have ids: "map (\<lambda>d. message_id_get (msg_id (dv_message d))) ?ds
        = map ls_message_id (claimed_leases c now (now + lease_ms) n (lf_pool fan))"
      by (rule claimed_deliveries_ids [OF db c(1)])
    then have "length ?ds = length (claimed_leases c now (now + lease_ms) n (lf_pool fan))" by (metis length_map)
    moreover have "dv_message d \<in> message_of_row ` set (t_messages (lf_pool fan)) \<and>
        rc_message_id (dv_receipt d) = message_id_get (msg_id (dv_message d)) \<and>
        0 < dv_delivery_count d \<and> current (dv_receipt d) (lf_pool fan')" if d: "d \<in> set ?ds" for d
    proof -
      obtain l m where l: "l \<in> set (claimed_leases c now (now + lease_ms) n (lf_pool fan))"
        and m: "m \<in> set (t_messages (lf_pool fan))" "mr_id m = ls_message_id l" "d = delivery_record self l (message_of_row m)"
        using claimed_deliveries_nth [OF db c(1) d] .
      then show ?thesis
        using claimed_counts(1) [OF db l] claimed_leased [OF db c(1) l] leased(5) c(2)
        by (auto simp: delivery_record_def current_def leased_def receipt_key_def)
    qed
    ultimately show ?thesis
      using leased(4) ids claimed_leases_sorted [OF db c(1)] length_claimed_leases [OF db_invD(3) [OF db]] by simp
  qed
qed

theorem claim_exact_witness:
  "length (cl_deliveries (case fst (claim reversing_engine (\<lambda>db. db) (\<lambda>db. db) demo_clock demo_worker 10 30000 demo_ready) of
     Inr r \<Rightarrow> r)) = 2"
proof -
  let ?run = "claim reversing_engine (\<lambda>db. db) (\<lambda>db. db) demo_clock demo_worker 10 30000 demo_ready"
  have "fst ?run = Inr (case fst ?run of Inr r \<Rightarrow> r)" by code_simp
  from claim_exact [OF reversing_engine_ok demo_inv(2) _ known_result [OF this], of 1000 demo_row]
  have "length (cl_deliveries (case fst ?run of Inr r \<Rightarrow> r)) = min 10 (length (filter (\<lambda>d. dr_visible_at d \<le> 1000)
      (deliveries_of (lf_pool demo_ready) 1)) + length (unscanned (lf_pool demo_ready) demo_row))"
    by (simp add: demo_batch_sizes demo_rows demo_clock_def demo_worker_def now_ms_def i64_try_from_def in_i64_def i64_min_def i64_max_def)
  also have "\<dots> = 2" by code_simp
  finally show ?thesis .
qed

text \<open>C35: a claim never breaks an invariant.
  The only ways a claim fails are an unusable clock or lease length, a deleted consumer and a
  counter at its end; in particular every claimed delivery has its message, no counter is
  negative and no constraint of the schema is violated, whatever other processes commit in
  between.\<close>

theorem claim_errors:
  assumes "engine_ok E" and "fan_inv fan" and "n \<le> lf_max_batch_size fan"
    and "db_inv (others1 (lf_pool fan))"
    and "claim E others1 others2 clk self n lease_ms fan = (Inl e, fan')"
  shows "e \<in> {ClockBeforeUnixEpoch, DurationOutOfRange, deleted_error self, Sqlx DatatypeViolation}"
  using assms by (rule claim_Inl)

theorem claim_errors_witness:
  "ClockBeforeUnixEpoch \<in> {ClockBeforeUnixEpoch, DurationOutOfRange, deleted_error demo_worker, Sqlx DatatypeViolation}"
proof (rule claim_errors [OF reversing_engine_ok demo_inv(2)])
  show "10 \<le> lf_max_batch_size demo_ready" by (simp add: demo_batch_sizes)
  show "db_inv (lf_pool demo_ready)" by (rule fan_invD(1) [OF demo_inv(2)])
  show "claim reversing_engine (\<lambda>db. db) (\<lambda>db. db) (-1) demo_worker 10 30000 demo_ready
      = (Inl ClockBeforeUnixEpoch, demo_ready)"
    by (simp add: claim_def now_ms_def)
qed

text \<open>C25: acknowledging is exact.
  A batch within the size limit never fails: it counts as applied the distinct receipts that
  match a delivery of this consumer, the rest as stale, removes exactly those deliveries and
  nothing else.\<close>

theorem ack_batch_exact:
  assumes "fan_inv fan" and "length rs \<le> lf_max_batch_size fan"
  shows "ack_batch self rs fan =
    (Inr \<lparr>br_applied = card (held_leases (co_id self) rs (lf_pool fan)),
          br_stale = length rs - card (held_leases (co_id self) rs (lf_pool fan))\<rparr>,
     fan\<lparr>lf_pool := (lf_pool fan)\<lparr>t_deliveries := filter (\<lambda>d. \<not> (dr_consumer_id d = co_id self \<and>
       (\<exists>r \<in> set rs. lease_key d = receipt_key r))) (t_deliveries (lf_pool fan))\<rparr>\<rparr>)"
proof (cases "rs = []")
  case True
  then show ?thesis by (simp add: ack_batch_def default_batch_result_def held_leases_def)
next
  case False
  have "receipt_clause cid rs d \<longleftrightarrow> dr_consumer_id d = cid \<and> (\<exists>r \<in> set rs. lease_key d = receipt_key r)" for cid d
    by (auto simp: receipt_clause_def push_receipt_predicate_def)
  with ack_batch_eq [OF assms(1) False assms(2), of self] show ?thesis
    by (simp add: batch_result_of_def acked_db_def)
qed

theorem ack_batch_exact_witness:
  "fst (ack_batch demo_worker [demo_receipt 1, demo_receipt 1, demo_receipt 9] demo_leased)
    = Inr \<lparr>br_applied = 1, br_stale = 2\<rparr>"
proof -
  have "fst (ack_batch demo_worker [demo_receipt 1, demo_receipt 1, demo_receipt 9] demo_leased)
      = Inr \<lparr>br_applied = card (held_leases 1 [demo_receipt 1, demo_receipt 1, demo_receipt 9] (lf_pool demo_leased)),
             br_stale = 3 - card (held_leases 1 [demo_receipt 1, demo_receipt 1, demo_receipt 9] (lf_pool demo_leased))\<rparr>"
    using ack_batch_exact [OF demo_inv(3), of "[demo_receipt 1, demo_receipt 1, demo_receipt 9]" demo_worker]
    by (simp add: demo_batch_sizes demo_worker_def)
  moreover have "card (held_leases 1 [demo_receipt 1, demo_receipt 1, demo_receipt 9] (lf_pool demo_leased)) = 1"
    by code_simp
  ultimately show ?thesis by simp
qed

text \<open>C21: releasing is exact, chunk by chunk.
  A release makes a delivery visible at the retry time and moves its generation on once for each
  chunk of 332 receipts that names it, reports the sum as applied, and wakes the consumer's
  workers if there was any; a generation used up fails the batch and changes nothing. In one chunk, or
  when no receipt is ahead of its delivery, that is once for each delivery of this
  consumer that some receipt matches, and applied is the number of distinct receipts that match. A
  receipt kept from before a redrive can be ahead, and then a larger batch releases one
  delivery twice and counts it twice.\<close>

theorem nack_batch_exact:
  assumes inv: "fan_inv fan" and rs: "rs \<noteq> []" "length rs \<le> lf_max_batch_size fan"
    and clk: "now_ms clk = Inr now" "add_duration now (retry_delay retry) = Inr v"
  shows "let db = lf_pool fan;
      hits = (\<lambda>d. nack_hits (co_id self) (chunks RECEIPTS_PER_CHUNK rs) (lease_key d));
      applied = (\<Sum>d \<leftarrow> t_deliveries db. hits d)
    in nack_batch clk self rs retry fan =
        (if \<forall>d \<in> set (t_deliveries db). dr_generation d + int (hits d) \<le> i64_max
         then (Inr \<lparr>br_applied = applied, br_stale = length rs - applied\<rparr>,
           fan\<lparr>lf_pool := db\<lparr>t_deliveries := map (\<lambda>d. if hits d = 0 then d
                  else d\<lparr>dr_visible_at := v, dr_generation := dr_generation d + int (hits d)\<rparr>) (t_deliveries db)\<rparr>,
               lf_signals := (if 0 < applied then notify_signal (co_consumer_signal self) (lf_signals fan)
                              else lf_signals fan)\<rparr>)
         else (Inl (Sqlx DatatypeViolation), fan)) \<and>
      (receipts_regular rs db \<or> length rs \<le> RECEIPTS_PER_CHUNK \<longrightarrow>
         applied = card (held_leases (co_id self) rs db) \<and>
         (\<forall>d \<in> set (t_deliveries db). hits d =
            (if dr_consumer_id d = co_id self \<and> (\<exists>r \<in> set rs. lease_key d = receipt_key r) then 1 else 0)))"
proof -
  let ?db = "lf_pool fan"
  let ?hits = "\<lambda>d. nack_hits (co_id self) (chunks RECEIPTS_PER_CHUNK rs) (lease_key d)"
  note del = db_invD(3) [OF fan_invD(1) [OF inv]]
  have once: "?hits d = (if dr_consumer_id d = co_id self \<and> (\<exists>r \<in> set rs. lease_key d = receipt_key r) then 1 else 0)"
    if "receipts_regular rs ?db \<or> length rs \<le> RECEIPTS_PER_CHUNK" "d \<in> set (t_deliveries ?db)" for d
    using nack_hits_regular [OF that] by (simp add: receipt_clause_iff)
  note card = nack_hits_card [OF del, of rs "co_id self"]
  show ?thesis
    unfolding Let_def nack_batch_txn [OF rs clk] nack_txn_hits [OF del]
    by (intro conjI impI ballI)
      (simp_all only: once card batch_result_of_def released_row_def if_distrib [of "case_sum _ _"] sum.case prod.case)
qed

text \<open>
  The worker holds message 1 under generation 1; its receipt 332 times and, in the next chunk, the
  receipt of generation 2: one delivery, two applied receipts and two generations.
\<close>

theorem nack_batch_exact_witness:
  "(case nack_batch demo_clock demo_worker (replicate 332 (demo_receipt 1) @ [(demo_receipt 1)\<lparr>rc_generation := 2\<rparr>])
      Immediately demo_leased of (result, fan') \<Rightarrow>
      result = Inr \<lparr>br_applied = 2, br_stale = 331\<rparr> \<and>
      map lease_key (t_deliveries (lf_pool fan')) = [(1, 1, 3), (1, 2, 1)])"
proof -
  let ?rs = "replicate 332 (demo_receipt 1) @ [(demo_receipt 1)\<lparr>rc_generation := 2\<rparr>]"
  have chunks: "map (nack_hits 1 (chunks RECEIPTS_PER_CHUNK ?rs)) [(1, 1, 1), (1, 2, 1)] = [2, 0]"
    by code_simp
  have clk: "now_ms demo_clock = Inr 1000" "add_duration 1000 (retry_delay Immediately) = Inr 1000" by code_simp+
  obtain d e where rows: "t_deliveries (lf_pool demo_leased) = [d, e]" "lease_key d = (1, 1, 1)" "lease_key e = (1, 2, 1)"
    using demo_leases(1) by (auto simp: map_eq_Cons_conv)
  then show ?thesis
    using nack_batch_exact [OF demo_inv(3) _ _ clk, of ?rs demo_worker] chunks
    by (simp add: Let_def demo_batch_sizes demo_worker_def rows lease_key_def i64_max_def)
qed

text \<open>C40: extending is exact within a chunk, and counts again in the next one.
  An extension moves no deadline earlier, keeps every generation and touches only the
  deliveries its receipts match. The count adds up over the chunks of 332 receipts, so a
  receipt that occurs in two chunks is counted as applied twice: 333 copies of one receipt
  report two applied receipts.\<close>

theorem extend_batch_counts_per_chunk:
  assumes inv: "fan_inv fan" and rs: "rs \<noteq> []" "length rs \<le> lf_max_batch_size fan"
    and clk: "duration_ms timeout = Inr ms" "ms \<noteq> 0" "now_ms clk = Inr now" "add_duration now timeout = Inr v"
  shows "extend_visibility_batch clk self rs timeout fan =
    (let applied = (\<Sum>chunk \<leftarrow> chunks RECEIPTS_PER_CHUNK rs. card (held_leases (co_id self) chunk (lf_pool fan))) in
      (Inr \<lparr>br_applied = applied, br_stale = length rs - applied\<rparr>,
       fan\<lparr>lf_pool := (lf_pool fan)\<lparr>t_deliveries := map (\<lambda>d.
            if dr_consumer_id d = co_id self \<and> (\<exists>r \<in> set rs. lease_key d = receipt_key r)
            then d\<lparr>dr_visible_at := max (dr_visible_at d) v\<rparr> else d) (t_deliveries (lf_pool fan))\<rparr>\<rparr>))"
proof -
  from rs clk show ?thesis
    by (simp add: extend_visibility_batch_def transaction_def Let_def batch_result_of_def extend_txn_eq
        extended_db_explicit ensure_batch_size_def
        length_held [OF db_invD(3) [OF fan_invD(1) [OF inv]]])
qed

theorem extend_batch_counts_per_chunk_witness:
  "fst (extend_visibility_batch demo_clock demo_worker (replicate 333 (demo_receipt 1)) 60000000000 demo_leased)
    = Inr \<lparr>br_applied = 2, br_stale = 331\<rparr>"
proof -
  let ?rs = "replicate 333 (demo_receipt 1)"
  have n: "(\<Sum>chunk \<leftarrow> chunks RECEIPTS_PER_CHUNK ?rs. card (held_leases (co_id demo_worker) chunk (lf_pool demo_leased))) = 2"
    by code_simp
  have "duration_ms 60000000000 = Inr 60000" "now_ms demo_clock = Inr 1000" "add_duration 1000 60000000000 = Inr 61000"
    by code_simp+
  from extend_batch_counts_per_chunk [OF demo_inv(3) _ _ this(1) _ this(2,3), of ?rs demo_worker] n
  show ?thesis by (simp add: demo_batch_sizes Let_def)
qed

text \<open>C26: archiving is exact.
  The deliveries of this consumer that the receipts match move to the archive in message
  order under consecutive new archive ids, with the attempts they had used up, the archiving
  time and the detail; no other row changes, and the counts are those of the distinct
  receipts matched.\<close>

theorem archive_batch_exact:
  assumes E: "engine_ok E" and inv: "fan_inv fan" and rs: "rs \<noteq> []" "length rs \<le> lf_max_batch_size fan"
    and clk: "now_ms clk = Inr now"
    and room: "seq_archives (lf_pool fan) + int (card (held_leases (co_id self) rs (lf_pool fan))) \<le> i64_max"
  shows "let db = lf_pool fan;
      rows = sort_key dr_message_id (filter (receipt_clause (co_id self) rs) (t_deliveries db));
      ids = [seq_archives db + 1..seq_archives db + int (length rows)];
      (result, fan') = archive_batch_with_detail E clk self rs detail fan
    in result = Inr \<lparr>br_applied = length rows, br_stale = length rs - length rows\<rparr> \<and>
      lf_pool fan' = db\<lparr>
        t_deliveries := filter (\<lambda>d. \<not> receipt_clause (co_id self) rs d) (t_deliveries db),
        t_archives := t_archives db @ map2 (\<lambda>i d.
          \<lparr>ar_id = i, ar_consumer_id = dr_consumer_id d, ar_message_id = dr_message_id d,
           ar_archived_at = now, ar_delivery_count = dr_delivery_count d,
           ar_last_generation = dr_generation d, ar_detail = detail\<rparr>) ids rows,
        seq_archives := seq_archives db + int (length rows)\<rparr>"
proof -
  note del = db_invD(3) [OF fan_invD(1) [OF inv]]
  let ?rows = "sort_key dr_message_id (filter (receipt_clause (co_id self) rs) (t_deliveries (lf_pool fan)))"
  have len: "length ?rows = card (held_leases (co_id self) rs (lf_pool fan))"
    using length_held [OF del, of "co_id self" rs] by simp
  have rows: "map2 (\<lambda>j l. archive_row_of now detail l j) is (map archived_lease_from_row ds) = map2 (\<lambda>i d.
      \<lparr>ar_id = i, ar_consumer_id = dr_consumer_id d, ar_message_id = dr_message_id d,
       ar_archived_at = now, ar_delivery_count = dr_delivery_count d,
       ar_last_generation = dr_generation d, ar_detail = detail\<rparr>) is ds" for "is" ds
    by (simp add: zip_map2 archive_row_of_def archived_lease_from_row_def case_prod_beta)
  have "archive_txn E (co_id self) rs now detail (lf_pool fan)
      = Inr (length ?rows, archived_db (co_id self) rs now detail (lf_pool fan))"
    using archive_txn_eq [OF E fan_invD(1) [OF inv], of "co_id self" rs now detail] room len by simp
  with rs clk show ?thesis
    by (simp add: archive_batch_with_detail_def transaction_def Let_def batch_result_of_def archived_db_def
        acked_db_def archive_rows_map2 archived_leases_rows rows ensure_batch_size_def)
qed

text \<open>C27: redriving is exact.
  Redriving makes exactly the named archives of the consumer deliverable again at the retry time,
  as fresh deliveries without attempts, counts each once, however often it is named, and notifies
  the consumer exactly when it restored something.\<close>

theorem redrive_batch_exact:
  assumes E: "engine_ok E" and inv: "fan_inv fan" and ids: "ids \<noteq> []" "length ids \<le> lf_max_batch_size fan"
    and clk: "now_ms clk = Inr now" "add_duration now (retry_delay retry) = Inr v"
  shows "let db = lf_pool fan;
      named = filter (\<lambda>a. ar_consumer_id a = co_id self \<and> ar_id a \<in> archive_id_get ` set ids) (t_archives db)
    in \<exists>mids. mset mids = mset (map ar_message_id named) \<and>
      redrive_batch E clk self ids retry fan =
        (Inr \<lparr>br_applied = length named, br_stale = length ids - length named\<rparr>,
         fan\<lparr>lf_pool := db\<lparr>
               t_archives := filter (\<lambda>a. \<not> (ar_consumer_id a = co_id self \<and> ar_id a \<in> archive_id_get ` set ids)) (t_archives db),
               t_deliveries := t_deliveries db @ map (\<lambda>mid. \<lparr>dr_consumer_id = co_id self, dr_message_id = mid,
                 dr_visible_at = v, dr_generation = 0, dr_delivery_count = 0\<rparr>) mids\<rparr>,
             lf_signals := (if named = [] then lf_signals fan
                            else notify_signal (co_consumer_signal self) (lf_signals fan))\<rparr>)"
proof -
  let ?named = "filter (redrive_clause (co_id self) ids) (t_archives (lf_pool fan))"
  have clause: "redrive_clause (co_id self) ids = (\<lambda>a. ar_consumer_id a = co_id self \<and> ar_id a \<in> archive_id_get ` set ids)"
    by (rule ext) (simp add: redrive_clause_def)
  obtain mids where ms: "mset mids = mset (archived_messages (co_id self) ids (lf_pool fan))"
    and txn: "redrive_txn E (co_id self) ids v (lf_pool fan)
      = Inr (length mids, redriven_db (co_id self) v ids mids (lf_pool fan))"
    by (rule redrive_txn_eq [OF E fan_invD(1) [OF inv]])
  have len: "length mids = length ?named"
    using mset_eq_length [OF ms] by (simp add: archived_messages_def)
  have db: "redriven_db (co_id self) v ids mids (lf_pool fan) = (lf_pool fan)\<lparr>
      t_archives := filter (\<lambda>a. \<not> redrive_clause (co_id self) ids a) (t_archives (lf_pool fan)),
      t_deliveries := t_deliveries (lf_pool fan) @ map (redriven_row (co_id self) v) mids\<rparr>"
    by (simp add: redriven_db_def removed_archives_def)
  have run: "redrive_batch E clk self ids retry fan =
      (Inr \<lparr>br_applied = length ?named, br_stale = length ids - length ?named\<rparr>,
       fan\<lparr>lf_pool := redriven_db (co_id self) v ids mids (lf_pool fan),
           lf_signals := (if ?named = [] then lf_signals fan
                          else notify_signal (co_consumer_signal self) (lf_signals fan))\<rparr>)"
    using ids clk len by (simp add: redrive_batch_def transaction_def txn ensure_batch_size_def)
  show ?thesis
    unfolding Let_def
    by (rule exI [of _ mids])
      (simp add: run db ms archived_messages_def clause redriven_row_def [abs_def])
qed

theorem redrive_batch_exact_witness:
  "\<exists>fan'. redrive_batch reversing_engine demo_clock demo_worker [ArchiveId 1, ArchiveId 1, ArchiveId 9] Immediately demo_archived
    = (Inr \<lparr>br_applied = 1, br_stale = 2\<rparr>, fan')"
proof -
  let ?ids = "[ArchiveId 1, ArchiveId 1, ArchiveId 9]"
  let ?named = "filter (\<lambda>a. ar_consumer_id a = co_id demo_worker \<and> ar_id a \<in> archive_id_get ` set ?ids) (t_archives (lf_pool demo_archived))"
  have n: "length ?named = 1" by code_simp
  have clk: "now_ms demo_clock = Inr 1000" "add_duration 1000 (retry_delay Immediately) = Inr 1000" by code_simp+
  have "?ids \<noteq> []" "length ?ids \<le> lf_max_batch_size demo_archived" by (simp_all add: demo_archived_batch_size)
  from redrive_batch_exact [OF reversing_engine_ok demo_archived_inv this clk, of demo_worker]
  show ?thesis unfolding Let_def n by auto
qed

text \<open>C28: archive pages.
  Listing archives page by page, each page starting after the last archive of the one before,
  enumerates the consumer's archives once each in order of archive id.\<close>

theorem archive_pages:
  assumes inv: "fan_inv fan" and n: "0 < n" "n \<le> lf_max_batch_size fan"
    and k: "k \<le> length (archive_list (lf_pool fan) (co_id self))"
  shows "archives self
      \<lparr>la_after = (if k = 0 then None else Some (ad_id (archive_list (lf_pool fan) (co_id self) ! (k - 1)))),
       la_max_archives = n\<rparr> fan
    = Inr (take n (drop k (archive_list (lf_pool fan) (co_id self))))"
proof -
  let ?as = "archives_of (lf_pool fan) (co_id self)"
  note arch = db_invD(4) [OF fan_invD(1) [OF inv]]
  have sorted: "sorted_wrt (<) (map ar_id ?as)"
    unfolding archives_of_def by (rule archives_of_sorted [OF arch])
  have pos: "0 < ar_id a" if "a \<in> set ?as" for a
    using that arch by (simp add: archives_of_def archives_inv_def)
  have "filter (\<lambda>a. (if k = 0 then 0 else ar_id (?as ! (k - 1))) < ar_id a) ?as = drop k ?as"
  proof (cases "k = 0")
    case True
    then show ?thesis using pos by simp
  next
    case False
    then show ?thesis using filter_after_take [OF sorted, of k] k by (simp add: archive_list_def)
  qed
  moreover have "ad_id (archive_list (lf_pool fan) (co_id self) ! (k - 1)) = ArchiveId (ar_id (?as ! (k - 1)))" if "k \<noteq> 0"
    using that k by (simp add: archive_list_def archive_entry_def)
  ultimately show ?thesis
    using n by (cases "k = 0") (simp_all add: archives_eq [OF inv] archive_list_def drop_map take_map)
qed

text \<open>C29: purging is bounded and oldest first.
  A purge deletes at most the given number of this consumer's archives, all of them created
  before the given time, in order of archive id, and reports how many.\<close>

theorem purge_archives_exact:
  assumes inv: "fan_inv fan" and n: "pa_max_archives purge \<le> lf_max_batch_size fan"
  shows "let old = filter (\<lambda>a. ar_consumer_id a = co_id self \<and> ar_archived_at a < pa_before_ms purge)
        (t_archives (lf_pool fan)); gone = take (pa_max_archives purge) old
    in purge_archives self purge fan =
      (Inr \<lparr>deleted_archives = length gone\<rparr>,
       fan\<lparr>lf_pool := (lf_pool fan)\<lparr>t_archives := filter (\<lambda>a. a \<notin> set gone) (t_archives (lf_pool fan))\<rparr>\<rparr>)"
proof -
  let ?db = "lf_pool fan" and ?n = "pa_max_archives purge"
  let ?old = "filter (\<lambda>a. ar_consumer_id a = co_id self \<and> ar_archived_at a < pa_before_ms purge) (t_archives ?db)"
  note arch = db_invD(4) [OF fan_invD(1) [OF inv]]
  have sorted: "sorted_wrt (<) (map ar_id ?old)" by (rule archives_of_sorted [OF arch])
  then have "sort (map ar_id ?old) = map ar_id ?old"
    by (simp add: sorted_sort_id strict_sorted_iff)
  then have ids: "old_archive_ids ?db (co_id self) (pa_before_ms purge) (int ?n) = map ar_id (take ?n ?old)"
    by (simp add: old_archive_ids_def take_map)
  have inj: "a = b" if "a \<in> set (t_archives ?db)" "b \<in> set (t_archives ?db)" "ar_id a = ar_id b" for a b
    using that arch distinct_map_inj [of ar_id "t_archives ?db" a b]
    by (simp add: archives_inv_def strict_sorted_distinct)
  have sub: "set (take ?n ?old) \<subseteq> set (t_archives ?db)" by (auto dest: in_set_takeD)
  have keep: "ar_id a \<in> set (map ar_id (take ?n ?old)) \<longleftrightarrow> a \<in> set (take ?n ?old)" if "a \<in> set (t_archives ?db)" for a
    using inj that sub by auto
  have len: "length (filter (\<lambda>a. a \<in> set (take ?n ?old)) (t_archives ?db)) = length (take ?n ?old)"
  proof -
    have "distinct (t_archives ?db)"
      using arch by (auto simp: archives_inv_def distinct_map dest!: strict_sorted_distinct)
    then have "length (filter (\<lambda>a. a \<in> set (take ?n ?old)) (t_archives ?db)) = card (set (take ?n ?old))"
      using sub by (subst distinct_length_filter) (auto intro: arg_cong [where f = card])
    also have "\<dots> = length (take ?n ?old)"
      by (rule distinct_card) (simp add: \<open>distinct (t_archives ?db)\<close>)
    finally show ?thesis .
  qed
  have "purge_archives_statement (co_id self) (pa_before_ms purge) (int ?n) ?db =
    Inr (length (take ?n ?old), ?db\<lparr>t_archives := filter (\<lambda>a. a \<notin> set (take ?n ?old)) (t_archives ?db)\<rparr>)"
    unfolding purge_statement_eq purged_db_def ids
    using len keep by (simp cong: filter_cong)
  moreover have "int ?n \<le> i64_max" using n fan_invD(4) [OF inv] by linarith
  ultimately show ?thesis
    using n by (simp add: purge_archives_def Let_def transaction_def ensure_batch_size_def
        default_purge_archives_outcome_def i64_try_from_def in_i64_def order_trans [OF i64_min_neg(2)])
qed


theorem archive_batch_exact_witness:
  "map (\<lambda>a. (ar_id a, ar_key a, ar_last_generation a)) (t_archives (lf_pool demo_archived)) = [(1, (1, 1), 1), (2, (1, 2), 1)]"
proof -
  let ?rs = "[demo_receipt 2, demo_receipt 1]"
  let ?rows = "sort_key dr_message_id (filter (receipt_clause (co_id demo_worker) ?rs) (t_deliveries (lf_pool demo_leased)))"
  have hyps: "now_ms demo_clock = Inr 1000" "length ?rs \<le> lf_max_batch_size demo_leased"
    "seq_archives (lf_pool demo_leased) + int (card (held_leases (co_id demo_worker) ?rs (lf_pool demo_leased))) \<le> i64_max"
    by code_simp+
  have rows: "?rows = [\<lparr>dr_consumer_id = 1, dr_message_id = 1, dr_visible_at = 31000, dr_generation = 1, dr_delivery_count = 1\<rparr>,
      \<lparr>dr_consumer_id = 1, dr_message_id = 2, dr_visible_at = 31000, dr_generation = 1, dr_delivery_count = 1\<rparr>]"
    "t_archives (lf_pool demo_leased) = []" "seq_archives (lf_pool demo_leased) = 0" by code_simp+
  show ?thesis
    using archive_batch_exact [OF reversing_engine_ok demo_inv(3) _ hyps(2,1,3), of "Some ''bad''",
      unfolded Let_def rows]
    by (auto simp: demo_archived_def ar_key_def upto_rec1 split: prod.splits)
qed

theorem archive_pages_witness:
  "archives demo_worker \<lparr>la_after = Some (ArchiveId 1), la_max_archives = 5\<rparr> demo_archived
    = Inr (drop 1 (archive_list (lf_pool demo_archived) 1))"
proof -
  have list: "length (archive_list (lf_pool demo_archived) 1) = 2"
    "ad_id (archive_list (lf_pool demo_archived) 1 ! 0) = ArchiveId 1" by code_simp+
  from archive_pages [OF demo_archived_inv, of 5 1 demo_worker] list show ?thesis
    by (simp add: demo_archived_batch_size demo_worker_def)
qed

theorem purge_archives_exact_witness:
  "fst (purge_archives demo_worker \<lparr>pa_before_ms = 5000, pa_max_archives = 1\<rparr> demo_archived)
    = Inr \<lparr>deleted_archives = 1\<rparr>"
proof -
  let ?old = "filter (\<lambda>a. ar_consumer_id a = co_id demo_worker \<and> ar_archived_at a < 5000) (t_archives (lf_pool demo_archived))"
  have "length (take 1 ?old) = 1" by code_simp
  with purge_archives_exact [OF demo_archived_inv, of "\<lparr>pa_before_ms = 5000, pa_max_archives = 1\<rparr>" demo_worker]
  show ?thesis by (simp add: demo_archived_batch_size Let_def)
qed

text \<open>C30: reopening a consumer.
  Opening the name of an existing consumer with the filter it was created with returns a handle
  on the same identity and leaves every inbox as it was; with another filter it is refused and
  nothing changes. Opening a new name creates an identity never used before, owed nothing.\<close>

theorem open_consumer_identity:
  assumes inv: "fan_inv fan" and name: "cb_name b \<noteq> []" and clk: "now_ms clk = Inr now"
    and room: "seq_consumers (lf_pool fan) \<noteq> i64_max"
  shows "case find_consumer_by_name (cb_name b) (lf_pool fan) of
      Some c \<Rightarrow>
        if cr_topic_filter c = as_database_value (cb_filter b)
        then (\<exists>self fan'. open_consumer E clk b fan = (Inr self, fan') \<and> co_id self = cr_id c \<and>
               inboxes (lf_pool fan') = inboxes (lf_pool fan))
        else open_consumer E clk b fan = (Inl (ConsumerConfigurationMismatch (cb_name b)), fan)
    | None \<Rightarrow>
        (\<exists>self fan'. open_consumer E clk b fan = (Inr self, fan') \<and>
           (\<forall>c \<in> set (t_consumers (lf_pool fan)). cr_id c < co_id self) \<and>
           inboxes (lf_pool fan') = (inboxes (lf_pool fan))(co_id self \<mapsto>
             \<lparr>ib_filter = as_database_value (cb_filter b), ib_accepting = True, ib_owed = {}, ib_archived = {}\<rparr>))"
proof -
  let ?db = "lf_pool fan"
  note db = fan_invD(1) [OF inv]
  note ins = insert_consumer_eq [OF db_invD(1) [OF db] room, of E "cb_name b" "as_database_value (cb_filter b)" now]
  show ?thesis
  proof (cases "find_consumer_by_name (cb_name b) ?db")
    case (Some c)
    then have c: "c \<in> set (t_consumers ?db)" "cr_name c = cb_name b"
      using find_consumer_by_name_Some [OF db_invD(2) [OF db]] by auto
    let ?db1 = "if eng_burns_rowid E then ?db\<lparr>seq_consumers := seq_consumers ?db + 1\<rparr> else ?db"
    have found: "find_consumer_by_name (cb_name b) ?db1 = Some c" using Some by (simp add: find_consumer_by_name_def)
    have txn: "open_txn E b now ?db = (if cr_topic_filter c \<noteq> as_database_value (cb_filter b)
        then Inl (ConsumerConfigurationMismatch (cb_name b)) else Inr (cr_id c, ?db1))"
      using c found by (force simp: open_txn_def ins)
    then show ?thesis
      using Some name clk
      by (auto simp: open_consumer_def transaction_def inboxes_burned split: prod.splits)
  next
    case None
    then have new: "cb_name b \<notin> cr_name ` set (t_consumers ?db)"
      by (simp add: find_consumer_by_name_def find_key_None_iff)
    have txn: "open_txn E b now ?db = Inr (seq_consumers ?db + 1,
        created_db (cb_name b) (as_database_value (cb_filter b)) now ?db)"
      using None new
      by (simp add: open_txn_def ins created_db_def new_consumer_row_def find_consumer_by_name_def find_append_None)
    have "\<forall>c \<in> set (t_consumers ?db). cr_id c < seq_consumers ?db + 1"
      using db_invD(2) [OF db] by (auto simp: consumers_inv_def consumer_row_inv_def)
    with txn None name clk show ?thesis
      by (auto simp: open_consumer_def transaction_def inboxes_created [OF db] split: prod.splits)
  qed
qed

theorem open_consumer_identity_witness:
  "open_consumer reversing_engine demo_clock (builder_filter (FilterTopic ''t'') (consumer_builder_new ''w'')) demo_ready
    = (Inl (ConsumerConfigurationMismatch ''w''), demo_ready)"
proof -
  have hyps: "now_ms demo_clock = Inr 1000" "seq_consumers (lf_pool demo_ready) \<noteq> i64_max" by code_simp+
  have "find_consumer_by_name ''w'' (lf_pool demo_ready) = Some demo_row"
    by (simp add: find_consumer_by_name_def demo_rows) (simp add: demo_row_def)
  with open_consumer_identity [OF demo_inv(2) _ hyps, of "builder_filter (FilterTopic ''t'') (consumer_builder_new ''w'')"]
  show ?thesis by (simp add: builder_filter_def consumer_builder_new_def)
qed

text \<open>Draining happens once.
  \<open>begin_draining\<close> returns true exactly when it made an active consumer draining, returns false
  when it was draining already, and fails when it has been deleted.\<close>

theorem begin_draining_once:
  assumes inv: "fan_inv fan" and clk: "now_ms clk = Inr now"
  shows "fst (begin_draining (\<lambda>db. db) clk self fan) =
    (case find_consumer (co_id self) (lf_pool fan) of
       None \<Rightarrow> Inl (ConsumerDeleted (co_name self)) | Some c \<Rightarrow> Inr (cr_draining_at c = None)) \<and>
    (find_consumer (co_id self) (lf_pool fan) \<noteq> None \<longrightarrow>
       fst (begin_draining (\<lambda>db. db) clk self (snd (begin_draining (\<lambda>db. db) clk self fan))) = Inr False)"
proof -
  have result: "fst (begin_draining (\<lambda>db. db) clk self fan) =
      (case find_consumer (co_id self) (lf_pool fan) of
         None \<Rightarrow> Inl (ConsumerDeleted (co_name self)) | Some c \<Rightarrow> Inr (cr_draining_at c = None))"
    if "fan_inv fan" for fan
  proof -
    note db = fan_invD(1) [OF that]
    note rows = drain_statement_ok [OF db, of "co_id self" now] drain_rows_affected [OF db_invD(2) [OF db], of "co_id self"]
    have present: "co_id self \<in> cr_id ` set (t_consumers (lf_pool fan)) \<longleftrightarrow>
        find_consumer (co_id self) (lf_pool fan) \<noteq> None"
      by (simp add: find_consumer_def find_key_None_iff)
    let ?f = "\<lambda>c. if cr_id c = co_id self \<and> cr_draining_at c = None then drain_row now (high_water (lf_pool fan)) c else c"
    have "cr_id (?f c) = cr_id c" for c by (simp add: drain_row_def)
    then have ids: "cr_id ` set (map ?f cs) = cr_id ` set cs" for cs by (simp only: set_map image_image)
    show ?thesis
      unfolding begin_draining_def transaction_def clk rows sum.case prod.case
      by (cases "find_consumer (co_id self) (lf_pool fan)"; cases "cr_draining_at (the (find_consumer (co_id self) (lf_pool fan)))")
        (simp_all add: present ids deleted_error_def del: set_map)
  qed
  let ?fan1 = "snd (begin_draining (\<lambda>db. db) clk self fan)"
  have step: "?fan1 = perform (DoDrain clk self) fan" by simp
  have inv1: "fan_inv ?fan1" unfolding step by (rule perform_inv [OF inv]) simp
  have "lf_pool ?fan1 = drained_db (co_id self) now (lf_pool fan)"
    using pool_drain [OF inv, of clk self] clk by simp
  moreover have "find_consumer cid (drained_db cid t db) = map_option
      (\<lambda>c. if cr_id c = cid \<and> cr_draining_at c = None then drain_row t (high_water db) c else c) (find_consumer cid db)"
    for cid t db unfolding drained_db_def by (rule find_consumer_map) (simp add: drain_row_def)
  ultimately have "find_consumer (co_id self) (lf_pool ?fan1) = map_option
      (\<lambda>c. if cr_id c = co_id self \<and> cr_draining_at c = None then drain_row now (high_water (lf_pool fan)) c else c)
      (find_consumer (co_id self) (lf_pool fan))" by simp
  moreover have "cr_id c = co_id self" if "find_consumer (co_id self) (lf_pool fan) = Some c" for c
    using that by (auto simp: find_consumer_def find_Some_iff)
  ultimately show ?thesis
    using result [OF inv] result [OF inv1] by (auto simp: drain_row_def)
qed

theorem begin_draining_once_witness:
  "fst (begin_draining (\<lambda>db. db) demo_clock demo_worker demo_leased) = Inr True"
proof -
  have "now_ms demo_clock = Inr 1000" by code_simp
  from begin_draining_once [OF demo_inv(3) this, of demo_worker] show ?thesis
    by (simp add: find_consumer_def demo_rows demo_worker_def)
qed

end
