(* ===== verification/Store_Guarantees.thy ===== *)
theory Store_Guarantees
  imports Examples
begin

text \<open>
  What the operations of the store handle guarantee: publishing, deletion, retention,
  inspection and opening, each followed by an application to the demo store.
\<close>

text \<open>C14: a batch equals its messages one by one.
  A batch that is accepted gives each message the outcome, and stores the messages with the
  ids, that publishing the messages one after the other would: repeated keys within the batch
  and keys of earlier publishes give duplicates of the first message, and every other message
  gets the next id. The ledger is left the same too.\<close>

theorem publish_batch_one_by_one:
  assumes inv: "fan_inv fan" and E: "engine_ok E" "engine_ok E'" and t: "now_ms clk = Inr t"
    and room: "t + lf_idempotency_window_ms fan \<le> i64_max"
    and run: "publish_batch E clk ms fan = (Inr os, fan')"
  shows "\<exists>fan''. publish_one_by_one E' clk ms fan = (Inr os, fan'') \<and>
    t_messages (lf_pool fan'') = t_messages (lf_pool fan') \<and>
    live_ledger t (lf_pool fan'') = live_ledger t (lf_pool fan')"
proof (cases "ms = []")
  case True
  with run show ?thesis by (simp add: publish_batch_def)
next
  case False
  from run obtain t' ps L' where "now_ms clk = Inr t'"
    and ref: "publish_each (live_ledger t' (lf_pool fan)) (seq_messages (lf_pool fan)) ms = (os, ps, L')"
    and cap: "seq_messages (lf_pool fan) + int (length ps) \<le> i64_max"
    and fan': "fan' = fan\<lparr>lf_pool := published_db E t' (t' + lf_idempotency_window_ms fan) ms (lf_pool fan),
               lf_signals := wake_publishes ps (lf_signals fan)\<rparr>"
    by (rule publish_batch_Inr [OF inv E(1) False])
  then have [simp]: "t' = t" using t by simp
  show ?thesis
    using one_by_one_reference [OF inv E(2) t room ref [simplified] cap] fan' published_db_simps(1) [OF ref]
      published_ledger [OF fan_invD(1) [OF inv] E(1) ref cap, of "t + lf_idempotency_window_ms fan"]
      fan_invD(5) [OF inv]
    by auto
qed

theorem publish_batch_one_by_one_witness:
  "let ms = [with_idempotency_key [9] (publish_new [1]), with_idempotency_key [9] (publish_new [2]), publish_new [3]];
     fan' = snd (publish_batch reversing_engine demo_clock ms demo_ready)
   in \<exists>fan''. publish_one_by_one reversing_engine demo_clock ms demo_ready
       = (Inr [Published (MessageId 3), Duplicate (MessageId 3), Published (MessageId 4)], fan'') \<and>
     t_messages (lf_pool fan'') = t_messages (lf_pool fan') \<and>
     live_ledger 1000 (lf_pool fan'') = live_ledger 1000 (lf_pool fan')"
proof -
  let ?ms = "[with_idempotency_key [9] (publish_new [1]), with_idempotency_key [9] (publish_new [2]), publish_new [3]]"
  have "fst (publish_batch reversing_engine demo_clock ?ms demo_ready)
      = Inr [Published (MessageId 3), Duplicate (MessageId 3), Published (MessageId 4)]"
    "now_ms demo_clock = Inr 1000" "1000 + lf_idempotency_window_ms demo_ready \<le> i64_max"
    by code_simp+
  then show ?thesis
    unfolding Let_def
    by (intro publish_batch_one_by_one [OF demo_inv(2) reversing_engine_ok reversing_engine_ok] known_result) simp_all
qed

text \<open>Publishing fails only for lack of room.
  A non-empty batch is refused when it is too large, when the clock or the expiry does not fit,
  or when message ids run out; the ledger is never found incomplete.\<close>

theorem publish_batch_errors:
  assumes inv: "fan_inv fan" and E: "engine_ok E" and run: "publish_batch E clk ms fan = (Inl e, fan')"
  shows "e \<in> {BatchTooLarge (length ms) (lf_max_batch_size fan), ClockBeforeUnixEpoch, DurationOutOfRange,
    Sqlx DatabaseFull} \<and> fan' = fan"
proof -
  have ms: "ms \<noteq> []" using run by (auto simp: publish_batch_def)
  show ?thesis
  proof (cases "length ms \<le> lf_max_batch_size fan")
    case False
    with ms run show ?thesis by (auto simp: publish_batch_def ensure_batch_size_def)
  next
    case True
    define ref where "ref t = publish_each (live_ledger t (lf_pool fan)) (seq_messages (lf_pool fan)) ms" for t
    have "publish_each (live_ledger t (lf_pool fan)) (seq_messages (lf_pool fan)) ms
        = (fst (ref t), fst (snd (ref t)), snd (snd (ref t)))" for t
      by (simp add: ref_def)
    from publish_batch_eq [OF inv E ms True this] run now_ms_Inl [of clk] show ?thesis
      by (auto split: sum.splits if_splits)
  qed
qed

theorem publish_batch_errors_witness:
  "ClockBeforeUnixEpoch \<in> {BatchTooLarge (length [publish_new [1]]) (lf_max_batch_size demo_ready),
     ClockBeforeUnixEpoch, DurationOutOfRange, Sqlx DatabaseFull} \<and> demo_ready = demo_ready"
  by (rule publish_batch_errors [OF demo_inv(2) reversing_engine_ok, where clk = "-1"])
    (simp add: publish_batch_def publish_unkeyed_batch_def ensure_batch_size_def demo_batch_sizes publish_new_def now_ms_def)

text \<open>C24: deleting a consumer.
  Deletion finds the consumer by name, refuses in the order: not draining, not empty, archives
  retained, as the mode asks, and otherwise removes the consumer with everything it is owed
  and has archived, reporting exactly those numbers.\<close>

theorem delete_consumer_exact:
  assumes inv: "fan_inv fan"
  shows "delete_consumer name mode fan =
    (case find_consumer_by_name name (lf_pool fan) of
       None \<Rightarrow> (Inl (ConsumerNotFound name), fan)
     | Some c \<Rightarrow>
         let outstanding = card (owed (lf_pool fan) c); archived = length (archives_of (lf_pool fan) (cr_id c)) in
         if mode = DrainedOnly \<and> cr_draining_at c = None then (Inl (ConsumerNotDraining name), fan)
         else if mode = DrainedOnly \<and> 0 < outstanding then (Inl (ConsumerNotEmpty name outstanding), fan)
         else if mode \<noteq> DiscardAll \<and> 0 < archived then (Inl (ConsumerHasArchives name archived), fan)
         else (Inr \<lparr>do_discarded_deliveries = outstanding, do_discarded_archives = archived\<rparr>,
               fan\<lparr>lf_pool := without_consumer (cr_id c) (lf_pool fan),
                   lf_signals := notify_consumer (cr_id c) (lf_signals fan)\<rparr>))"
proof (cases "find_consumer_by_name name (lf_pool fan)")
  case None
  then show ?thesis
    by (simp add: delete_consumer_def transaction_def delete_txn_eq [OF fan_invD(1) [OF inv]])
next
  case (Some c)
  then have c: "c \<in> set (t_consumers (lf_pool fan))"
    using find_consumer_by_name_Some [OF db_invD(2) [OF fan_invD(1) [OF inv]]] by blast
  from Some outstanding_owed [OF fan_invD(1) [OF inv] c] show ?thesis
    by (simp add: delete_consumer_def transaction_def delete_txn_eq [OF fan_invD(1) [OF inv]] delete_guards_def Let_def)
qed

theorem delete_consumer_exact_witness:
  "fst (delete_consumer ''w'' DrainedOnly demo_leased) = Inl (ConsumerNotDraining ''w'')"
proof -
  have "find_consumer_by_name ''w'' (lf_pool demo_leased) = Some (demo_row\<lparr>cr_scan_cursor := 2\<rparr>)"
    by (simp add: find_consumer_by_name_def demo_rows) (simp add: demo_row_def)
  with delete_consumer_exact [OF demo_inv(3), of "''w''" DrainedOnly] show ?thesis
    by (simp add: Let_def demo_row_def)
qed

text \<open>A drained deletion loses nothing.
  Deleting in mode \<open>DrainedOnly\<close> succeeds only for a consumer that is draining, is owed nothing
  and has nothing archived, and leaves every other consumer's inbox as it was.\<close>

theorem drained_delete_loses_nothing:
  assumes inv: "fan_inv fan" and run: "delete_consumer name DrainedOnly fan = (Inr outcome, fan')"
  shows "\<exists>c. find_consumer_by_name name (lf_pool fan) = Some c \<and>
    inboxes (lf_pool fan) (cr_id c) = Some \<lparr>ib_filter = cr_topic_filter c, ib_accepting = False,
      ib_owed = {}, ib_archived = {}\<rparr> \<and>
    inboxes (lf_pool fan') = (inboxes (lf_pool fan))(cr_id c := None)"
proof -
  note db = fan_invD(1) [OF inv]
  from run inv obtain c where c: "find_consumer_by_name name (lf_pool fan) = Some c"
    "lf_pool fan' = without_consumer (cr_id c) (lf_pool fan)" using pool_delete by blast
  have row: "c \<in> set (t_consumers (lf_pool fan))"
    using find_consumer_by_name_Some [OF db_invD(2) [OF db]] c(1) by blast
  from run c(1) have guards: "delete_guards name DrainedOnly (cr_draining_at c) (outstanding_of (lf_pool fan) c)
      (length (archives_of (lf_pool fan) (cr_id c))) = Inr ()"
    by (auto simp: delete_consumer_def transaction_def delete_txn_eq [OF db] split: sum.splits)
  have "finite (owed (lf_pool fan) c)" by (simp add: owed_def)
  with guards have "cr_draining_at c \<noteq> None" "owed (lf_pool fan) c = {}" "archives_of (lf_pool fan) (cr_id c) = []"
    by (auto simp: delete_guards_def outstanding_owed [OF db row] split: if_splits)
  then have "inboxes (lf_pool fan) (cr_id c) = Some \<lparr>ib_filter = cr_topic_filter c, ib_accepting = False,
      ib_owed = {}, ib_archived = {}\<rparr>"
    using inboxes_row [OF db_invD(2) [OF db] row] by (simp add: inbox_of_def)
  moreover have "inboxes (lf_pool fan') = (inboxes (lf_pool fan))(cr_id c := None)"
    using c(2) inboxes_without [OF db, of "cr_id c"] by simp
  ultimately show ?thesis using c(1) by blast
qed

theorem drained_delete_loses_nothing_witness:
  "\<exists>c. find_consumer_by_name ''w'' (lf_pool (fold perform [DoAck demo_worker [demo_receipt 1, demo_receipt 2],
        DoDrain demo_clock demo_worker] demo_leased)) = Some c"
proof -
  let ?fan = "fold perform [DoAck demo_worker [demo_receipt 1, demo_receipt 2], DoDrain demo_clock demo_worker] demo_leased"
  have inv: "fan_inv ?fan" by (rule fan.run_inv [OF demo_inv(3)]) (simp del: perform.simps)
  have run: "fst (delete_consumer ''w'' DrainedOnly ?fan) = Inr \<lparr>do_discarded_deliveries = 0, do_discarded_archives = 0\<rparr>"
    by code_simp
  show ?thesis
    by (rule ex_forward [OF drained_delete_loses_nothing [OF inv known_result [OF run]]]) (erule conjunct1)
qed

text \<open>C23: pruning is safe, bounded and complete.
  A prune deletes, in id order and at most as many as asked for, exactly the messages published
  before the given time that no consumer is owed and none has archived; no inbox changes, and
  no foreign key is violated.\<close>

theorem prune_messages_exact:
  assumes inv: "fan_inv fan" and n: "pr_max_messages prune \<le> lf_max_batch_size fan"
  shows "let free = (\<lambda>m. mr_published_at m < pr_before_ms prune \<and>
        (\<forall>cid b. inboxes (lf_pool fan) cid = Some b \<longrightarrow> mr_id m \<notin> ib_owed b \<and> mr_id m \<notin> ib_archived b));
      gone = take (pr_max_messages prune) (filter free (t_messages (lf_pool fan)))
    in prune_messages prune fan =
      (Inr \<lparr>deleted_messages = length gone\<rparr>,
       fan\<lparr>lf_pool := (lf_pool fan)\<lparr>t_messages := filter (\<lambda>m. m \<notin> set gone) (t_messages (lf_pool fan))\<rparr>\<rparr>)"
proof -
  let ?db = "lf_pool fan" and ?n = "pr_max_messages prune" and ?t = "pr_before_ms prune"
  let ?old = "filter (prunable ?db ?t) (t_messages ?db)"
  note db = fan_invD(1) [OF inv]
  have free: "filter (\<lambda>m. mr_published_at m < ?t \<and>
        (\<forall>cid b. inboxes ?db cid = Some b \<longrightarrow> mr_id m \<notin> ib_owed b \<and> mr_id m \<notin> ib_archived b)) (t_messages ?db) = ?old"
    by (rule filter_cong) (simp_all add: prunable_unreferenced [OF db])
  have sorted: "sorted_wrt (<) (map mr_id (t_messages ?db))" using db_invD(1) [OF db] by (simp add: messages_inv_def)
  then have "sorted_wrt (<) (map mr_id ?old)" by (auto simp: sorted_wrt_map intro: sorted_wrt_filter)
  then have "sort (map mr_id ?old) = map mr_id ?old" by (simp add: sorted_sort_id strict_sorted_iff)
  then have ids: "prune_ids ?db ?t ?n = map mr_id (take ?n ?old)" by (simp add: prune_ids_def take_map)
  have inj: "a = b" if "a \<in> set (t_messages ?db)" "b \<in> set (t_messages ?db)" "mr_id a = mr_id b" for a b
    using that sorted distinct_map_inj [of mr_id "t_messages ?db" a b] by (simp add: strict_sorted_distinct)
  have "set (take ?n ?old) \<subseteq> set (t_messages ?db)" by (auto dest: in_set_takeD)
  then have keep: "mr_id m \<in> set (map mr_id (take ?n ?old)) \<longleftrightarrow> m \<in> set (take ?n ?old)" if "m \<in> set (t_messages ?db)" for m
    using inj that by auto
  have "prune_statement ?t ?n ?db =
    Inr (length (take ?n ?old), ?db\<lparr>t_messages := filter (\<lambda>m. m \<notin> set (take ?n ?old)) (t_messages ?db)\<rparr>)"
    unfolding prune_statement_eq [OF db_invD(1) [OF db]] pruned_db_def ids
    using keep by (simp add: min.commute cong: filter_cong)
  moreover have "int ?n \<le> i64_max" using n fan_invD(4) [OF inv] by linarith
  ultimately show ?thesis
    unfolding Let_def free
    using n by (simp add: prune_messages_def transaction_def ensure_batch_size_def
        default_prune_outcome_def i64_try_from_def in_i64_def order_trans [OF i64_min_neg(2)])
qed

theorem prune_messages_exact_witness:
  "fst (prune_messages \<lparr>pr_before_ms = 5000, pr_max_messages = 10\<rparr> (snd (ack_batch demo_worker [demo_receipt 1] demo_leased)))
    = Inr \<lparr>deleted_messages = 1\<rparr>"
proof -
  let ?fan = "snd (ack_batch demo_worker [demo_receipt 1] demo_leased)"
  let ?prune = "\<lparr>pr_before_ms = 5000, pr_max_messages = 10\<rparr>"
  let ?free = "\<lambda>m. mr_published_at m < pr_before_ms ?prune \<and> (\<forall>cid b. inboxes (lf_pool ?fan) cid = Some b \<longrightarrow>
    mr_id m \<notin> ib_owed b \<and> mr_id m \<notin> ib_archived b)"
  have inv: "fan_inv ?fan" using perform_inv [OF demo_inv(3), of "DoAck demo_worker [demo_receipt 1]"] by simp
  have n: "pr_max_messages ?prune \<le> lf_max_batch_size ?fan"
    "length (filter (prunable (lf_pool ?fan) 5000) (t_messages (lf_pool ?fan))) = 1" by code_simp+
  have "filter ?free (t_messages (lf_pool ?fan)) = filter (prunable (lf_pool ?fan) 5000) (t_messages (lf_pool ?fan))"
    by (rule filter_cong) (simp_all add: prunable_unreferenced [OF fan_invD(1) [OF inv]])
  with prune_messages_exact [OF inv n(1)] n(2) show ?thesis by (simp add: Let_def)
qed

text \<open>The least of a set of times, when there is one.\<close>

definition first_of :: "int option \<Rightarrow> int set \<Rightarrow> bool" where
  "first_of t ts \<longleftrightarrow> (case t of None \<Rightarrow> ts = {} | Some x \<Rightarrow> x \<in> ts \<and> (\<forall>y \<in> ts. x \<le> y))"

lemma first_of_min_opt: "first_of (min_opt xs) (set xs)"
  by (simp add: first_of_def min_opt_def)

text \<open>The messages of an inbox that a claim could hand out now: no running lease hides them.\<close>

definition ready_ids :: "int \<Rightarrow> database \<Rightarrow> consumer_row \<Rightarrow> int set" where
  "ready_ids now db c = {i \<in> owed db c.
     \<forall>d \<in> set (t_deliveries db). dr_key d = (cr_id c, i) \<longrightarrow> dr_visible_at d \<le> now}"

lemma deliveries_before_unscanned:
  assumes inv: "db_inv db" and c: "c \<in> set (t_consumers db)"
    and "d \<in> set (deliveries_of db (cr_id c))" "m \<in> set (unscanned db c)"
  shows "dr_message_id d < mr_id m"
  using deliveries_behind [OF inv _ c, of d] unscanned_bounds [OF assms(4)] assms(3)
  by (auto simp: deliveries_of_def)

lemma ready_ids_eq:
  assumes inv: "db_inv db" and c: "c \<in> set (t_consumers db)"
  shows "ready_ids now db c = dr_message_id ` set (filter (\<lambda>d. dr_visible_at d \<le> now) (deliveries_of db (cr_id c))) \<union>
    mr_id ` set (unscanned db c)" (is "_ = ?R")
proof (intro equalityI subsetI)
  fix i assume "i \<in> ready_ids now db c"
  then show "i \<in> ?R" by (auto simp: ready_ids_def owed_def deliveries_of_def dr_key_def)
next
  have keys: "d = e" if "d \<in> set (t_deliveries db)" "e \<in> set (t_deliveries db)" "dr_key d = dr_key e" for d e
    using db_invD(3) [OF inv] distinct_map_inj [of dr_key "t_deliveries db" d e] that
    by (simp add: deliveries_inv_def)
  fix i assume "i \<in> ?R"
  then consider d where "d \<in> set (deliveries_of db (cr_id c))" "dr_visible_at d \<le> now" "i = dr_message_id d"
    | m where "m \<in> set (unscanned db c)" "i = mr_id m" by auto
  then show "i \<in> ready_ids now db c"
  proof cases
    case 1
    then have "dr_visible_at e \<le> now" if "e \<in> set (t_deliveries db)" "dr_key e = (cr_id c, i)" for e
      using keys [OF that(1), of d] that(2) by (auto simp: deliveries_of_def dr_key_def)
    with 1 show ?thesis by (auto simp: ready_ids_def owed_def)
  next
    case 2
    then have "dr_key e \<noteq> (cr_id c, i)" if "e \<in> set (t_deliveries db)" for e
      using deliveries_before_unscanned [OF inv c, of e m] that by (auto simp: deliveries_of_def dr_key_def)
    with 2 show ?thesis by (auto simp: ready_ids_def owed_def)
  qed
qed

lemma ready_ids_card:
  assumes inv: "db_inv db" and c: "c \<in> set (t_consumers db)"
  shows "length (filter (\<lambda>d. dr_visible_at d \<le> now) (deliveries_of db (cr_id c))) + length (unscanned db c)
    = card (ready_ids now db c)"
proof -
  let ?due = "filter (\<lambda>d. dr_visible_at d \<le> now) (deliveries_of db (cr_id c))"
  have "distinct (map dr_message_id (deliveries_of db (cr_id c)))"
    using db_invD(3) [OF inv] by (auto simp: deliveries_inv_def deliveries_of_def distinct_map dr_key_def inj_on_def)
  then have "distinct (map dr_message_id ?due)" by (auto simp: distinct_map inj_on_def)
  moreover have "distinct (map mr_id (unscanned db c))"
    using unscanned_sorted [OF db_invD(1) [OF inv], of c] by (rule strict_sorted_distinct)
  moreover have "set (map dr_message_id ?due) \<inter> set (map mr_id (unscanned db c)) = {}"
    using deliveries_before_unscanned [OF inv c] by fastforce
  ultimately have "distinct (map dr_message_id ?due @ map mr_id (unscanned db c))" by simp
  from distinct_card [OF this] show ?thesis by (simp add: ready_ids_eq [OF inv c])
qed

text \<open>What a row of a snapshot says of its consumer, in terms of the inbox.\<close>

definition describes :: "int \<Rightarrow> database \<Rightarrow> consumer_row \<Rightarrow> consumer_snapshot \<Rightarrow> bool" where
  "describes now db c x \<longleftrightarrow>
     cs_name x = cr_name c \<and> as_database_value (cs_filter x) = cr_topic_filter c \<and>
     (cs_state x = Draining \<longleftrightarrow> cr_draining_at c \<noteq> None) \<and>
     cs_created_at_ms x = cr_created_at c \<and> cs_draining_at_ms x = cr_draining_at c \<and>
     cs_outstanding x = card (owed db c) \<and> cs_ready x = card (ready_ids now db c) \<and>
     first_of (cs_next_ready_at_ms x)
       {dr_visible_at d | d. d \<in> set (t_deliveries db) \<and> dr_consumer_id d = cr_id c \<and> now < dr_visible_at d} \<and>
     first_of (cs_oldest_outstanding_at_ms x)
       (mr_published_at ` {m \<in> set (t_messages db). mr_id m \<in> owed db c}) \<and>
     cs_archived x = length (archives_of db (cr_id c)) \<and>
     (snapshot_is_drained x \<longleftrightarrow> cr_draining_at c \<noteq> None \<and> owed db c = {})"

lemma snapshot_row_describes:
  assumes inv: "db_inv db" and c: "c \<in> set (t_consumers db)"
  shows "describes now db c (projr (snapshot_row db now c))"
proof -
  let ?mine = "deliveries_of db (cr_id c)"
  let ?held = "\<lambda>m. mr_id m \<in> dr_message_id ` set ?mine \<or> m \<in> set (unscanned db c)"
  have late: "set (map dr_visible_at (filter (\<lambda>d. now < dr_visible_at d) ?mine)) =
      {dr_visible_at d | d. d \<in> set (t_deliveries db) \<and> dr_consumer_id d = cr_id c \<and> now < dr_visible_at d}"
    by (auto simp: deliveries_of_def)
  have "m = m'" if "m \<in> set (t_messages db)" "m' \<in> set (unscanned db c)" "mr_id m = mr_id m'" for m m'
    using that db_invD(1) [OF inv] distinct_map_inj [of mr_id "t_messages db" m m']
    by (simp add: messages_inv_def strict_sorted_distinct unscanned_def)
  then have "{m \<in> set (t_messages db). ?held m} = {m \<in> set (t_messages db). mr_id m \<in> owed db c}"
    by (auto simp: owed_def)
  then have held: "set (map mr_published_at (filter ?held (t_messages db))) =
      mr_published_at ` {m \<in> set (t_messages db). mr_id m \<in> owed db c}"
    unfolding set_map set_filter by simp
  have fin: "finite (owed db c)" by (simp add: owed_def)
  show ?thesis
    using ready_ids_card [OF inv c, of now] outstanding_owed [OF inv c] fin
      first_of_min_opt [of "map dr_visible_at (filter (\<lambda>d. now < dr_visible_at d) ?mine)", unfolded late]
      first_of_min_opt [of "map mr_published_at (filter ?held (t_messages db))", unfolded held]
    unfolding describes_def
    by (simp add: snapshot_row_def Let_def outstanding_of_def snapshot_is_drained_def snapshot_is_empty_def split: option.split)
qed

text \<open>C33: snapshots agree with the inboxes.
  A store snapshot lists every consumer by name, with its filter, state and times as stored.
  Outstanding is the number of messages it is owed, ready the number of those that no lease or
  delay hides at the time of the snapshot, the next ready time the first at which such a
  delivery becomes visible, the oldest outstanding time the first publication among the owed messages. The
  totals are the sums over the consumers and the sizes of the log and of the ledger.\<close>

theorem snapshot_consistent:
  assumes inv: "fan_inv fan" and clk: "now_ms clk = Inr now" and run: "snapshot clk fan = Inr s"
  shows "map cs_name (ss_consumers s) = sort (map cr_name (t_consumers (lf_pool fan))) \<and>
    (\<forall>x \<in> set (ss_consumers s). \<exists>c \<in> set (t_consumers (lf_pool fan)). describes now (lf_pool fan) c x) \<and>
    ss_outstanding_deliveries s = sum_list (map cs_outstanding (ss_consumers s)) \<and>
    ss_archived_deliveries s = sum_list (map cs_archived (ss_consumers s)) \<and>
    ss_retained_messages s = length (t_messages (lf_pool fan)) \<and>
    ss_idempotency_keys s = length (t_idempotency (lf_pool fan))"
proof -
  let ?db = "lf_pool fan"
  note db = fan_invD(1) [OF inv]
  obtain xs where xs: "fetch_consumer_snapshots now None ?db = Inr xs"
    and s: "ss_consumers s = xs" "ss_retained_messages s = length (t_messages ?db)"
      "ss_idempotency_keys s = length (t_idempotency ?db)"
      "checked_total 0 (map cs_outstanding xs) = Inr (ss_outstanding_deliveries s)"
      "checked_total 0 (map cs_archived xs) = Inr (ss_archived_deliveries s)"
    using run clk by (auto simp: snapshot_def)
  have total: "checked_total acc ns = Inr t \<Longrightarrow> t = acc + sum_list ns" for acc ns t
    by (induction ns arbitrary: acc) (fastforce split: if_splits)+
  define f where "f = (\<lambda>c. projr (snapshot_row ?db now c))"
  have row: "snapshot_row ?db now c = Inr (f c)" for c
    by (simp add: f_def snapshot_row_def Let_def)
  have "map_result (snapshot_row ?db now) cs = Inr (map f cs)" for cs
    by (rule map_result_all_Inr) (rule row)
  with xs have xs': "xs = map f (sort_key cr_name (t_consumers ?db))"
    by (simp add: fetch_consumer_snapshots_def)
  have "cs_name (f c) = cr_name c" for c by (simp add: f_def snapshot_row_def Let_def)
  then have "map cs_name xs = sort (map cr_name (t_consumers ?db))"
    unfolding xs' by (simp add: comp_def sort_key_map [of "\<lambda>x. x" cr_name, symmetric])
  moreover have "\<exists>c \<in> set (t_consumers ?db). describes now ?db c x" if "x \<in> set xs" for x
    using that snapshot_row_describes [OF db] by (auto simp: xs' f_def)
  ultimately show ?thesis using s total [OF s(4)] total [OF s(5)] by simp
qed

text \<open>At the deadline of its leases the worker's two messages are ready again, one millisecond earlier none is.\<close>

theorem snapshot_consistent_witness:
  "map cs_ready (ss_consumers (projr (snapshot 31000000000 demo_leased))) = [2] \<and>
   map cs_ready (ss_consumers (projr (snapshot 30999000000 demo_leased))) = [0]"
proof -
  have ready: "map cs_ready (ss_consumers s) = [card (ready_ids now (lf_pool demo_leased) (demo_row\<lparr>cr_scan_cursor := 2\<rparr>))]"
    if "now_ms clk = Inr now" "snapshot clk demo_leased = Inr s" for clk now s
  proof -
    note s = snapshot_consistent [OF demo_inv(3) that, unfolded demo_rows]
    then obtain x where x: "ss_consumers s = [x]" by (auto simp: map_eq_Cons_conv)
    with s show ?thesis by (simp add: describes_def)
  qed
  have "card (ready_ids 31000 (lf_pool demo_leased) (demo_row\<lparr>cr_scan_cursor := 2\<rparr>)) = 2"
    "card (ready_ids 30999 (lf_pool demo_leased) (demo_row\<lparr>cr_scan_cursor := 2\<rparr>)) = 0"
    "now_ms 31000000000 = Inr 31000" "now_ms 30999000000 = Inr 30999"
    "snapshot 31000000000 demo_leased = Inr (projr (snapshot 31000000000 demo_leased))"
    "snapshot 30999000000 demo_leased = Inr (projr (snapshot 30999000000 demo_leased))"
    by code_simp+
  then show ?thesis using ready by simp
qed

text \<open>C34: the gates of opening.
  A store opens exactly when its configuration is valid, its file is not from a newer schema,
  the schema script runs through on the tables and indexes it finds, and the consumer and
  archive tables it finds have the columns of this layout; it then has the file's rows, carries the current version and every
  object of the schema, and opens again, with any valid configuration, as it is. A file that
  is refused keeps its rows, its version and every table and index. An invalid configuration or
  a newer file leaves it untouched, but a refusal for missing columns comes after the
  script: the tables and indexes that were missing have been created.\<close>

theorem open_gates:
  assumes result: "open_with_config config file = (r, file')"
  shows "let cat = fl_catalog file;
             tried = (validate_config config = Inr () \<and> fl_user_version file \<le> schema_version)
    in ((\<exists>fan. r = Inr fan) \<longleftrightarrow> tried \<and> script_fits cat \<and> probes_fit cat) \<and>
       (r = Inl IncompatibleSchema \<longleftrightarrow> tried \<and> script_fits cat \<and> \<not> probes_fit cat) \<and>
       (r = Inl (Sqlx SqlLogicError) \<longleftrightarrow> tried \<and> \<not> script_fits cat) \<and>
       (\<forall>fan. r = Inr fan \<longrightarrow> lf_pool fan = fl_database file \<and> fl_user_version file' = schema_version \<and>
          (\<forall>config'. validate_config config' = Inr () \<longrightarrow>
             (\<exists>fan'. open_with_config config' file' = (Inr fan', file') \<and> lf_pool fan' = lf_pool fan))) \<and>
       (\<forall>e. r = Inl e \<longrightarrow> fl_user_version file' = fl_user_version file) \<and>
       fl_database file' = fl_database file \<and> cat \<subseteq>\<^sub>m fl_catalog file' \<and>
       (\<not> tried \<longrightarrow> file' = file) \<and> (tried \<and> script_fits cat \<longrightarrow> fl_catalog file' = schema_objects ++ cat)"
proof -
  have invalid: "e \<noteq> IncompatibleSchema \<and> e \<noteq> Sqlx SqlLogicError" if "validate_config config = Inl e" for e
    using that by (auto simp: validate_config_def split: if_splits)
  have adds: "fl_catalog file \<subseteq>\<^sub>m snd (run_script schema_script (fl_catalog file))" by (rule run_script_adds)
  show ?thesis
  proof (cases "validate_config config")
    case (Inl e)
    then have "r = Inl e" "file' = file" using result by (simp_all add: open_with_config_eq)
    then show ?thesis using Inl invalid [OF Inl] by simp
  next
    case (Inr u)
    then show ?thesis
      using result adds unfolding Let_def
      by (auto simp: open_with_config_eq opened_store_def script_fits_again probes_fit_again split: if_splits)
  qed
qed

text \<open>The file of the test \<open>obsolete_unversioned_schemas_fail_at_open\<close>: refused, with new tables.\<close>

definition obsolete_file :: db_file where
  "obsolete_file = missing_file\<lparr>fl_catalog := [''litefan_consumers'' \<mapsto> TableObject [''id'', ''name'']]\<rparr>"

theorem open_gates_witness:
  "fst (open_with_config default_config obsolete_file) = Inl IncompatibleSchema \<and>
   fl_catalog obsolete_file ''litefan_messages'' = None \<and>
   fl_catalog (snd (open_with_config default_config obsolete_file)) ''litefan_messages'' \<noteq> None"
proof -
  let ?cat = "fl_catalog obsolete_file"
  have "script_fits ?cat" "\<not> probes_fit ?cat" "?cat ''litefan_messages'' = None" "schema_objects ''litefan_messages'' \<noteq> None"
    by (simp_all add: obsolete_file_def script_fits_def list_all_iff schema_script_def probes_fit_def probe_def schema_objects_def)
  moreover have "validate_config default_config = Inr ()" "fl_user_version obsolete_file \<le> schema_version"
    by (simp_all add: default_config_def validate_config_def as_millis_def duration_from_secs_def
        duration_from_millis_def i64_try_from_def in_i64_def i64_min_def i64_max_def obsolete_file_def missing_file_def schema_version_def)
  ultimately show ?thesis
    using open_gates [OF prod.collapse [symmetric, of "open_with_config default_config obsolete_file"]] unfolding Let_def
    by (simp add: map_add_def)
qed

end
