(* ===== verification/Waiting_Guarantees.thy ===== *)
theory Waiting_Guarantees
  imports Examples
begin

text \<open>
  What a waiting consumer can rely on: no wake-up is lost, a poll returns by its deadline and
  waits no longer than it should, with the one exception of a deadline missed by a hair, and
  what it returns are leases in force. Each property is followed by its use on the small store.
\<close>

text \<open>C6: no lost wake-up.
  A handle that a process holds looks at its signals and then waits. If, in any order with other
  operations of the process, a message it subscribes to is published or a delivery of its
  consumer is released, archived or redriven, or the consumer starts draining or is deleted,
  then one of its signals is ready when it waits, even when this happens before it waits and
  when other handles on the same signals are dropped in between.\<close>

theorem wakeup_never_lost:
  assumes inv: "process_inv (fan, handles)" and self: "self \<in> set handles" "DoDrop self \<notin> set (as @ a # bs)"
    and run: "run_ok process_ok process_step (fan, handles) (as @ a # bs)"
    and wake: "wakes self (fold process_step as (fan, handles)) a"
  shows "signalled self (fst (fold process_step (as @ a # bs) (fan, handles))) (update_both self fan receivers)"
proof -
  obtain fan1 hs1 where p1: "fold process_step as (fan, handles) = (fan1, hs1)" by fastforce
  obtain fan2 hs2 where p2: "process_step a (fan1, hs1) = (fan2, hs2)" by fastforce
  have run': "run_ok process_ok process_step (fan, handles) as" "process_ok (fan1, hs1) a"
    "run_ok process_ok process_step (fan2, hs2) bs"
    using run p1 p2 by (simp_all only: run_ok_append run_ok.simps)
  have inv1: "process_inv (fan1, hs1)" using process.run_inv [OF inv run'(1)] p1 by simp
  have inv2: "process_inv (fan2, hs2)" using process_step_inv [OF inv1 run'(2)] p2 by simp
  have self1: "self \<in> set hs1" using process_holds [OF inv run'(1) self(1)] self(2) p1 by simp
  have fan2: "fan2 = perform a fan1" using p2 by simp
  have sent: "sends (co_publish_signal self) (lf_signals fan1) < sends (co_publish_signal self) (lf_signals fan2) \<or>
      sends (co_consumer_signal self) (lf_signals fan1) < sends (co_consumer_signal self) (lf_signals fan2)"
    unfolding fan2 by (rule wakes_sends [OF inv1 run'(2) self1]) (use wake p1 in simp)
  have alloc: "co_publish_signal self < sh_next (sg_heap (lf_signals fan))" "co_consumer_signal self < sh_next (sg_heap (lf_signals fan))"
    using handle_allocated [of "lf_signals fan" self] inv self(1) fan_invD(2) by (auto simp: handles_ok_def)
  have "registered (lf_signals fan2) self"
    using inv2 process_holds [OF inv1, of "[a]" self] self1 run'(2) self(2) p2 by (auto simp: handles_ok_def)
  then have alloc2: "co_publish_signal self < sh_next (sg_heap (lf_signals fan2))" "co_consumer_signal self < sh_next (sg_heap (lf_signals fan2))"
    using handle_allocated [of "lf_signals fan2" self] inv2 fan_invD(2) by auto
  have before: "sends s (lf_signals fan) \<le> sends s (lf_signals fan1)" if "s < sh_next (sg_heap (lf_signals fan))" for s
    using process_sends [OF inv run'(1) that order_refl] p1 by simp
  have after: "sends s (lf_signals fan2) \<le> sends s (lf_signals (fst (fold process_step bs (fan2, hs2))))"
    if "s < sh_next (sg_heap (lf_signals fan2))" for s
    by (rule process_sends [OF inv2 run'(3) that order_refl])
  have last: "fst (fold process_step (as @ a # bs) (fan, handles)) = fst (fold process_step bs (fan2, hs2))"
    using p1 p2 by simp
  from sent show ?thesis
    unfolding last
    by (intro signalled_after) (use before after alloc alloc2 in \<open>force simp: watch_of_def sends_def\<close>)
qed

theorem wakeup_never_lost_witness:
  "signalled demo_worker (fst (fold process_step (demo_busy @ demo_news # demo_busy) (demo_ready, [demo_worker])))
    (update_both demo_worker demo_ready (subscribe_both demo_worker demo_ready))"
proof (rule wakeup_never_lost [OF demo_process])
  show "demo_worker \<in> set [demo_worker]" by simp
  show "DoDrop demo_worker \<notin> set (demo_busy @ demo_news # demo_busy)" by (simp add: demo_busy_def demo_news_def)
  show "run_ok process_ok process_step (demo_ready, [demo_worker]) (demo_busy @ demo_news # demo_busy)"
    unfolding demo_busy_def demo_news_def by (simp del: perform.simps)
  show "wakes demo_worker (fold process_step demo_busy (demo_ready, [demo_worker])) demo_news" by code_simp
qed


text \<open>C18: a poll returns by its deadline.
  Whatever the clocks say and other tasks do, a poll has returned by the first turn of its loop
  that starts at or after the deadline.\<close>

theorem poll_returns_by_deadline:
  assumes "\<exists>t \<in> set ticks. start + po_wait opts \<le> tk_instant t"
  shows "\<exists>result fan'. poll E horizon start ticks self opts fan = (Some result, fan')"
proof (cases "po_max_messages opts = 0")
  case True
  then show ?thesis by (simp add: poll_def)
next
  case False
  show ?thesis
  proof (cases "poll_setup horizon start opts fan")
    case (Inl e)
    with False show ?thesis by (simp add: poll_def)
  next
    case (Inr p)
    then have "snd p = start + po_wait opts" by (auto simp: poll_setup_def split: if_splits)
    with False Inr poll_loop_deadline [of ticks "start + po_wait opts"] assms show ?thesis
      by (cases p) (simp add: poll_def)
  qed
qed

theorem poll_returns_by_deadline_witness:
  "\<exists>result fan'. poll reversing_engine (10 ^ 30) 7 [demo_tick 1000 7 1000, demo_tick 1250 6000000000 1250]
     demo_worker demo_poll demo_leased = (Some result, fan')"
  by (rule poll_returns_by_deadline) (simp add: demo_tick_def demo_poll_def duration_from_secs_def)


text \<open>A poll never waits too long.
  Between two turns a poll waits no longer than what is left of its time, nor than the
  cross-process poll interval, and, when the next visible time lies ahead, no longer than until
  then.\<close>

theorem poll_wait_bounded:
  assumes turn: "poll_turn E self n lease_ms deadline t receivers fan = (Inr (d, receivers'), fan')"
    and claim: "claim E (tk_others1 t) (tk_others2 t) (tk_clock t) self n lease_ms fan = (Inr r, fan')"
  shows "d \<le> deadline - tk_instant t \<and> d \<le> lf_cross_process_poll_interval fan \<and>
    (\<forall>v now. cl_next_visible_at r = Some v \<longrightarrow> now_ms (tk_until_clock t) = Inr now \<longrightarrow> now \<le> v \<longrightarrow> v \<le> i64_max \<longrightarrow>
       d \<le> nat (v - now) * 1000000)"
proof -
  have "d \<le> nat (v - now) * 1000000"
    if "cl_next_visible_at r = Some v" "now_ms (tk_until_clock t) = Inr now" "now \<le> v" "v \<le> i64_max" for v now
    using turn claim that duration_until_ms_future [OF that(2,3,4)]
    by (auto simp: poll_turn_def Let_def duration_from_millis_def split: if_splits)
  with poll_turn_wait(1,2) [OF turn] show ?thesis by blast
qed

theorem poll_wait_bounded_witness:
  "fst (projr (fst (demo_turn (demo_tick 30990 7 30995)))) \<le> 5000000"
proof -
  let ?t = "demo_tick 30990 7 30995"
  have c: "fst (claim reversing_engine (tk_others1 ?t) (tk_others2 ?t) (tk_clock ?t) demo_worker 10 30000 demo_leased)
      = Inr demo_nothing" by code_simp
  have p: "fst (demo_turn ?t) = Inr (5000000, (1, 0))" by code_simp
  note w = demo_waits [OF c p]
  have "now_ms (tk_until_clock ?t) = Inr 30995" by code_simp
  with poll_wait_bounded [OF w] p show ?thesis by (simp add: demo_nothing_def i64_max_def)
qed


text \<open>C39: a missed deadline is slept through.
  When the next visible time has passed by the time the poll reads the clock again, the remaining
  time is reinterpreted as an enormous unsigned number, and the poll waits for the whole poll
  interval although a delivery is due.\<close>

theorem poll_oversleeps:
  assumes turn: "poll_turn E self n lease_ms deadline t receivers fan = (Inr (d, receivers'), fan')"
    and claim: "claim E (tk_others1 t) (tk_others2 t) (tk_clock t) self n lease_ms fan = (Inr r, fan')"
    and late: "cl_next_visible_at r = Some v" "0 \<le> v" "now_ms (tk_until_clock t) = Inr now" "v < now"
    and interval: "lf_cross_process_poll_interval fan \<le> 2 ^ 63 * 1000000"
  shows "d = min (deadline - tk_instant t) (lf_cross_process_poll_interval fan)"
proof -
  have "now \<le> i64_max" using now_ms_bounds [OF late(3)] by simp
  then have "2 ^ 63 \<le> nat (2 ^ 64 - (now - v))" using late(2) by (simp add: i64_max_def le_nat_iff)
  then have "lf_cross_process_poll_interval fan \<le> nat (2 ^ 64 - (now - v)) * 1000000"
    using interval by (meson mult_le_mono1 order_trans)
  then show ?thesis
    using turn claim late(1) duration_until_ms_past [OF late(3,4,2)]
    by (auto simp: poll_turn_def Let_def duration_from_millis_def min_def split: if_splits)
qed

theorem poll_oversleeps_witness:
  "fst (projr (fst (demo_turn (demo_tick 30999 7 31001)))) = 250000000"
proof -
  let ?t = "demo_tick 30999 7 31001"
  have c: "fst (claim reversing_engine (tk_others1 ?t) (tk_others2 ?t) (tk_clock ?t) demo_worker 10 30000 demo_leased)
      = Inr demo_nothing" by code_simp
  have p: "fst (demo_turn ?t) = Inr (250000000, (1, 0))" by code_simp
  note w = demo_waits [OF c p]
  have now: "now_ms (tk_until_clock ?t) = Inr 31001" by code_simp
  have "250000000 = min (5000000007 - tk_instant ?t) (lf_cross_process_poll_interval demo_leased)"
    by (rule poll_oversleeps [where v = 31000, OF w _ _ now]) (simp_all add: demo_nothing_def demo_interval)
  then show ?thesis using p by simp
qed

text \<open>C16: a poll hands out leases.
  The deliveries a poll returns are at most as many as asked for, in message order, for its own consumer.
  However many turns it took and whatever other processes committed before, between and
  after its statements, they are what the lease transaction of one turn committed: each with its stored
  message and a receipt that is current then, hidden from every claim for the whole
  visibility timeout. Only what others commit after that transaction can come in between, so
  the receipts are current in the store the poll leaves when there is nothing.\<close>

theorem poll_hands_out_leases:
  assumes E: "engine_ok E" and inv: "fan_inv fan"
    and ticks: "\<forall>t \<in> set ticks. (\<forall>db. db_inv db \<longrightarrow> db_inv (tk_others1 t db) \<and> db_inv (tk_others2 t db)) \<and>
      (\<forall>fan. fan_inv fan \<longrightarrow> fan_inv (tk_meanwhile t fan) \<and>
         lf_max_batch_size (tk_meanwhile t fan) = lf_max_batch_size fan)"
    and run: "poll E horizon start ticks self opts fan = (Some (Inr ds), fan')"
  shows "length ds \<le> po_max_messages opts \<and>
    sorted_wrt (<) (map (\<lambda>d. message_id_get (msg_id (dv_message d))) ds) \<and>
    (\<forall>d \<in> set ds. rc_consumer_id (dv_receipt d) = co_id self) \<and>
    (ds \<noteq> [] \<longrightarrow> (\<exists>t \<in> set ticks. \<exists>lease_ms. duration_ms (po_visibility_timeout opts) = Inr lease_ms \<and>
       leased_in_turn t lease_ms ds (lf_pool fan') \<and>
       (tk_others2 t = (\<lambda>db. db) \<longrightarrow> (\<forall>d \<in> set ds. current (dv_receipt d) (lf_pool fan')))))"
proof (cases "po_max_messages opts = 0")
  case True
  with run show ?thesis by (simp add: poll_def)
next
  case False
  with run obtain lease_ms deadline where ready: "poll_setup horizon start opts fan = Inr (lease_ms, deadline)"
    and loop: "poll_loop E self (po_max_messages opts) lease_ms deadline ticks (subscribe_both self fan) fan
      = (Some (Inr ds), fan')"
    by (auto simp: poll_def split: sum.splits)
  from ready have "po_max_messages opts \<le> lf_max_batch_size fan" "duration_ms (po_visibility_timeout opts) = Inr lease_ms"
    by (auto simp: poll_setup_def split: if_splits)
  moreover have "leased_in_turn t lease_ms ds final \<Longrightarrow> tk_others2 t = (\<lambda>db. db) \<Longrightarrow>
      \<forall>d \<in> set ds. current (dv_receipt d) final" for t final
    by (auto simp: leased_in_turn_def)
  ultimately show ?thesis using poll_loop_delivers [OF E inv _ ticks loop] by blast
qed

text \<open>Between the lease transaction and the return, another process acknowledges message 1.\<close>

theorem poll_hands_out_leases_witness:
  "\<exists>db. lf_pool (snd (poll reversing_engine (10 ^ 30) 7 [(demo_tick 1000 7 1000)\<lparr>tk_others2 := acked_db 1 [demo_receipt 1]\<rparr>]
      demo_worker demo_poll demo_ready)) = acked_db 1 [demo_receipt 1] db \<and> leased 1 1 1 31000 db"
proof -
  let ?tick = "(demo_tick 1000 7 1000)\<lparr>tk_others2 := acked_db 1 [demo_receipt 1]\<rparr>"
  let ?poll = "poll reversing_engine (10 ^ 30) 7 [?tick] demo_worker demo_poll demo_ready"
  let ?ds = "projr (the (fst ?poll))"
  have "fst ?poll = Some (Inr ?ds)" by code_simp
  then have run: "?poll = (Some (Inr ?ds), snd ?poll)" by (rule known_result)
  have ticks: "\<forall>t \<in> set [?tick]. (\<forall>db. db_inv db \<longrightarrow> db_inv (tk_others1 t db) \<and> db_inv (tk_others2 t db)) \<and>
      (\<forall>fan. fan_inv fan \<longrightarrow> fan_inv (tk_meanwhile t fan) \<and>
         lf_max_batch_size (tk_meanwhile t fan) = lf_max_batch_size fan)"
    by (simp add: demo_tick_def acked_db_inv)
  have first: "?ds \<noteq> []" "receipt_key (dv_receipt (hd ?ds)) = (1, 1, 1)" "now_ms (tk_clock ?tick) = Inr 1000"
    "duration_ms (po_visibility_timeout demo_poll) = Inr 30000" by code_simp+
  from poll_hands_out_leases [OF reversing_engine_ok demo_inv(2) ticks run] first(1,4)
  have "leased_in_turn ?tick 30000 ?ds (lf_pool (snd ?poll))" by auto
  then obtain db where db: "lf_pool (snd ?poll) = acked_db 1 [demo_receipt 1] db"
      "leased (rc_consumer_id (dv_receipt (hd ?ds))) (rc_message_id (dv_receipt (hd ?ds)))
         (rc_generation (dv_receipt (hd ?ds))) (1000 + 30000) db"
    using first(3) hd_in_set [OF first(1)] by (auto simp: leased_in_turn_def)
  with first(2) show ?thesis by (auto simp: receipt_key_def)
qed

end
