(* ===== verification/Worker.thy ===== *)
theory Worker
  imports Waiting
begin

text \<open>
  A worker as the programs of \<open>examples/\<close> write it: \<open>drain_exact\<close> of \<open>heavy_benchmark.rs\<close> polls and
  acknowledges until it has counted as many messages as it expects. A round of the loop comes with
  the instant its poll starts at and the wake-ups of that poll; the assertions and \<open>unwrap\<close>s are
  the value \<open>Panicked\<close>, and \<open>Unfinished\<close> is a worker that still runs when the rounds end.
\<close>

datatype drain_result = Drained nat | Unfinished | Panicked

type_synonym round = "nat \<times> tick list"

definition drain_poll :: "nat \<Rightarrow> poll_opts" where
  "drain_poll batch_size =
     \<lparr>po_max_messages = batch_size, po_visibility_timeout = duration_from_secs 60,
      po_wait = duration_from_secs 2\<rparr>"

text \<open>What one round does: it polls, expects to have something, and acknowledges all of it.\<close>

fun fetch_and_ack :: "engine \<Rightarrow> nat \<Rightarrow> round \<Rightarrow> consumer \<Rightarrow> poll_opts \<Rightarrow> litefan
    \<Rightarrow> (drain_result + nat \<times> batch_result) \<times> litefan" where
  "fetch_and_ack E horizon (start, ticks) self opts fan =
     (case poll E horizon start ticks self opts fan of
        (None, fan1) \<Rightarrow> (Inl Unfinished, fan1)
      | (Some (Inl e), fan1) \<Rightarrow> (Inl Panicked, fan1)
      | (Some (Inr deliveries), fan1) \<Rightarrow>
          if deliveries = [] then (Inl Panicked, fan1)
          else (case ack_batch self (map dv_receipt deliveries) fan1 of
                  (Inl e, fan2) \<Rightarrow> (Inl Panicked, fan2)
                | (Inr result, fan2) \<Rightarrow> (Inr (length deliveries, result), fan2)))"

fun drain_exact :: "engine \<Rightarrow> nat \<Rightarrow> round list \<Rightarrow> consumer \<Rightarrow> nat \<Rightarrow> nat \<Rightarrow> nat \<Rightarrow> litefan
    \<Rightarrow> drain_result \<times> litefan" where
  "drain_exact E horizon rounds self expected batch_size drained fan =
     (if drained < expected then
        (case rounds of
           [] \<Rightarrow> (Unfinished, fan)
         | r # rounds' \<Rightarrow>
             (case fetch_and_ack E horizon r self (drain_poll batch_size) fan of
                (Inl stopped, fan1) \<Rightarrow> (stopped, fan1)
              | (Inr (n, result), fan1) \<Rightarrow>
                  if br_applied result \<noteq> n then (Panicked, fan1)
                  else drain_exact E horizon rounds' self expected batch_size
                         (drained + br_applied result) fan1))
      else (Drained drained, fan))"

declare drain_exact.simps [simp del]

text \<open>
  \<open>drain\<close> of \<open>benchmark.rs\<close> does not wait, and counts what it was handed instead of what was applied.
\<close>

definition drain_now :: "nat \<Rightarrow> poll_opts" where
  "drain_now batch_size =
     \<lparr>po_max_messages = batch_size, po_visibility_timeout = duration_from_secs 60, po_wait = 0\<rparr>"

fun drain :: "engine \<Rightarrow> nat \<Rightarrow> round list \<Rightarrow> consumer \<Rightarrow> nat \<Rightarrow> nat \<Rightarrow> nat \<Rightarrow> litefan
    \<Rightarrow> drain_result \<times> litefan" where
  "drain E horizon rounds self message_count batch_size drained fan =
     (if drained < message_count then
        (case rounds of
           [] \<Rightarrow> (Unfinished, fan)
         | r # rounds' \<Rightarrow>
             (case fetch_and_ack E horizon r self (drain_now batch_size) fan of
                (Inl stopped, fan1) \<Rightarrow> (stopped, fan1)
              | (Inr (n, result), fan1) \<Rightarrow>
                  drain E horizon rounds' self message_count batch_size (drained + n) fan1))
      else (Drained drained, fan))"

declare drain.simps [simp del]

subsection \<open>One round\<close>

text \<open>What a consumer has to do: the messages it is owed, all due by a time, with room to count.\<close>

definition workload :: "int \<Rightarrow> int \<Rightarrow> database \<Rightarrow> int set \<Rightarrow> bool" where
  "workload cid due db S \<longleftrightarrow> (\<exists>c \<in> set (t_consumers db). cr_id c = cid \<and> owed db c = S) \<and>
     (\<forall>d \<in> set (deliveries_of db cid). dr_visible_at d \<le> due \<and>
        dr_generation d \<noteq> i64_max \<and> dr_delivery_count d \<noteq> i64_max)"

lemma claimed_row_cases:
  assumes inv: "db_inv db" and d: "d \<in> set (t_deliveries (claimed_db c now v n db))"
  shows "d \<in> set (t_deliveries db) \<or>
    (\<exists>l \<in> set (claimed_leases c now v n db). lease_key d = (cr_id c, ls_message_id l, ls_generation l))"
proof -
  from d consider d0 where "d0 \<in> set (t_deliveries db)" "\<not> picked db (cr_id c) now n d0" "d = d0"
    | d0 where "d0 \<in> set (t_deliveries db)" "picked db (cr_id c) now n d0" "d = renewed_row v d0"
    | i where "i \<in> set (fresh_ids db c (claim_fresh db c now n))" "d = fresh_row (cr_id c) v i"
    by (auto split: if_splits)
  then show ?thesis
  proof cases
    case 1
    then show ?thesis by simp
  next
    case 2
    then obtain x where x: "x \<in> set (ready_rows db (cr_id c) now n)" "dr_key x = dr_key d0"
      by (auto simp: picked_def)
    have x': "x \<in> set (t_deliveries db)" "dr_consumer_id x = cr_id c"
      using ready_rows_props(1) [OF db_invD(3) [OF inv], of "cr_id c" now n] x(1) by auto
    have "x = d0"
      using db_invD(3) [OF inv] x(2) x'(1) 2(1) distinct_map_inj [of dr_key "t_deliveries db" x d0]
      by (simp add: deliveries_inv_def)
    then have "lease_of_row (renewed_row v d0) \<in> set (claimed_leases c now v n db)"
      using x(1) by (auto simp: claimed_leases_def)
    moreover have "lease_key d = (cr_id c, ls_message_id (lease_of_row (renewed_row v d0)), ls_generation (lease_of_row (renewed_row v d0)))"
      using 2(3) x'(2) \<open>x = d0\<close> by (simp add: lease_key_def lease_of_row_def renewed_row_def)
    ultimately show ?thesis by blast
  next
    case 3
    then have "fresh_lease i \<in> set (claimed_leases c now v n db)" by (simp add: claimed_leases_def)
    moreover have "lease_key d = (cr_id c, ls_message_id (fresh_lease i), ls_generation (fresh_lease i))"
      using 3(2) by (simp add: lease_key_def fresh_row_def fresh_lease_def)
    ultimately show ?thesis by blast
  qed
qed

lemma workload_room:
  assumes "deliveries_inv db" and "workload cid due db S"
  shows "attempt_room db cid now n"
  using assms ready_rows_props(1) [OF assms(1), of cid now n]
  by (fastforce simp: attempt_room_def workload_def deliveries_of_def)

lemma workload_outstanding:
  assumes inv: "db_inv db" and w: "workload cid due db S" and c: "c \<in> set (t_consumers db)" "cr_id c = cid"
    and now: "due \<le> now"
  shows "length (claimed_leases c now v n db) = min n (card S)"
proof -
  have "\<forall>d \<in> set (deliveries_of db cid). dr_visible_at d \<le> now"
    using w now by (force simp: workload_def)
  then have "filter (\<lambda>d. dr_visible_at d \<le> now) (deliveries_of db (cr_id c)) = deliveries_of db (cr_id c)"
    using c(2) by (simp add: filter_id_conv)
  moreover have "owed db c = S"
    using w c consumer_unique [OF db_invD(2) [OF inv]] by (fastforce simp: workload_def)
  ultimately show ?thesis
    using length_claimed_leases [OF db_invD(3) [OF inv], of c now v n] outstanding_owed [OF inv c(1)]
    by (simp add: outstanding_of_def)
qed

text \<open>
  What the other tasks of a program do to a database, seen from one consumer: its deliveries and
  its inbox stay as they are.
\<close>

definition keeps :: "int \<Rightarrow> (database \<Rightarrow> database) \<Rightarrow> bool" where
  "keeps cid others \<longleftrightarrow> (\<forall>db. db_inv db \<longrightarrow> db_inv (others db) \<and>
     deliveries_of (others db) cid = deliveries_of db cid \<and> inboxes (others db) cid = inboxes db cid)"

lemma keeps_id [simp]: "keeps cid (\<lambda>db. db)"
  by (simp add: keeps_def)

lemma keeps_comp: "keeps cid f \<Longrightarrow> keeps cid g \<Longrightarrow> keeps cid (\<lambda>db. f (g db))"
  by (simp add: keeps_def)

lemma workload_inbox:
  assumes "db_inv db"
  shows "workload cid due db S \<longleftrightarrow> (\<exists>b. inboxes db cid = Some b \<and> ib_owed b = S) \<and>
    (\<forall>d \<in> set (deliveries_of db cid). dr_visible_at d \<le> due \<and>
        dr_generation d \<noteq> i64_max \<and> dr_delivery_count d \<noteq> i64_max)"
proof -
  have "(\<exists>c \<in> set (t_consumers db). cr_id c = cid \<and> owed db c = S) \<longleftrightarrow> (\<exists>b. inboxes db cid = Some b \<and> ib_owed b = S)"
    using inboxes_Some [OF db_invD(2) [OF assms], of cid] by (auto simp: inbox_of_def)
  then show ?thesis by (simp add: workload_def)
qed

lemma keeps_workload:
  assumes "keeps cid others" and "db_inv db" and "workload cid due db S"
  shows "workload cid due (others db) S" and "db_inv (others db)"
  using assms by (simp_all add: keeps_def workload_inbox)

text \<open>A claim that finds work returns it.\<close>

lemma claim_works:
  assumes E: "engine_ok E" and inv: "fan_inv fan" and n: "0 < n" "n \<le> lf_max_batch_size fan"
    and w: "workload (co_id self) due (lf_pool fan) S" "S \<noteq> {}" and others: "keeps (co_id self) others1"
    and now: "now_ms clk = Inr now" "due \<le> now" "in_i64 (now + lease_ms)"
  obtains c r where "c \<in> set (t_consumers (others1 (lf_pool fan)))" "cr_id c = co_id self"
    "claim E others1 others2 clk self n lease_ms fan
      = (Inr r, fan\<lparr>lf_pool := others2 (claimed_db c now (now + lease_ms) n (others1 (lf_pool fan)))\<rparr>)"
    "cl_deliveries r = claimed_deliveries self c now (now + lease_ms) n (others1 (lf_pool fan))"
    "length (cl_deliveries r) = min n (card S)" "cl_deliveries r \<noteq> []"
proof -
  let ?db = "others1 (lf_pool fan)"
  note db0 = fan_invD(1) [OF inv]
  note w1 = keeps_workload(1) [OF others db0 w(1)] and db = keeps_workload(2) [OF others db0 w(1)]
  obtain c where c: "c \<in> set (t_consumers ?db)" "cr_id c = co_id self" "owed ?db c = S"
    using w1 by (auto simp: workload_def)
  obtain c0 where c0: "c0 \<in> set (t_consumers (lf_pool fan))" "cr_id c0 = co_id self" "owed (lf_pool fan) c0 = S"
    using w(1) by (auto simp: workload_def)
  have fin: "finite S" using c(3) by (auto simp: owed_def)
  have n': "int n \<le> i64_max" using n fan_invD(4) [OF inv] by linarith
  note len = workload_outstanding [OF db w1 c(1,2) now(2), of "now + lease_ms" n]
  have "0 < card S" using fin w(2) by (simp add: card_gt_0_iff)
  then have ne: "claimed_leases c now (now + lease_ms) n ?db \<noteq> []" using len n(1) by auto
  have "length (claimed_deliveries self c now (now + lease_ms) n ?db) = length (claimed_leases c now (now + lease_ms) n ?db)"
    using claimed_deliveries_ids [OF db c(1), of self now "now + lease_ms" n] by (metis length_map)
  note len' = trans [OF this len]
  obtain r fan' where run: "claim E others1 others2 clk self n lease_ms fan = (r, fan')" by fastforce
  note txn = claim_txn_eq [where v = "now + lease_ms", OF E db c(1,2) n' workload_room [OF db_invD(3) [OF db] w1, of now n]]
  from run have "r = Inr \<lparr>cl_deliveries = claimed_deliveries self c now (now + lease_ms) n ?db, cl_next_visible_at = None,
      cl_draining = (cr_draining_at c \<noteq> None)\<rparr> \<and> fan' = fan\<lparr>lf_pool := others2 (claimed_db c now (now + lease_ms) n ?db)\<rparr>"
  proof (cases rule: claim_cases)
    case (idle now' state)
    then have [simp]: "now' = now" using now(1) by simp
    obtain c' where c': "c' \<in> set (t_consumers (lf_pool fan))" "cr_id c' = co_id self"
      "\<forall>d \<in> set (deliveries_of (lf_pool fan) (co_id self)). now' < dr_visible_at d" "unscanned (lf_pool fan) c' = []"
      by (rule claim_idle [OF db0 idle(2-4)])
    have "c' = c0" using consumer_unique [OF db_invD(2) [OF db0] c0(1) c'(1)] c0(2) c'(2) by simp
    moreover have vis: "\<forall>d \<in> set (deliveries_of (lf_pool fan) (co_id self)). dr_visible_at d \<le> now"
      using w(1) now(2) by (force simp: workload_def)
    have "deliveries_of (lf_pool fan) (co_id self) = []"
      using c'(3) vis by (cases "deliveries_of (lf_pool fan) (co_id self)") auto
    ultimately have "owed (lf_pool fan) c0 = {}" using c0(2) c'(4) by (simp add: owed_def)
    with c0(3) w(2) show ?thesis by simp
  next
    case gone
    with c0 show ?thesis by (auto simp: find_consumer_None image_iff)
  next
    case (committed now' claimed db')
    then show ?thesis
      using now(1) txn claim_finish_eq [OF db c(1), of self now "now + lease_ms" n] ne by (auto split: if_splits)
  qed (use now txn in simp_all)
  with run len' \<open>0 < card S\<close> n(1) show thesis
    by (intro that [OF c(1,2)]) auto
qed

text \<open>A poll that finds work returns it in its first turn.\<close>

lemma poll_works:
  assumes E: "engine_ok E" and inv: "fan_inv fan"
    and n: "0 < po_max_messages opts" "po_max_messages opts \<le> lf_max_batch_size fan"
    and w: "workload (co_id self) due (lf_pool fan) S" "S \<noteq> {}" and others: "keeps (co_id self) (tk_others1 t)"
    and lease: "duration_ms (po_visibility_timeout opts) = Inr lease_ms" "lease_ms \<noteq> 0" and wait: "start + po_wait opts \<le> horizon"
    and now: "now_ms (tk_clock t) = Inr now" "due \<le> now" "in_i64 (now + lease_ms)"
  obtains c ds where "c \<in> set (t_consumers (tk_others1 t (lf_pool fan)))" "cr_id c = co_id self"
    "poll E horizon start (t # ts) self opts fan = (Some (Inr ds), fan\<lparr>lf_pool :=
       tk_others2 t (claimed_db c now (now + lease_ms) (po_max_messages opts) (tk_others1 t (lf_pool fan)))\<rparr>)"
    "ds = claimed_deliveries self c now (now + lease_ms) (po_max_messages opts) (tk_others1 t (lf_pool fan))"
    "length ds = min (po_max_messages opts) (card S)" "ds \<noteq> []"
proof -
  obtain c r where c: "c \<in> set (t_consumers (tk_others1 t (lf_pool fan)))" "cr_id c = co_id self"
    and cl: "claim E (tk_others1 t) (tk_others2 t) (tk_clock t) self (po_max_messages opts) lease_ms fan = (Inr r, fan\<lparr>lf_pool :=
       tk_others2 t (claimed_db c now (now + lease_ms) (po_max_messages opts) (tk_others1 t (lf_pool fan)))\<rparr>)"
    and r: "cl_deliveries r = claimed_deliveries self c now (now + lease_ms) (po_max_messages opts) (tk_others1 t (lf_pool fan))"
      "length (cl_deliveries r) = min (po_max_messages opts) (card S)" "cl_deliveries r \<noteq> []"
    by (rule claim_works [OF E inv n w others now])
  have "poll_setup horizon start opts fan = Inr (lease_ms, start + po_wait opts)"
    using n(2) lease wait by (simp add: poll_setup_def ensure_batch_size_def)
  then have "poll E horizon start (t # ts) self opts fan = (Some (Inr (cl_deliveries r)), fan\<lparr>lf_pool :=
       tk_others2 t (claimed_db c now (now + lease_ms) (po_max_messages opts) (tk_others1 t (lf_pool fan)))\<rparr>)"
    using n(1) cl r(3) by (simp add: poll_def poll_turn_def Let_def)
  from that [OF c this r] show thesis .
qed

text \<open>The receipts of the deliveries of a claim are those of its leases, once each.\<close>

lemma claimed_receipts:
  assumes inv: "db_inv db" and c: "c \<in> set (t_consumers db)"
  shows "map receipt_key (map dv_receipt (claimed_deliveries self c now v n db))
    = map (\<lambda>l. (co_id self, ls_message_id l, ls_generation l)) (claimed_leases c now v n db)"
proof -
  let ?ls = "claimed_leases c now v n db" and ?ms = "messages_named db (map ls_message_id (claimed_leases c now v n db))"
  have "length ?ls = length ?ms" using claimed_messages [OF inv c, of now v n] by (metis length_map)
  moreover have "map receipt_key (map dv_receipt (map2 (delivery_record self) ls ms))
      = map (\<lambda>l. (co_id self, ls_message_id l, ls_generation l)) ls" if "length ls = length ms" for ls ms
    using that by (induction ls ms rule: list_induct2) (simp_all add: delivery_record_def receipt_key_def)
  ultimately show ?thesis by (simp add: claimed_deliveries_def Let_def)
qed

lemma claimed_held:
  assumes inv: "db_inv db" and c: "c \<in> set (t_consumers db)" "cr_id c = co_id self"
    and same: "deliveries_of db2 (co_id self) = deliveries_of (claimed_db c now v n db) (co_id self)"
    and rs: "rs = map dv_receipt (claimed_deliveries self c now v n db)"
  shows "card (held_leases (co_id self) rs db2) = length rs" and "card (held_ids (co_id self) rs db2) = length rs"
    and "held_ids (co_id self) rs db2 \<subseteq> dr_message_id ` set (deliveries_of db2 (co_id self))"
proof -
  let ?ls = "claimed_leases c now v n db" and ?key = "\<lambda>l. (co_id self, ls_message_id l, ls_generation l)"
  have keys: "receipt_key ` set rs = ?key ` set ?ls"
    using claimed_receipts [OF inv c(1), of self now v n] by (metis (no_types, lifting) rs list.set_map)
  have len: "length rs = length ?ls"
    using claimed_receipts [OF inv c(1), of self now v n] by (metis rs length_map)
  have ids: "distinct (map ls_message_id ?ls)"
    using claimed_leases_sorted [OF inv c(1), of now v n] by (simp add: strict_sorted_iff)
  then have key_distinct: "distinct (map ?key ?ls)" by (auto simp: distinct_map inj_on_def)
  have rows: "?key ` set ?ls \<subseteq> lease_key ` set (deliveries_of db2 (co_id self))"
  proof safe
    fix l assume "l \<in> set ?ls"
    then obtain d where d: "d \<in> set (t_deliveries (claimed_db c now v n db))" "lease_key d = ?key l"
      using leasedE [OF claimed_leased [OF inv c(1), of l now v n]] c(2) by metis
    then have "d \<in> set (deliveries_of db2 (co_id self))"
      unfolding same by (simp only: deliveries_of_def set_filter mem_Collect_eq) (simp add: lease_key_def)
    with d(2) show "?key l \<in> lease_key ` set (deliveries_of db2 (co_id self))" by (metis imageI)
  qed
  have "held_leases (co_id self) rs db2 = ?key ` set ?ls" unfolding held_leases_def keys using rows by blast
  then show "card (held_leases (co_id self) rs db2) = length rs"
    using distinct_card [OF key_distinct] len by (simp only: list.set_map length_map)
  have "held_ids (co_id self) rs db2 = ls_message_id ` set ?ls"
  proof
    have "dr_message_id d \<in> ls_message_id ` set ?ls" if "lease_key d \<in> ?key ` set ?ls" for d
      using that by (force simp: lease_key_def)
    then show "held_ids (co_id self) rs db2 \<subseteq> ls_message_id ` set ?ls"
      unfolding held_ids_def receipt_clause_iff keys [symmetric] by fastforce
    show "ls_message_id ` set ?ls \<subseteq> held_ids (co_id self) rs db2"
    proof safe
      fix l assume "l \<in> set ?ls"
      then obtain d where d: "d \<in> set (deliveries_of db2 (co_id self))" "lease_key d = ?key l" using rows by force
      have "?key l \<in> receipt_key ` set rs" unfolding keys using \<open>l \<in> set ?ls\<close> by blast
      then show "ls_message_id l \<in> held_ids (co_id self) rs db2"
        using d unfolding held_ids_def
        by (intro image_eqI [of _ _ d]) (simp_all add: receipt_clause_iff deliveries_of_def lease_key_def image_iff)
    qed
  qed
  then show "card (held_ids (co_id self) rs db2) = length rs"
    using distinct_card [OF ids] len by (simp only: list.set_map length_map)
  show "held_ids (co_id self) rs db2 \<subseteq> dr_message_id ` set (deliveries_of db2 (co_id self))"
    by (auto simp: held_ids_def receipt_clause_def deliveries_of_def)
qed

text \<open>
  Acknowledging everything a claim returned settles exactly that and leaves the rest due. Between
  the two the inbox may have grown.
\<close>

lemma ack_after_claim:
  assumes inv: "fan_inv fan" and db: "db_inv db" and w: "workload (co_id self) due db S"
    and c: "c \<in> set (t_consumers db)" "cr_id c = co_id self"
    and same: "deliveries_of (lf_pool fan) (co_id self) = deliveries_of (claimed_db c now v n db) (co_id self)"
    and b: "inboxes (lf_pool fan) (co_id self) = Some b"
    and ds: "ds = claimed_deliveries self c now v n db" "ds \<noteq> []" "length ds \<le> lf_max_batch_size fan"
  obtains S' where "ack_batch self (map dv_receipt ds) fan
      = (Inr \<lparr>br_applied = length ds, br_stale = 0\<rparr>, fan\<lparr>lf_pool := acked_db (co_id self) (map dv_receipt ds) (lf_pool fan)\<rparr>)"
    "workload (co_id self) due (acked_db (co_id self) (map dv_receipt ds) (lf_pool fan)) S'"
    "inboxes (acked_db (co_id self) (map dv_receipt ds) (lf_pool fan)) (co_id self) = Some (b\<lparr>ib_owed := S'\<rparr>)"
    "card S' = card (ib_owed b) - length ds" "length ds \<le> card (ib_owed b)"
proof -
  let ?rs = "map dv_receipt ds" and ?cid = "co_id self"
  let ?held = "held_ids ?cid ?rs (lf_pool fan)" and ?db2 = "acked_db ?cid ?rs (lf_pool fan)"
  note db2 = fan_invD(1) [OF inv]
  note held = claimed_held [OF db c same arg_cong [OF ds(1), of "map dv_receipt"]]
  obtain c' where "c' \<in> set (t_consumers (lf_pool fan))" "cr_id c' = ?cid" "b = inbox_of (lf_pool fan) c'"
    using b inboxes_Some [OF db_invD(2) [OF db2]] by blast
  then have sub: "?held \<subseteq> ib_owed b" and fin: "finite (ib_owed b)" using held(3) by (auto simp: inbox_of_def owed_def)
  have card: "card (ib_owed b - ?held) = card (ib_owed b) - length ds" using held(2) sub by (simp add: card_Diff_subset held_ids_def)
  have "length ds \<le> card (ib_owed b)" using card_mono [OF fin sub] held(2) by simp
  moreover have ib2: "inboxes ?db2 ?cid = Some (b\<lparr>ib_owed := ib_owed b - ?held\<rparr>)"
    using b by (simp add: inboxes_acked [OF db2] update_inbox_def)
  moreover have "dr_visible_at d \<le> due \<and> dr_generation d \<noteq> i64_max \<and> dr_delivery_count d \<noteq> i64_max"
    if "d \<in> set (deliveries_of ?db2 ?cid)" for d
  proof -
    have d: "d \<in> set (t_deliveries (claimed_db c now v n db))" "dr_consumer_id d = ?cid" "\<not> receipt_clause ?cid ?rs d"
      using that same by (auto simp: acked_db_def deliveries_of_filter) (auto simp: deliveries_of_def)
    have "lease_key d \<notin> set (map receipt_key ?rs)" using d(2,3) by (auto simp: receipt_clause_iff)
    then have "d \<in> set (t_deliveries db)"
      using claimed_row_cases [OF db d(1)] c(2) unfolding ds(1) claimed_receipts [OF db c(1)] by auto
    with w d(2) show ?thesis by (simp add: workload_def deliveries_of_def)
  qed
  ultimately have "workload ?cid due ?db2 (ib_owed b - ?held)"
    by (simp add: workload_inbox [OF acked_db_inv [OF db2]])
  moreover have "ack_batch self ?rs fan = (Inr \<lparr>br_applied = length ds, br_stale = 0\<rparr>, fan\<lparr>lf_pool := ?db2\<rparr>)"
    using ack_batch_eq [OF inv, of ?rs self] ds(2,3) held(1) by (simp add: batch_result_of_def)
  ultimately show thesis using card ib2 \<open>length ds \<le> card (ib_owed b)\<close> that by blast
qed

lemma ack_works:
  assumes inv: "fan_inv fan" and db: "db_inv db" and w: "workload (co_id self) due db S"
    and c: "c \<in> set (t_consumers db)" "cr_id c = co_id self"
    and pool: "lf_pool fan = others (claimed_db c now v n db)" "keeps (co_id self) others"
    and ds: "ds = claimed_deliveries self c now v n db" "ds \<noteq> []" "length ds \<le> lf_max_batch_size fan"
  obtains S' where "ack_batch self (map dv_receipt ds) fan
      = (Inr \<lparr>br_applied = length ds, br_stale = 0\<rparr>, fan\<lparr>lf_pool := acked_db (co_id self) (map dv_receipt ds) (lf_pool fan)\<rparr>)"
    "workload (co_id self) due (acked_db (co_id self) (map dv_receipt ds) (lf_pool fan)) S'"
    "card S' = card S - length ds"
proof -
  have room: "attempt_room db (cr_id c) now n" using workload_room [OF db_invD(3) [OF db] w] c(2) by simp
  have same: "deliveries_of (lf_pool fan) (co_id self) = deliveries_of (claimed_db c now v n db) (co_id self)"
    "inboxes (lf_pool fan) (co_id self) = inboxes db (co_id self)"
    using pool claimed_db_inv [OF db c(1) room] inboxes_claimed [OF db c(1) room] by (simp_all add: keeps_def)
  obtain b where b: "inboxes db (co_id self) = Some b" "ib_owed b = S" using w workload_inbox [OF db] by auto
  show thesis
    by (rule ack_after_claim [OF inv db w c same(1) same(2) [unfolded b(1)] ds]) (use b(2) that in simp)
qed

text \<open>
  One round of a loop, with the first wake-up of its poll: other tasks keep this consumer's
  inbox, and the clock has passed the time the messages are due.
\<close>

fun round_ok :: "int \<Rightarrow> int \<Rightarrow> nat \<Rightarrow> nat \<Rightarrow> round \<Rightarrow> bool" where
  "round_ok cid due horizon wait (start, []) \<longleftrightarrow> False"
| "round_ok cid due horizon wait (start, t # ts) \<longleftrightarrow> keeps cid (tk_others1 t) \<and> keeps cid (tk_others2 t) \<and>
     start + wait \<le> horizon \<and> (\<exists>now. now_ms (tk_clock t) = Inr now \<and> due \<le> now \<and> in_i64 (now + 60000))"

lemma round_works:
  assumes E: "engine_ok E" and inv: "fan_inv fan" and n: "0 < n" "n \<le> lf_max_batch_size fan"
    and w: "workload (co_id self) due (lf_pool fan) S" "S \<noteq> {}"
    and round: "round_ok (co_id self) due horizon wait r"
    and opts: "opts = \<lparr>po_max_messages = n, po_visibility_timeout = duration_from_secs 60, po_wait = wait\<rparr>"
  obtains k fan2 S' where "fetch_and_ack E horizon r self opts fan = (Inr (k, \<lparr>br_applied = k, br_stale = 0\<rparr>), fan2)"
    "0 < k" "k = min n (card S)" "fan_inv fan2" "lf_max_batch_size fan2 = lf_max_batch_size fan"
    "workload (co_id self) due (lf_pool fan2) S'" "card S' = card S - k"
proof -
  obtain start t ts now where r: "r = (start, t # ts)" and t: "keeps (co_id self) (tk_others1 t)" "keeps (co_id self) (tk_others2 t)"
    "start + wait \<le> horizon" "now_ms (tk_clock t) = Inr now" "due \<le> now" "in_i64 (now + 60000)"
    using round by (cases "(co_id self, due, horizon, wait, r)" rule: round_ok.cases) auto
  have lease: "duration_ms (po_visibility_timeout opts) = Inr 60000"
    by (simp add: opts duration_ms_Inr duration_from_secs_def i64_max_def)
  let ?db = "tk_others1 t (lf_pool fan)"
  note kept = keeps_workload [OF t(1) fan_invD(1) [OF inv] w(1)]
  have n': "0 < po_max_messages opts" "po_max_messages opts \<le> lf_max_batch_size fan" using n opts by simp_all
  have start: "start + po_wait opts \<le> horizon" using t(3) opts by simp
  have "(60000::int) \<noteq> 0" by simp
  obtain c ds where c: "c \<in> set (t_consumers ?db)" "cr_id c = co_id self"
    and p: "poll E horizon start (t # ts) self opts fan = (Some (Inr ds), fan\<lparr>lf_pool :=
       tk_others2 t (claimed_db c now (now + 60000) (po_max_messages opts) ?db)\<rparr>)"
    and ds: "ds = claimed_deliveries self c now (now + 60000) (po_max_messages opts) ?db"
      "length ds = min (po_max_messages opts) (card S)" "ds \<noteq> []"
    by (rule poll_works [OF E inv n' w t(1) lease \<open>60000 \<noteq> 0\<close> start t(4,5,6)])
  let ?fan1 = "fan\<lparr>lf_pool := tk_others2 t (claimed_db c now (now + 60000) (po_max_messages opts) ?db)\<rparr>"
  have room: "attempt_room ?db (cr_id c) now (po_max_messages opts)"
    using workload_room [OF db_invD(3) [OF kept(2)] kept(1)] c(2) by simp
  have inv1: "fan_inv ?fan1"
    using fan_inv_update(2) [OF inv] claimed_db_inv [OF kept(2) c(1) room] t(2) by (simp add: keeps_def)
  have size: "length ds \<le> lf_max_batch_size ?fan1" using ds(2) n'(2) by simp
  obtain S' where a: "ack_batch self (map dv_receipt ds) ?fan1 = (Inr \<lparr>br_applied = length ds, br_stale = 0\<rparr>,
      ?fan1\<lparr>lf_pool := acked_db (co_id self) (map dv_receipt ds) (lf_pool ?fan1)\<rparr>)"
    "workload (co_id self) due (acked_db (co_id self) (map dv_receipt ds) (lf_pool ?fan1)) S'"
    "card S' = card S - length ds"
    by (rule ack_works [OF inv1 kept(2,1) c _ t(2) ds(1,3) size]) simp_all
  show thesis
  proof (rule that)
    show "fetch_and_ack E horizon r self opts fan = (Inr (length ds, \<lparr>br_applied = length ds, br_stale = 0\<rparr>),
        ?fan1\<lparr>lf_pool := acked_db (co_id self) (map dv_receipt ds) (lf_pool ?fan1)\<rparr>)"
      using p a(1) ds(3) by (simp add: r)
    show "fan_inv (?fan1\<lparr>lf_pool := acked_db (co_id self) (map dv_receipt ds) (lf_pool ?fan1)\<rparr>)"
      by (rule ack_batch_inv [OF inv1 a(1)])
    show "0 < length ds" using ds(3) by simp
  qed (use a(2,3) ds(2) opts in simp_all)
qed

subsection \<open>The loops\<close>

text \<open>
  Both programs loop until they have counted what they expect, and a round adds what it fetched.
  The interface: a round that starts with \<open>k > 0\<close> messages to fetch counts a full batch of them, or all.
\<close>

locale drain_loop =
  fixes counts :: "round \<Rightarrow> litefan \<Rightarrow> (drain_result + nat) \<times> litefan"
    and loop :: "round list \<Rightarrow> nat \<Rightarrow> litefan \<Rightarrow> drain_result \<times> litefan"
    and ready :: "round \<Rightarrow> bool"
    and todo :: "litefan \<Rightarrow> nat \<Rightarrow> bool"
    and batch_size expected :: nat
  assumes counts_batch: "todo fan k \<Longrightarrow> 0 < k \<Longrightarrow> ready r \<Longrightarrow>
      \<exists>fan'. counts r fan = (Inr (min batch_size k), fan') \<and> todo fan' (k - min batch_size k)"
    and loop_ends: "expected \<le> drained \<Longrightarrow> loop rounds drained fan = (Drained drained, fan)"
    and loop_continues: "drained < expected \<Longrightarrow> counts r fan = (Inr n, fan') \<Longrightarrow>
      loop (r # rounds) drained fan = loop rounds (drained + n) fan'"
begin

text \<open>With a round for each full batch, a loop ends with the count it expects and nothing left to do.\<close>

lemma drains:
  "todo fan k \<Longrightarrow> expected = drained + k \<Longrightarrow> k \<le> length rounds * batch_size \<Longrightarrow> \<forall>r \<in> set rounds. ready r \<Longrightarrow>
    \<exists>fan'. loop rounds drained fan = (Drained expected, fan') \<and> todo fan' 0"
proof (induction rounds arbitrary: fan drained k)
  case Nil
  then show ?case using loop_ends by simp
next
  case (Cons r rounds)
  show ?case
  proof (cases "k = 0")
    case True
    with Cons.prems loop_ends show ?thesis by simp
  next
    case False
    then obtain fan1 where r: "counts r fan = (Inr (min batch_size k), fan1)" "todo fan1 (k - min batch_size k)"
      using counts_batch [OF Cons.prems(1), of r] Cons.prems(4) by auto
    have "expected = drained + min batch_size k + (k - min batch_size k)" using Cons.prems(2) by simp
    moreover have "k - min batch_size k \<le> length rounds * batch_size" using Cons.prems(3) by auto
    moreover have "\<forall>r \<in> set rounds. ready r" using Cons.prems(4) by simp
    ultimately obtain fan' where "loop rounds (drained + min batch_size k) fan1 = (Drained expected, fan')" "todo fan' 0"
      using Cons.IH [OF r(2)] by blast
    moreover have "drained < expected" using Cons.prems(2) False by simp
    ultimately show ?thesis using loop_continues [OF _ r(1)] by simp
  qed
qed

end

text \<open>What a round of each of the two loops counts, and what a worker has left to do.\<close>

definition applied_all :: "(drain_result + nat \<times> batch_result) \<times> litefan \<Rightarrow> (drain_result + nat) \<times> litefan" where
  "applied_all = (\<lambda>(x, fan). (case x of Inl stopped \<Rightarrow> Inl stopped
     | Inr (n, result) \<Rightarrow> if br_applied result \<noteq> n then Inl Panicked else Inr (br_applied result), fan))"

definition handed_out :: "(drain_result + nat \<times> batch_result) \<times> litefan \<Rightarrow> (drain_result + nat) \<times> litefan" where
  "handed_out = (\<lambda>(x, fan). (map_sum id fst x, fan))"

definition has_left :: "engine \<Rightarrow> consumer \<Rightarrow> int \<Rightarrow> nat \<Rightarrow> litefan \<Rightarrow> nat \<Rightarrow> bool" where
  "has_left E self due batch_size fan k \<longleftrightarrow> engine_ok E \<and> fan_inv fan \<and> 0 < batch_size \<and> batch_size \<le> lf_max_batch_size fan \<and>
     (\<exists>S. workload (co_id self) due (lf_pool fan) S \<and> card S = k)"

lemma has_left_round:
  assumes left: "has_left E self due n fan k" "0 < k" and round: "round_ok (co_id self) due horizon wait r"
    and opts: "opts = \<lparr>po_max_messages = n, po_visibility_timeout = duration_from_secs 60, po_wait = wait\<rparr>"
  shows "\<exists>fan'. fetch_and_ack E horizon r self opts fan = (Inr (min n k, \<lparr>br_applied = min n k, br_stale = 0\<rparr>), fan') \<and>
    has_left E self due n fan' (k - min n k)"
proof -
  obtain S where S: "workload (co_id self) due (lf_pool fan) S" "card S = k" and ok: "engine_ok E" "fan_inv fan" "0 < n"
    "n \<le> lf_max_batch_size fan" using left(1) by (auto simp: has_left_def)
  have "S \<noteq> {}" using S(2) left(2) by auto
  then obtain k' fan2 S' where w: "fetch_and_ack E horizon r self opts fan = (Inr (k', \<lparr>br_applied = k', br_stale = 0\<rparr>), fan2)"
    "k' = min n (card S)" "fan_inv fan2" "lf_max_batch_size fan2 = lf_max_batch_size fan"
    "workload (co_id self) due (lf_pool fan2) S'" "card S' = card S - k'"
    by (rule round_works [OF ok S(1) _ round opts])
  then show ?thesis using ok S(2) by (auto simp: has_left_def)
qed

interpretation exact: drain_loop "\<lambda>r fan. applied_all (fetch_and_ack E horizon r self (drain_poll batch_size) fan)"
  "\<lambda>rounds drained fan. drain_exact E horizon rounds self expected batch_size drained fan"
  "round_ok (co_id self) due horizon (duration_from_secs 2)" "has_left E self due batch_size" batch_size expected
  for E horizon self expected batch_size due
proof unfold_locales
  fix fan k r assume "has_left E self due batch_size fan k" "0 < k" "round_ok (co_id self) due horizon (duration_from_secs 2) r"
  from has_left_round [OF this drain_poll_def]
  show "\<exists>fan'. applied_all (fetch_and_ack E horizon r self (drain_poll batch_size) fan) = (Inr (min batch_size k), fan') \<and>
      has_left E self due batch_size fan' (k - min batch_size k)"
    by (auto simp: applied_all_def)
qed (auto simp: has_left_def drain_exact.simps applied_all_def split: prod.splits sum.splits if_splits)

interpretation unwaiting: drain_loop "\<lambda>r fan. handed_out (fetch_and_ack E horizon r self (drain_now batch_size) fan)"
  "\<lambda>rounds drained fan. drain E horizon rounds self expected batch_size drained fan"
  "round_ok (co_id self) due horizon 0" "has_left E self due batch_size" batch_size expected
  for E horizon self expected batch_size due
proof unfold_locales
  fix fan k r assume "has_left E self due batch_size fan k" "0 < k" "round_ok (co_id self) due horizon 0 r"
  from has_left_round [OF this drain_now_def]
  show "\<exists>fan'. handed_out (fetch_and_ack E horizon r self (drain_now batch_size) fan) = (Inr (min batch_size k), fan') \<and>
      has_left E self due batch_size fan' (k - min batch_size k)"
    by (auto simp: handed_out_def)
qed (auto simp: has_left_def drain.simps handed_out_def split: prod.splits sum.splits)

text \<open>What is left at the end.\<close>

lemma has_left_backlog:
  assumes "engine_ok E" and "fan_inv fan" and "0 < n" "n \<le> lf_max_batch_size fan" and "workload (co_id self) due (lf_pool fan) S"
  shows "has_left E self due n fan (card S)"
  using assms by (auto simp: has_left_def)

lemma has_left_nothing:
  assumes "has_left E self due n fan 0"
  shows "\<exists>b. inboxes (lf_pool fan) (co_id self) = Some b \<and> ib_owed b = {}"
proof -
  obtain S where S: "workload (co_id self) due (lf_pool fan) S" "card S = 0" and inv: "fan_inv fan"
    using assms by (auto simp: has_left_def)
  moreover have "finite S" using S(1) by (auto simp: workload_def owed_def)
  ultimately show ?thesis by (simp add: workload_inbox [OF fan_invD(1) [OF inv]])
qed

subsection \<open>Nothing to do\<close>

text \<open>For this it is enough that the other tasks leave its inbox as it is.\<close>

definition undisturbed :: "int \<Rightarrow> (database \<Rightarrow> database) \<Rightarrow> bool" where
  "undisturbed cid others \<longleftrightarrow> (\<forall>db. db_inv db \<longrightarrow> db_inv (others db) \<and> inboxes (others db) cid = inboxes db cid)"

lemma undisturbedD:
  assumes "undisturbed cid others" and "db_inv db"
  shows "db_inv (others db)" "inboxes (others db) cid = inboxes db cid"
  using assms by (simp_all add: undisturbed_def)

lemma undisturbed_id [simp]: "undisturbed cid (\<lambda>db. db)"
  by (simp add: undisturbed_def)

lemma workload_nothing:
  assumes "db_inv db"
  shows "workload cid due db {} \<longleftrightarrow> (\<exists>b. inboxes db cid = Some b \<and> ib_owed b = {})"
proof -
  have "deliveries_of db cid = []" if "inboxes db cid = Some b" "ib_owed b = {}" for b
    using that inboxes_Some [OF db_invD(2) [OF assms]] by (auto simp: inbox_of_def owed_def)
  then show ?thesis unfolding workload_inbox [OF assms] by fastforce
qed

lemma undisturbed_nothing:
  assumes "undisturbed cid others" and "db_inv db" and "workload cid due db {}"
  shows "workload cid due (others db) {}" "db_inv (others db)"
  using assms undisturbedD [OF assms(1,2)] by (simp_all add: workload_nothing)

text \<open>A claim of a consumer that is owed nothing returns nothing, and leaves it so.\<close>

lemma claim_nothing:
  assumes E: "engine_ok E" and inv: "fan_inv fan" and n: "n \<le> lf_max_batch_size fan"
    and w: "workload (co_id self) due (lf_pool fan) {}"
    and others: "undisturbed (co_id self) others1" "undisturbed (co_id self) others2"
    and now: "now_ms clk = Inr now" "in_i64 (now + lease_ms)"
  obtains r fan' where "claim E others1 others2 clk self n lease_ms fan = (Inr r, fan')" "cl_deliveries r = []"
    "fan_inv fan'" "lf_max_batch_size fan' = lf_max_batch_size fan" "workload (co_id self) due (lf_pool fan') {}"
proof -
  note kept = undisturbed_nothing [OF others(1) fan_invD(1) [OF inv] w]
  obtain c where c: "c \<in> set (t_consumers (others1 (lf_pool fan)))" "cr_id c = co_id self" "owed (others1 (lf_pool fan)) c = {}"
    using kept(1) by (auto simp: workload_def)
  have n': "int n \<le> i64_max" using n fan_invD(4) [OF inv] by linarith
  let ?db1 = "claimed_db c now (now + lease_ms) n (others1 (lf_pool fan))"
  note room = workload_room [OF db_invD(3) [OF kept(2)] kept(1), of now n]
  note txn = claim_txn_eq [where v = "now + lease_ms", OF E kept(2) c(1,2) n' room]
  have room': "attempt_room (others1 (lf_pool fan)) (cr_id c) now n" using room c(2) by simp
  have none: "deliveries_of (others1 (lf_pool fan)) (co_id self) = []" "unscanned (others1 (lf_pool fan)) c = []"
    using c(2,3) by (simp_all add: owed_def)
  then have no: "claimed_leases c now (now + lease_ms) n (others1 (lf_pool fan)) = []"
    using length_claimed_leases [OF db_invD(3) [OF kept(2)], of c now "now + lease_ms" n] c(2) by simp
  have db1: "db_inv ?db1" "inboxes ?db1 = inboxes (others1 (lf_pool fan))"
    by (rule claimed_db_inv [OF kept(2) c(1) room'], rule inboxes_claimed [OF kept(2) c(1) room'])
  obtain b where b: "inboxes (others1 (lf_pool fan)) (co_id self) = Some b" "ib_owed b = {}"
    using kept(1) by (auto simp: workload_inbox [OF kept(2)])
  have b1: "inboxes ?db1 (co_id self) = Some b" using db1(2) b(1) by simp
  have w1: "workload (co_id self) due ?db1 {}" using b1 b(2) by (simp add: workload_nothing [OF db1(1)])
  note kept2 = undisturbed_nothing [OF others(2) db1(1) w1]
  obtain r fan' where run: "claim E others1 others2 clk self n lease_ms fan = (r, fan')" by fastforce
  from run show thesis
  proof (cases rule: claim_cases)
    case (idle now' state)
    with that run inv w show thesis by simp
  next
    case gone
    then have "inboxes (lf_pool fan) (co_id self) = None" by (simp add: inboxes_def)
    with w show thesis by (simp add: workload_inbox [OF fan_invD(1) [OF inv]])
  next
    case (committed now' claimed db)
    have [simp]: "now' = now" using committed(1) now(1) by simp
    have pool: "lf_pool fan' = others2 ?db1" "fan' = fan\<lparr>lf_pool := others2 ?db1\<rparr>" using committed txn by simp_all
    obtain x where "x \<in> set (t_consumers (others2 ?db1))" "cr_id x = co_id self" using kept2(1) by (auto simp: workload_def)
    then obtain state where "claim_state_query (co_id self) (others2 ?db1) = Some state"
      using find_consumer_Some [OF db_invD(2) [OF kept2(2)]] by (auto simp: claim_state_query_def)
    with committed txn claim_finish_eq [OF kept(2) c(1), of self now "now + lease_ms" n] no obtain r' where
      "r = Inr r'" "cl_deliveries r' = []" by auto
    with that run pool kept2 fan_inv_update(2) [OF inv kept2(2)] show thesis by simp
  qed (use now txn in simp_all)
qed

text \<open>
  What a poll of an idle consumer may see: every tick keeps its inbox and its clocks read.
\<close>

definition idle_tick :: "int \<Rightarrow> int \<Rightarrow> tick \<Rightarrow> bool" where
  "idle_tick cid lease_ms t \<longleftrightarrow> undisturbed cid (tk_others1 t) \<and> undisturbed cid (tk_others2 t) \<and>
     (\<exists>now. now_ms (tk_clock t) = Inr now \<and> in_i64 (now + lease_ms)) \<and> (\<exists>now. now_ms (tk_until_clock t) = Inr now) \<and>
     (\<forall>fan. fan_inv fan \<longrightarrow> fan_inv (tk_meanwhile t fan) \<and> lf_max_batch_size (tk_meanwhile t fan) = lf_max_batch_size fan \<and>
        inboxes (lf_pool (tk_meanwhile t fan)) cid = inboxes (lf_pool fan) cid)"

text \<open>One turn of an idle poll returns nothing or waits.\<close>

lemma poll_turn_idle:
  assumes E: "engine_ok E" and inv: "fan_inv fan" and n: "n \<le> lf_max_batch_size fan"
    and w: "workload (co_id self) due (lf_pool fan) {}"
    and others: "undisturbed (co_id self) (tk_others1 t)" "undisturbed (co_id self) (tk_others2 t)"
    and now: "now_ms (tk_clock t) = Inr now" "in_i64 (now + lease_ms)" "now_ms (tk_until_clock t) = Inr until"
    and turn: "poll_turn E self n lease_ms deadline t receivers fan = (x, fan')"
  shows "fan_inv fan'" "lf_max_batch_size fan' = lf_max_batch_size fan" "workload (co_id self) due (lf_pool fan') {}"
    "x = Inl (Inr []) \<or> (\<exists>p. x = Inr p)"
proof -
  obtain r fan1 where cl: "claim E (tk_others1 t) (tk_others2 t) (tk_clock t) self n lease_ms fan = (Inr r, fan1)"
    "cl_deliveries r = []" "fan_inv fan1" "lf_max_batch_size fan1 = lf_max_batch_size fan"
    "workload (co_id self) due (lf_pool fan1) {}"
    by (rule claim_nothing [OF E inv n w others now(1,2)])
  have "fan' = fan1 \<and> (x = Inl (Inr []) \<or> (\<exists>p. x = Inr p))"
    using turn cl(1,2) now(3) by (auto simp: poll_turn_def Let_def duration_until_ms_def split: if_splits option.splits)
  with cl show "fan_inv fan'" "lf_max_batch_size fan' = lf_max_batch_size fan" "workload (co_id self) due (lf_pool fan') {}"
    "x = Inl (Inr []) \<or> (\<exists>p. x = Inr p)" by simp_all
qed

lemma poll_loop_idle:
  assumes E: "engine_ok E"
  shows "fan_inv fan \<Longrightarrow> n \<le> lf_max_batch_size fan \<Longrightarrow> workload (co_id self) due (lf_pool fan) {} \<Longrightarrow>
    \<forall>t \<in> set ticks. idle_tick (co_id self) lease_ms t \<Longrightarrow> \<exists>t \<in> set ticks. deadline \<le> tk_instant t \<Longrightarrow>
    \<exists>fan'. poll_loop E self n lease_ms deadline ticks receivers fan = (Some (Inr []), fan') \<and> fan_inv fan' \<and>
      workload (co_id self) due (lf_pool fan') {}"
proof (induction ticks arbitrary: receivers fan)
  case (Cons t ticks)
  obtain x fan1 where turn: "poll_turn E self n lease_ms deadline t receivers fan = (x, fan1)" by fastforce
  have x: "fan_inv fan1" "lf_max_batch_size fan1 = lf_max_batch_size fan" "workload (co_id self) due (lf_pool fan1) {}"
    "x = Inl (Inr []) \<or> (\<exists>p. x = Inr p)"
    using poll_turn_idle [OF E Cons.prems(1-3) _ _ _ _ _ turn] Cons.prems(4) by (auto simp: idle_tick_def)
  show ?case
  proof (cases "x = Inl (Inr [])")
    case True
    with turn x(1,3) show ?thesis by simp
  next
    case False
    then obtain d receivers' where p: "x = Inr (d, receivers')" using x(4) by (metis surj_pair)
    let ?fan = "tk_meanwhile t fan1"
    have m: "fan_inv ?fan" "lf_max_batch_size ?fan = lf_max_batch_size fan1"
      "inboxes (lf_pool ?fan) (co_id self) = inboxes (lf_pool fan1) (co_id self)"
      using Cons.prems(4) x(1) by (simp_all add: idle_tick_def)
    have "workload (co_id self) due (lf_pool ?fan) {}"
      using x(3) m(3) by (simp add: workload_nothing [OF fan_invD(1) [OF m(1)]] workload_nothing [OF fan_invD(1) [OF x(1)]])
    moreover have "\<not> deadline \<le> tk_instant t" using poll_turn_deadline [of deadline t E self n lease_ms receivers fan] turn p by auto
    ultimately show ?thesis
      using Cons.IH [OF m(1)] m(2) x(2) Cons.prems(2,4,5) turn p by auto
  qed
qed simp

end
