(* ===== verification/Rendering.thy ===== *)
theory Rendering
  imports Api
begin

text \<open>
  \<open>error.rs\<close>: the text of an error (\<open>fmt::Display\<close>), its cause (\<open>Error::source\<close>) and the wrapping
  of a database error. The text of a database error is the library's and an argument, \<open>cause\<close>.
  Numbers are written in decimal; \<open>{name:?}\<close> is the quoted form of \<open>str\<close>, over the characters
  that the UTF-8 bytes of the name encode.
\<close>

subsection \<open>Numbers\<close>

definition digit :: "nat \<Rightarrow> char" where
  "digit d = ''0123456789abcdef'' ! d"

fun in_base :: "nat \<Rightarrow> nat \<Rightarrow> utf8" where
  "in_base b n = (if n < b \<or> b < 2 then [digit n] else in_base b (n div b) @ [digit (n mod b)])"

declare in_base.simps [simp del]

definition decimal :: "nat \<Rightarrow> utf8" where
  "decimal n = in_base 10 n"

definition decimal_i64 :: "int \<Rightarrow> utf8" where
  "decimal_i64 i = (if i < 0 then CHR ''-'' # decimal (nat (- i)) else decimal (nat i))"

lemma digit_eq [simp]: "d < 16 \<Longrightarrow> e < 16 \<Longrightarrow> digit d = digit e \<longleftrightarrow> d = e"
  unfolding digit_def by (subst nth_eq_iff_index_eq) simp_all

lemma in_base_nonempty [simp]: "in_base b n \<noteq> []"
  by (subst in_base.simps) simp

lemma in_base_eq:
  assumes b: "2 \<le> b" "b \<le> 16"
  shows "in_base b m = in_base b n \<longleftrightarrow> m = n"
proof
  show "in_base b m = in_base b n \<Longrightarrow> m = n"
  proof (induction m arbitrary: n rule: less_induct)
    case (less m)
    note u = in_base.simps [of b m] in_base.simps [of b n]
    have small: "m mod b < 16" "n mod b < 16" "m < b \<Longrightarrow> m < 16" "n < b \<Longrightarrow> n < 16"
      using b mod_less_divisor [of b m] mod_less_divisor [of b n] by linarith+
    show ?case
    proof (cases "m < b \<or> n < b")
      case True
      with less.prems b small show ?thesis by (auto simp: u in_base_nonempty [symmetric] split: if_splits)
    next
      case False
      with less.prems b have "in_base b (m div b) = in_base b (n div b)" "m mod b = n mod b"
        using small by (auto simp: u)
      moreover have "m div b < m" using False b by simp
      ultimately have "m div b = n div b" "m mod b = n mod b" using less.IH by auto
      then show ?thesis by (metis div_mult_mod_eq)
    qed
  qed
qed simp

lemma digit_in: "d < b \<Longrightarrow> b \<le> 16 \<Longrightarrow> digit d \<in> set (take b ''0123456789abcdef'')"
  by (force simp: digit_def in_set_conv_nth)

lemma in_base_digits:
  assumes "2 \<le> b" and "b \<le> 16"
  shows "set (in_base b n) \<subseteq> set (take b ''0123456789abcdef'')"
proof (induction n rule: less_induct)
  case (less n)
  show ?case
  proof (cases "n < b")
    case True
    with assms digit_in show ?thesis by (subst in_base.simps) simp
  next
    case False
    with assms less.IH [of "n div b"] digit_in [of "n mod b" b] show ?thesis
      by (subst in_base.simps) simp
  qed
qed

lemma decimal_digits: "set (decimal n) \<subseteq> set ''0123456789''"
  using in_base_digits [of 10 n] by (simp add: decimal_def)

lemma decimal_eq [simp]: "decimal m = decimal n \<longleftrightarrow> m = n"
  by (simp add: decimal_def in_base_eq)

text \<open>What is written until a character outside its alphabet can be read back.\<close>

lemma read_until:
  assumes "xs @ c # r = ys @ c' # r'" and "set xs \<subseteq> A" "set ys \<subseteq> A" and "c \<notin> A" "c' \<notin> A"
  shows "xs = ys \<and> c = c' \<and> r = r'"
proof -
  have "takeWhile (\<lambda>x. x \<in> A) (zs @ d # s) = zs" if "set zs \<subseteq> A" "d \<notin> A" for zs d s
    using that by (auto intro: takeWhile_tail simp: subset_iff)
  with assms have "xs = ys" by metis
  with assms(1) show ?thesis by simp
qed

lemma decimal_i64_digits: "set (decimal_i64 i) \<subseteq> set ''-0123456789''"
proof -
  have "set (decimal n) \<subseteq> set ''-0123456789''" for n
    by (rule order_trans [OF decimal_digits]) simp
  then show ?thesis by (simp add: decimal_i64_def)
qed

lemma decimal_minus: "decimal n \<noteq> CHR ''-'' # xs"
  using decimal_digits [of n] by auto

lemma decimal_i64_eq [simp]: "decimal_i64 i = decimal_i64 j \<longleftrightarrow> i = j"
  by (cases "i < 0"; cases "j < 0")
    (simp_all add: decimal_i64_def decimal_minus decimal_minus [symmetric] eq_nat_nat_iff)

subsection \<open>Characters of a string\<close>

text \<open>
  A string is its UTF-8 bytes. \<open>utf8_char\<close> is the encoding of a Unicode scalar value, \<open>scalars\<close> what
  \<open>str::chars\<close> yields: the lead byte tells how many bytes follow.
\<close>

definition is_scalar :: "nat \<Rightarrow> bool" where
  "is_scalar cp \<longleftrightarrow> cp < 0xD800 \<or> 0xE000 \<le> cp \<and> cp < 0x110000"

definition utf8_char :: "nat \<Rightarrow> utf8" where
  "utf8_char cp =
     (if cp < 0x80 then [char_of cp]
      else if cp < 0x800 then [char_of (192 + cp div 64), char_of (128 + cp mod 64)]
      else if cp < 0x10000 then
        [char_of (224 + cp div 64 div 64), char_of (128 + cp div 64 mod 64), char_of (128 + cp mod 64)]
      else [char_of (240 + cp div 64 div 64 div 64), char_of (128 + cp div 64 div 64 mod 64),
            char_of (128 + cp div 64 mod 64), char_of (128 + cp mod 64)])"

definition following :: "char \<Rightarrow> nat" where
  "following b = (let n = of_char b :: nat in if n < 128 then 0 else if n < 224 then 1 else if n < 240 then 2 else 3)"

definition lead_bits :: "char \<Rightarrow> nat" where
  "lead_bits b = (let n = of_char b in if n < 128 then n else if n < 224 then n - 192 else if n < 240 then n - 224 else n - 240)"

definition next_scalar :: "char \<Rightarrow> utf8 \<Rightarrow> nat" where
  "next_scalar b s = foldl (\<lambda>v c. v * 64 + of_char c mod 64) (lead_bits b) (take (following b) s)"

fun scalars :: "utf8 \<Rightarrow> nat list" where
  "scalars [] = []"
| "scalars (b # s) = next_scalar b s # scalars (drop (following b) s)"

text \<open>A \<open>String\<close> holds the encoding of scalar values.\<close>

definition valid_utf8 :: "utf8 \<Rightarrow> bool" where
  "valid_utf8 s \<longleftrightarrow> list_all is_scalar (scalars s) \<and> concat (map utf8_char (scalars s)) = s"

lemma continuation_bits [simp]: "(128 + n) mod 64 = (n :: nat) mod 64"
  using mod_add_left_eq [of 128 64 n] by simp

lemma utf8_char_cases:
  assumes "cp < 0x110000"
  obtains (ascii) "cp < 0x80" "utf8_char cp = [char_of cp]"
    | (wide) b bs where "0x80 \<le> cp" "utf8_char cp = b # bs" "128 \<le> (of_char b :: nat)"
      "following b = length bs" "\<And>r. next_scalar b (bs @ r) = cp"
proof -
  consider "cp < 0x80" | "0x80 \<le> cp" "cp < 0x800" | "0x800 \<le> cp" "cp < 0x10000" | "0x10000 \<le> cp" by linarith
  then show thesis
  proof cases
    case 1
    then show thesis by (intro ascii) (simp_all add: utf8_char_def)
  next
    case 2
    then have "cp div 64 < 32" by (simp add: less_mult_imp_div_less)
    with 2 show thesis
      by (intro wide [of "char_of (192 + cp div 64)" "[char_of (128 + cp mod 64)]"])
        (simp_all add: utf8_char_def following_def lead_bits_def next_scalar_def Let_def)
  next
    case 3
    then have "cp div 64 div 64 < 16" by (simp add: less_mult_imp_div_less)
    with 3 show thesis
      by (intro wide [of "char_of (224 + cp div 64 div 64)" "[char_of (128 + cp div 64 mod 64), char_of (128 + cp mod 64)]"])
        (simp_all add: utf8_char_def following_def lead_bits_def next_scalar_def Let_def)
  next
    case 4
    with assms have "cp div 64 div 64 div 64 < 5" by (simp add: less_mult_imp_div_less)
    with 4 show thesis
      by (intro wide [of "char_of (240 + cp div 64 div 64 div 64)"
            "[char_of (128 + cp div 64 div 64 mod 64), char_of (128 + cp div 64 mod 64), char_of (128 + cp mod 64)]"])
        (simp_all add: utf8_char_def following_def lead_bits_def next_scalar_def Let_def)
  qed
qed

lemma is_scalar_less: "is_scalar cp \<Longrightarrow> cp < 0x110000"
  by (auto simp: is_scalar_def)

text \<open>The encoding is read back, so every sequence of scalar values is a valid string.\<close>

lemma scalars_utf8_char:
  assumes "cp < 0x110000"
  shows "scalars (utf8_char cp @ r) = cp # scalars r"
  using assms
proof (cases rule: utf8_char_cases)
  case ascii
  then show ?thesis by (simp add: following_def next_scalar_def lead_bits_def Let_def)
qed simp

lemma scalars_encoded: "list_all is_scalar cps \<Longrightarrow> scalars (concat (map utf8_char cps)) = cps"
  by (induction cps) (simp_all add: scalars_utf8_char is_scalar_less)

lemma encoded_valid: "list_all is_scalar cps \<Longrightarrow> valid_utf8 (concat (map utf8_char cps))"
  by (simp add: valid_utf8_def scalars_encoded)

lemma utf8_char_read:
  assumes "utf8_char cp @ r = utf8_char cp' @ r'" and "cp < 0x110000" "cp' < 0x110000"
  shows "cp = cp' \<and> r = r'"
proof -
  have "scalars (utf8_char cp @ r) = cp # scalars r" "scalars (utf8_char cp @ r) = cp' # scalars r'"
    using assms scalars_utf8_char by metis+
  then have "cp = cp'" by simp
  with assms(1) show ?thesis by simp
qed

lemma utf8_char_head:
  assumes "cp < 0x110000"
  shows "utf8_char cp @ r = c # s \<Longrightarrow> of_char c < (128 :: nat) \<Longrightarrow> cp = of_char c" and "utf8_char cp \<noteq> []"
  using assms by (cases rule: utf8_char_cases; auto)+

subsection \<open>Quoted names\<close>

text \<open>
  \<open>{name:?}\<close>: \<open>char::escape_debug\<close> of every character but the single quote. Which characters
  from 128 on are written as they are (printable and not a grapheme extension) is a table of the
  standard library, the argument \<open>shown\<close>; the others are written as \<open>\u{..}\<close>.
\<close>

definition escape_unicode :: "nat \<Rightarrow> utf8" where
  "escape_unicode cp = CHR 0x5C # ''u{'' @ in_base 16 cp @ ''}''"

definition escape_char :: "(nat \<Rightarrow> bool) \<Rightarrow> nat \<Rightarrow> utf8" where
  "escape_char shown cp =
     (if cp = 0 then [CHR 0x5C, CHR ''0'']
      else if cp = 0x09 then [CHR 0x5C, CHR ''t'']
      else if cp = 0x0D then [CHR 0x5C, CHR ''r'']
      else if cp = 0x0A then [CHR 0x5C, CHR ''n'']
      else if cp = 0x5C \<or> cp = 0x22 then [CHR 0x5C, char_of cp]
      else if cp < 32 \<or> cp = 0x7F then escape_unicode cp
      else if cp < 0x80 \<or> shown cp then utf8_char cp
      else escape_unicode cp)"

definition quoted :: "(nat \<Rightarrow> bool) \<Rightarrow> utf8 \<Rightarrow> utf8" where
  "quoted shown s = CHR 0x22 # concat (map (escape_char shown) (scalars s)) @ [CHR 0x22]"

lemma hex_digits: "set (in_base 16 n) \<subseteq> set ''0123456789abcdef''"
  using in_base_digits [of 16 n] by simp

lemma escape_unicode_read: "escape_unicode cp @ r = escape_unicode cp' @ r' \<Longrightarrow> cp = cp' \<and> r = r'"
  using read_until [of "in_base 16 cp" "CHR ''}''" r "in_base 16 cp'" "CHR ''}''" r',
      OF _ hex_digits hex_digits]
  by (auto simp: escape_unicode_def in_base_eq)

lemma char_of_special [simp]: "char_of (0x5C :: nat) = CHR 0x5C" "char_of (0x22 :: nat) = CHR 0x22"
  by code_simp+

text \<open>An escape is a backslash with a letter or a number in braces, and any other character is itself.\<close>

lemma escape_char_cases:
  obtains (letter) c where "escape_char shown cp = [CHR 0x5C, c]" "c \<noteq> CHR ''u''"
      "(cp, c) \<in> {(0, CHR ''0''), (9, CHR ''t''), (13, CHR ''r''), (10, CHR ''n''), (0x5C, CHR 0x5C), (0x22, CHR 0x22)}"
    | (number) "escape_char shown cp = escape_unicode cp"
    | (itself) "escape_char shown cp = utf8_char cp" "cp \<noteq> 0x5C" "cp \<noteq> 0x22"
  by (cases "cp \<in> {0, 9, 13, 10, 0x5C, 0x22}"; cases "cp < 32 \<or> cp = 0x7F \<or> \<not> (cp < 0x80 \<or> shown cp)")
    (auto simp: escape_char_def)

lemma utf8_char_not_escape:
  "cp < 0x110000 \<Longrightarrow> cp \<noteq> 0x5C \<Longrightarrow> utf8_char cp @ r \<noteq> CHR 0x5C # s"
  using utf8_char_head(1) [of cp r "CHR 0x5C" s] by auto

lemma escape_char_read:
  assumes eq: "escape_char shown cp @ r = escape_char shown cp' @ r'" and cp: "cp < 0x110000" "cp' < 0x110000"
  shows "cp = cp' \<and> r = r'"
proof (cases shown cp rule: escape_char_cases)
  case (letter c)
  note first = letter
  show ?thesis
  proof (cases shown cp' rule: escape_char_cases)
    case (letter c')
    with eq first have "c = c'" "r = r'" by simp_all
    with first(3) letter(3) show ?thesis by auto
  next
    case number
    with eq first(1,2) show ?thesis by (simp add: escape_unicode_def)
  next
    case itself
    with eq first(1) utf8_char_not_escape [OF cp(2), of r' "c # r"] show ?thesis by (metis append_Cons append_Nil)
  qed
next
  case number
  note first = number
  show ?thesis
  proof (cases shown cp' rule: escape_char_cases)
    case (letter c')
    with eq first show ?thesis by (simp add: escape_unicode_def)
  next
    case number
    with eq first show ?thesis by (intro escape_unicode_read) simp
  next
    case itself
    with eq first utf8_char_not_escape [OF cp(2), of r'] show ?thesis by (metis append_Cons escape_unicode_def)
  qed
next
  case itself
  note first = itself
  show ?thesis
  proof (cases shown cp' rule: escape_char_cases)
    case (letter c')
    with eq first utf8_char_not_escape [OF cp(1), of r "c' # r'"] show ?thesis by (metis append_Cons append_Nil)
  next
    case number
    with eq first utf8_char_not_escape [OF cp(1), of r] show ?thesis by (metis append_Cons escape_unicode_def)
  next
    case itself
    with eq first show ?thesis by (intro utf8_char_read [OF _ cp]) simp
  qed
qed

lemma escape_char_open:
  assumes "cp < 0x110000"
  shows "escape_char shown cp @ r \<noteq> CHR 0x22 # s"
proof (cases shown cp rule: escape_char_cases)
  case itself
  with utf8_char_head(1) [OF assms, of r "CHR 0x22" s] show ?thesis by auto
qed (simp_all add: escape_unicode_def)

text \<open>A reader of the message can tell where the name ends.\<close>

lemma escaped_read:
  assumes "concat (map (escape_char shown) xs) @ CHR 0x22 # r = concat (map (escape_char shown) ys) @ CHR 0x22 # r'"
    and "list_all is_scalar xs" "list_all is_scalar ys"
  shows "xs = ys \<and> r = r'"
  using assms
proof (induction xs arbitrary: ys)
  case Nil
  then show ?case
  proof (cases ys)
    case (Cons y ys')
    with Nil.prems escape_char_open [of y shown "concat (map (escape_char shown) ys') @ CHR 0x22 # r'" r]
    show ?thesis by (simp add: is_scalar_less)
  qed simp
next
  case (Cons x xs)
  show ?case
  proof (cases ys)
    case Nil
    with Cons.prems escape_char_open [of x shown "concat (map (escape_char shown) xs) @ CHR 0x22 # r" r']
    show ?thesis by (simp add: is_scalar_less)
  next
    case (Cons y ys')
    with Cons.prems have "x = y \<and> concat (map (escape_char shown) xs) @ CHR 0x22 # r
        = concat (map (escape_char shown) ys') @ CHR 0x22 # r'"
      by (intro escape_char_read [of shown]) (simp_all add: is_scalar_less)
    with Cons.IH [of ys'] Cons.prems Cons show ?thesis by simp
  qed
qed

lemma quoted_read:
  assumes "concat (map (escape_char shown) (scalars n)) @ CHR 0x22 # r
      = concat (map (escape_char shown) (scalars n')) @ CHR 0x22 # r'"
    and "valid_utf8 n" "valid_utf8 n'"
  shows "n = n' \<and> r = r'"
proof -
  have valid: "list_all is_scalar (scalars n)" "list_all is_scalar (scalars n')"
    "concat (map utf8_char (scalars n)) = n" "concat (map utf8_char (scalars n')) = n'"
    using assms(2,3) unfolding valid_utf8_def by blast+
  from escaped_read [OF assms(1) valid(1,2)] valid(3,4) show ?thesis by metis
qed

lemma quoted_eq:
  "concat (map (escape_char shown) (scalars n)) = concat (map (escape_char shown) (scalars n')) \<Longrightarrow>
   valid_utf8 n \<Longrightarrow> valid_utf8 n' \<Longrightarrow> n = n'"
  using quoted_read [of shown n "[]" n' "[]"] by simp

text \<open>A string of ASCII characters is valid, and they are its characters.\<close>

lemma ascii_scalars: "list_all (\<lambda>c. of_char c < (128 :: nat)) s \<Longrightarrow> scalars s = map of_char s"
  by (induction s) (simp_all add: next_scalar_def following_def lead_bits_def)

lemma ascii_valid:
  assumes "list_all (\<lambda>c. of_char c < (128 :: nat)) s"
  shows "valid_utf8 s"
proof -
  have "list_all is_scalar (map of_char s) \<and> concat (map utf8_char (map of_char s)) = s"
    using assms by (induction s) (auto simp: is_scalar_def utf8_char_def)
  then show ?thesis by (simp only: valid_utf8_def ascii_scalars [OF assms])
qed

lemma scalars_singleton: "cp < 0x110000 \<Longrightarrow> scalars (utf8_char cp) = [cp]"
  using scalars_utf8_char [of cp "[]"] by simp

subsection \<open>The error type\<close>

definition display :: "(nat \<Rightarrow> bool) \<Rightarrow> (sql_error \<Rightarrow> utf8) \<Rightarrow> error \<Rightarrow> utf8" where
  "display shown cause e =
     (case e of
        Sqlx error \<Rightarrow> ''SQLite error: '' @ cause error
      | BatchTooLarge requested maximum \<Rightarrow>
          ''batch contains '' @ decimal requested @ '' items; maximum is '' @ decimal maximum
      | ConsumerConfigurationMismatch name \<Rightarrow>
          ''consumer '' @ quoted shown name @ '' already exists with different durable configuration''
      | EmptyConsumerName \<Rightarrow> ''consumer name cannot be empty''
      | InvalidConfig message \<Rightarrow> ''invalid configuration: '' @ message
      | InvalidPoll message \<Rightarrow> ''invalid poll: '' @ message
      | InvalidVisibilityTimeout \<Rightarrow> ''visibility timeout must be at least one millisecond''
      | IncompatibleSchema \<Rightarrow> ''database contains an incompatible unversioned litefan schema''
      | UnsupportedSchemaVersion found maximum \<Rightarrow>
          ''database schema version '' @ decimal_i64 found @ '' is newer than supported version '' @ decimal_i64 maximum
      | IncompleteIdempotencyEntry \<Rightarrow> ''idempotency ledger contains an incomplete entry''
      | ConsumerDeleted name \<Rightarrow> ''consumer '' @ quoted shown name @ '' has been deleted''
      | ConsumerNotFound name \<Rightarrow> ''consumer '' @ quoted shown name @ '' does not exist''
      | ConsumerNotDraining name \<Rightarrow> ''consumer '' @ quoted shown name @ '' is still active''
      | ConsumerNotEmpty name outstanding \<Rightarrow>
          ''consumer '' @ quoted shown name @ '' still has '' @ decimal outstanding @ '' outstanding deliveries''
      | ConsumerHasArchives name archived \<Rightarrow>
          ''consumer '' @ quoted shown name @ '' still has '' @ decimal archived @ '' archived deliveries''
      | ClockBeforeUnixEpoch \<Rightarrow> ''system clock is before the Unix epoch''
      | DurationOutOfRange \<Rightarrow> ''duration does not fit in SQLite milliseconds''
      | CounterOutOfRange \<Rightarrow> ''SQLite counter does not fit in the Rust type''
      | StorageInvariant message \<Rightarrow> ''storage invariant violated: '' @ message)"

definition error_source :: "error \<Rightarrow> sql_error option" where
  "error_source e = (case e of Sqlx error \<Rightarrow> Some error | _ \<Rightarrow> None)"

definition from_sqlx :: "sql_error \<Rightarrow> error" where
  "from_sqlx value = Sqlx value"

lemma decimal_read:
  assumes "decimal m @ c # r = decimal n @ c' # r'" and "c \<notin> set ''0123456789''" "c' \<notin> set ''0123456789''"
  shows "m = n \<and> c = c' \<and> r = r'"
  using read_until [OF assms(1) decimal_digits decimal_digits] assms by simp

lemma decimal_i64_read:
  assumes "decimal_i64 m @ c # r = decimal_i64 n @ c' # r'" and "c \<notin> set ''-0123456789''" "c' \<notin> set ''-0123456789''"
  shows "m = n \<and> c = c' \<and> r = r'"
  using read_until [OF assms(1) decimal_i64_digits decimal_i64_digits] assms by simp


text \<open>What follows a name or a number begins with a blank.\<close>

lemma number_blank:
  "decimal m @ CHR '' '' # r = decimal n @ CHR '' '' # r' \<Longrightarrow> m = n \<and> r = r'"
  "decimal_i64 i @ CHR '' '' # r = decimal_i64 j @ CHR '' '' # r' \<Longrightarrow> i = j \<and> r = r'"
  by (auto dest: decimal_read decimal_i64_read)


text \<open>The names an error carries are Rust strings.\<close>

definition names_valid :: "error \<Rightarrow> bool" where
  "names_valid e \<longleftrightarrow>
     (case e of
        ConsumerConfigurationMismatch name \<Rightarrow> valid_utf8 name
      | ConsumerDeleted name \<Rightarrow> valid_utf8 name
      | ConsumerNotFound name \<Rightarrow> valid_utf8 name
      | ConsumerNotDraining name \<Rightarrow> valid_utf8 name
      | ConsumerNotEmpty name outstanding \<Rightarrow> valid_utf8 name
      | ConsumerHasArchives name archived \<Rightarrow> valid_utf8 name
      | _ \<Rightarrow> True)"

text \<open>C37: messages tell errors apart.
  The text of an error determines the error, with the name and the numbers it carries, whatever
  characters the name contains and whichever of them are escaped. The one exception are
  database errors that the library itself renders alike: they share a message.\<close>

theorem messages_tell_errors_apart:
  assumes "names_valid e" and "names_valid e'"
  shows "display shown cause e = display shown cause e' \<longleftrightarrow>
     e = e' \<or> (\<exists>x y. e = from_sqlx x \<and> e' = from_sqlx y \<and> cause x = cause y)"
  using assms
  by (cases e; cases e')
    (auto simp: display_def quoted_def from_sqlx_def names_valid_def dest!: number_blank dest: quoted_read quoted_eq)

text \<open>
  A name with a combining acute accent (escaped), one with a printable character and one that
  spells the escape out.
\<close>

theorem messages_tell_errors_apart_witness:
  "display (\<lambda>cp. cp = 0xE9) (\<lambda>_. []) (ConsumerNotFound (utf8_char 0x301)) =
     ''consumer '' @ [CHR 0x22, CHR 0x5C] @ ''u{301}'' @ [CHR 0x22] @ '' does not exist'' \<and>
   display (\<lambda>cp. cp = 0xE9) (\<lambda>_. []) (ConsumerNotFound (utf8_char 0xE9)) =
     ''consumer '' @ [CHR 0x22] @ utf8_char 0xE9 @ [CHR 0x22] @ '' does not exist'' \<and>
   display (\<lambda>cp. cp = 0xE9) (\<lambda>_. []) (ConsumerNotFound (utf8_char 0x301)) \<noteq>
     display (\<lambda>cp. cp = 0xE9) (\<lambda>_. []) (ConsumerNotFound (CHR 0x5C # ''u{301}''))"
proof (intro conjI)
  have "names_valid (ConsumerNotFound (CHR 0x5C # ''u{301}''))" by (simp add: names_valid_def ascii_valid)
  moreover have "names_valid (ConsumerNotFound (utf8_char 0x301))"
    by (simp add: names_valid_def valid_utf8_def scalars_singleton is_scalar_def)
  ultimately show "display (\<lambda>cp. cp = 0xE9) (\<lambda>_. []) (ConsumerNotFound (utf8_char 0x301)) \<noteq>
      display (\<lambda>cp. cp = 0xE9) (\<lambda>_. []) (ConsumerNotFound (CHR 0x5C # ''u{301}''))"
    by (subst messages_tell_errors_apart) (simp_all add: from_sqlx_def utf8_char_def)
qed (simp_all add: display_def quoted_def scalars_singleton escape_char_def escape_unicode_def in_base.simps digit_def)

end
