(* ===== verification/Workloads.thy ===== *)
theory Workloads
  imports Worker Rendering Isolation
begin

text \<open>
  The scenarios of \<open>examples/benchmark.rs\<close> and \<open>examples/heavy_benchmark.rs\<close>, without their timing
  and printing: a store on a new file, consumers, a backlog published in batches, and workers that
  drain it. A panic of the program (an assertion or \<open>unwrap\<close> that fails) is \<open>None\<close> here. A clock is
  given for each call that reads one.
\<close>

subsection \<open>Consumers and messages\<close>

definition consumer_name :: "nat \<Rightarrow> utf8" where
  "consumer_name index = ''consumer-'' @ decimal index"

fun create_each :: "engine \<Rightarrow> (nat \<Rightarrow> clock) \<Rightarrow> filter_spec \<Rightarrow> nat list \<Rightarrow> litefan \<Rightarrow> consumer list option \<times> litefan" where
  "create_each E clk flt [] fan = (Some [], fan)"
| "create_each E clk flt (index # indices) fan =
     (case open_consumer E (clk index) (builder_filter flt (consumer_builder_new (consumer_name index))) fan of
        (Inl e, fan1) \<Rightarrow> (None, fan1)
      | (Inr c, fan1) \<Rightarrow> (case create_each E clk flt indices fan1 of
          (cs, fan2) \<Rightarrow> (map_option ((#) c) cs, fan2)))"

definition create_consumers :: "engine \<Rightarrow> (nat \<Rightarrow> clock) \<Rightarrow> litefan \<Rightarrow> nat \<Rightarrow> filter_spec \<Rightarrow> consumer list option \<times> litefan" where
  "create_consumers E clk fan consumer_count flt = create_each E clk flt [0..<consumer_count] fan"

text \<open>\<open>(0..n).step_by(k)\<close>.\<close>

definition step_by :: "nat \<Rightarrow> nat \<Rightarrow> nat list" where
  "step_by n k = map (\<lambda>i. i * k) [0..<(n + k - 1) div k]"

fun publish_slices :: "engine \<Rightarrow> (nat \<Rightarrow> clock) \<Rightarrow> publish list \<Rightarrow> nat \<Rightarrow> nat list \<Rightarrow> litefan \<Rightarrow> bool \<times> litefan" where
  "publish_slices E clk messages message_count [] fan = (True, fan)"
| "publish_slices E clk messages message_count (offset # offsets) fan =
     (case publish_batch E (clk offset) (take (min (message_count - offset) (length messages)) messages) fan of
        (Inl e, fan1) \<Rightarrow> (False, fan1)
      | (Inr outcomes, fan1) \<Rightarrow> publish_slices E clk messages message_count offsets fan1)"

text \<open>\<open>step_by\<close> panics when the step is zero.\<close>

definition publish_batches :: "engine \<Rightarrow> (nat \<Rightarrow> clock) \<Rightarrow> litefan \<Rightarrow> nat \<Rightarrow> nat \<Rightarrow> utf8 option \<Rightarrow> blob \<Rightarrow> bool \<times> litefan" where
  "publish_batches E clk fan message_count batch_size topic body =
     (if batch_size = 0 then (False, fan)
      else publish_slices E clk (replicate batch_size ((publish_new body)\<lparr>pb_topic := topic\<rparr>)) message_count
             (step_by message_count batch_size) fan)"

definition publish_messages :: "engine \<Rightarrow> (nat \<Rightarrow> clock) \<Rightarrow> litefan \<Rightarrow> nat \<Rightarrow> bool \<times> litefan" where
  "publish_messages E clk fan message_count =
     (let payloads = replicate (lf_max_batch_size fan) (publish_new [120]) in
      if payloads = [] then (False, fan)
      else publish_slices E clk payloads message_count (step_by message_count (length payloads)) fan)"

lemma consumer_name_eq [simp]: "consumer_name i = consumer_name j \<longleftrightarrow> i = j" "consumer_name i \<noteq> []"
  by (simp_all add: consumer_name_def)

text \<open>A name that is not taken opens.\<close>

lemma open_new:
  assumes inv: "fan_inv fan" and name: "cb_name b \<noteq> []" "cb_name b \<notin> cr_name ` set (t_consumers (lf_pool fan))"
    and room: "seq_consumers (lf_pool fan) < i64_max" and t: "now_ms clk = Inr t"
  obtains c fan' where "open_consumer E clk b fan = (Inr c, fan')" "fan_inv fan'"
    "co_id c = seq_consumers (lf_pool fan) + 1" "co_name c = cb_name b" "lf_max_batch_size fan' = lf_max_batch_size fan"
    "lf_pool fan' = created_db (cb_name b) (as_database_value (cb_filter b)) t (lf_pool fan)"
    "lf_idempotency_window_ms fan' = lf_idempotency_window_ms fan"
proof -
  let ?db = "lf_pool fan" and ?c = "new_consumer_row (cb_name b) (as_database_value (cb_filter b)) t (lf_pool fan)"
  have none: "find (\<lambda>c. cr_name c = cb_name b) (t_consumers ?db) = None"
    using name(2) by (simp only: find_key_None_iff not_False_eq_True)
  have "find (\<lambda>c. cr_name c = cb_name b) (t_consumers ?db @ [?c]) = Some ?c"
    unfolding find_append_None [OF none] by (simp add: new_consumer_row_def)
  then have txn: "open_txn E b t ?db = Inr (seq_consumers ?db + 1, created_db (cb_name b) (as_database_value (cb_filter b)) t ?db)"
    using name(2) room insert_consumer_eq [OF db_invD(1) [OF fan_invD(1) [OF inv]], of E "cb_name b" "as_database_value (cb_filter b)" t]
    by (simp add: open_txn_def find_consumer_by_name_def created_db_def new_consumer_row_def)
  obtain s1 sg1 where s1: "publishes_for (cb_filter b) (lf_signals fan) = (s1, sg1)" by fastforce
  obtain s2 sg2 where s2: "consumer_signal (seq_consumers ?db + 1) sg1 = (s2, sg2)" by fastforce
  obtain c fan' where run: "open_consumer E clk b fan = (Inr c, fan')" and c: "co_id c = seq_consumers ?db + 1"
    "co_name c = cb_name b" "lf_max_batch_size fan' = lf_max_batch_size fan"
    "lf_pool fan' = created_db (cb_name b) (as_database_value (cb_filter b)) t ?db"
    "lf_idempotency_window_ms fan' = lf_idempotency_window_ms fan"
    using name(1) t txn s1 s2 by (simp add: open_consumer_def transaction_def)
  from that [OF run open_consumer_inv [OF inv run] c] show thesis .
qed

text \<open>The inbox of a consumer nothing was published to.\<close>

definition empty_inbox :: "filter_spec \<Rightarrow> inbox" where
  "empty_inbox flt = \<lparr>ib_filter = as_database_value flt, ib_accepting = True, ib_owed = {}, ib_archived = {}\<rparr>"

lemma create_each_works:
  assumes clk: "\<forall>i. \<exists>t. now_ms (clk i) = Inr t"
  shows "fan_inv fan \<Longrightarrow> distinct indices \<Longrightarrow> consumer_name ` set indices \<inter> cr_name ` set (t_consumers (lf_pool fan)) = {} \<Longrightarrow>
    seq_consumers (lf_pool fan) + int (length indices) \<le> i64_max \<Longrightarrow>
    \<exists>cs fan'. create_each E clk flt indices fan = (Some cs, fan') \<and> fan_inv fan' \<and> length cs = length indices \<and>
      map co_id cs = map (\<lambda>i. seq_consumers (lf_pool fan) + 1 + int i) [0..<length indices] \<and>
      (\<forall>c \<in> set cs. inboxes (lf_pool fan') (co_id c) = Some (empty_inbox flt)) \<and>
      t_deliveries (lf_pool fan') = t_deliveries (lf_pool fan) \<and> seq_messages (lf_pool fan') = seq_messages (lf_pool fan) \<and>
      lf_max_batch_size fan' = lf_max_batch_size fan \<and>
      (\<forall>cid b. inboxes (lf_pool fan) cid = Some b \<longrightarrow> inboxes (lf_pool fan') cid = Some b)"
proof (induction indices arbitrary: fan)
  case (Cons index indices)
  let ?b = "builder_filter flt (consumer_builder_new (consumer_name index))"
  have b: "cb_name ?b = consumer_name index" "cb_filter ?b = flt"
    by (simp_all add: builder_filter_def consumer_builder_new_def)
  obtain t where t: "now_ms (clk index) = Inr t" using clk by blast
  have free: "cb_name ?b \<noteq> []" "cb_name ?b \<notin> cr_name ` set (t_consumers (lf_pool fan))" "seq_consumers (lf_pool fan) < i64_max"
    using Cons.prems(3,4) b(1) by auto
  obtain c fan1 where run: "open_consumer E (clk index) ?b fan = (Inr c, fan1)" "fan_inv fan1"
    and c: "co_id c = seq_consumers (lf_pool fan) + 1" "lf_max_batch_size fan1 = lf_max_batch_size fan"
      "lf_pool fan1 = created_db (consumer_name index) (as_database_value flt) t (lf_pool fan)"
    by (rule open_new [OF Cons.prems(1) free t, of E]) (use b in simp)
  have db1: "t_consumers (lf_pool fan1) = t_consumers (lf_pool fan) @ [new_consumer_row (consumer_name index) (as_database_value flt) t (lf_pool fan)]"
    "seq_consumers (lf_pool fan1) = seq_consumers (lf_pool fan) + 1" "t_deliveries (lf_pool fan1) = t_deliveries (lf_pool fan)"
    "seq_messages (lf_pool fan1) = seq_messages (lf_pool fan)"
    by (simp_all add: c(3) created_db_def)
  have inbox1: "inboxes (lf_pool fan1) = (inboxes (lf_pool fan))(co_id c \<mapsto> empty_inbox flt)"
    unfolding c(3) inboxes_created [OF fan_invD(1) [OF Cons.prems(1)]] by (simp add: c(1) empty_inbox_def)
  have new: "inboxes (lf_pool fan) (co_id c) = None"
  proof -
    have "co_id c \<notin> cr_id ` set (t_consumers (lf_pool fan))"
      using db_invD(2) [OF fan_invD(1) [OF Cons.prems(1)]] c(1) by (fastforce simp: consumers_inv_def consumer_row_inv_def)
    then show ?thesis by (simp add: inboxes_def find_consumer_None)
  qed
  have free1: "consumer_name ` set indices \<inter> cr_name ` set (t_consumers (lf_pool fan1)) = {}"
    using Cons.prems(2,3) by (auto simp: db1 new_consumer_row_def)
  have "seq_consumers (lf_pool fan1) + int (length indices) \<le> i64_max" using Cons.prems(4) db1(2) by simp
  from Cons.IH [OF run(2) _ free1 this] Cons.prems(2)
  obtain cs fan2 where rest: "create_each E clk flt indices fan1 = (Some cs, fan2)" "fan_inv fan2" "length cs = length indices"
    "map co_id cs = map (\<lambda>i. seq_consumers (lf_pool fan1) + 1 + int i) [0..<length indices]"
    "\<forall>c \<in> set cs. inboxes (lf_pool fan2) (co_id c) = Some (empty_inbox flt)"
    "t_deliveries (lf_pool fan2) = t_deliveries (lf_pool fan1)" "seq_messages (lf_pool fan2) = seq_messages (lf_pool fan1)"
    "lf_max_batch_size fan2 = lf_max_batch_size fan1"
    "\<forall>cid b. inboxes (lf_pool fan1) cid = Some b \<longrightarrow> inboxes (lf_pool fan2) cid = Some b"
    by auto
  have ids: "map co_id (c # cs) = map (\<lambda>i. seq_consumers (lf_pool fan) + 1 + int i) [0..<length (index # indices)]"
    unfolding length_Cons upt_conv_Cons [OF zero_less_Suc] by (simp add: rest(4) db1(2) c(1) map_Suc_upt [symmetric] del: upt_Suc)
  have keep: "inboxes (lf_pool fan1) cid = Some b" if "inboxes (lf_pool fan) cid = Some b" for cid b
    using that inbox1 new by auto
  show ?case
    using run(1) rest db1 c(2) ids inbox1 keep by (intro exI [of _ "c # cs"] exI [of _ fan2]) simp
qed simp


text \<open>What a batch for one topic posts.\<close>

definition posts :: "int \<Rightarrow> nat \<Rightarrow> utf8 option \<Rightarrow> (int \<times> utf8 option) set" where
  "posts n k topic = (\<lambda>i. (i, topic)) ` {n + 1..n + int k}"

lemma posted_posts:
  assumes "\<forall>m \<in> set ps. pb_topic m = topic"
  shows "posted n t ps = posts n (length ps) topic"
proof -
  have "\<forall>m \<in> set (message_rows n t ps). mr_topic m = topic" using assms by (induction ps arbitrary: n) simp_all
  then have "posted n t ps = (\<lambda>i. (i, topic)) ` mr_id ` set (message_rows n t ps)" by (force simp: posted_def image_image)
  then show ?thesis using map_id_message_rows [of n t ps] by (metis list.set_map posts_def set_upto)
qed

lemma posts_append: "posts n j topic \<union> posts (n + int j) k topic = posts n (j + k) topic"
proof -
  have "{n + 1..n + int j} \<union> {n + int j + 1..n + int j + int k} = {n + 1..n + int (j + k)}" by auto
  then show ?thesis unfolding posts_def image_Un [symmetric] by simp
qed

lemma deposit_twice: "deposit A (deposit B b) = deposit (B \<union> A) b"
proof -
  have "{p \<in> B \<union> A. topic_matches (ib_filter b) (snd p)}
      = {p \<in> B. topic_matches (ib_filter b) (snd p)} \<union> {p \<in> A. topic_matches (ib_filter b) (snd p)}" by blast
  then show ?thesis by (simp add: deposit_def image_Un Un_assoc)
qed

lemma posted_twice: "apply_event (Posted A) (apply_event (Posted B) ib) = apply_event (Posted (B \<union> A)) ib"
  by (rule ext) (simp add: option.map_comp comp_def deposit_twice)

text \<open>One slice of unkeyed messages for one topic.\<close>

lemma slice_works:
  assumes inv: "fan_inv fan" and E: "engine_ok E" and ms: "ms \<noteq> []" "length ms \<le> lf_max_batch_size fan"
    and plain: "\<forall>m \<in> set ms. pb_topic m = topic \<and> pb_idempotency_key m = None"
    and clk: "now_ms clk = Inr t" and room: "seq_messages (lf_pool fan) + int (length ms) \<le> i64_max"
  obtains os fan' where "publish_batch E clk ms fan = (Inr os, fan')" "fan_inv fan'"
    "inboxes (lf_pool fan') = apply_event (Posted (posts (seq_messages (lf_pool fan)) (length ms) topic)) (inboxes (lf_pool fan))"
    "t_deliveries (lf_pool fan') = t_deliveries (lf_pool fan)" "seq_messages (lf_pool fan') = seq_messages (lf_pool fan) + int (length ms)"
    "lf_max_batch_size fan' = lf_max_batch_size fan"
proof -
  let ?db = "lf_pool fan" and ?e = "t + lf_idempotency_window_ms fan"
  have unkeyed: "batch_unkeyed ms" and topic: "\<forall>m \<in> set ms. pb_topic m = topic"
    using plain by (simp_all add: batch_unkeyed_def)
  obtain os L' where ref: "publish_each (live_ledger t ?db) (seq_messages ?db) ms = (os, ms, L')"
    using publish_each_unkeyed [of ms] plain by blast
  have run: "publish_batch E clk ms fan = (Inr os, fan\<lparr>lf_pool := published_db E t ?e ms ?db,
             lf_signals := wake_publishes ms (lf_signals fan)\<rparr>)" (is "_ = (_, ?fan)")
    using unkeyed_batch_eq [OF inv E ms unkeyed clk ref] room by simp
  show thesis
  proof (rule that [OF run publish_batch_inv [OF inv E run]])
    show "inboxes (lf_pool ?fan) = apply_event (Posted (posts (seq_messages ?db) (length ms) topic)) (inboxes ?db)"
      using inboxes_published [OF fan_invD(1) [OF inv] E ref room] by (simp only: posted_posts [OF topic]) simp
  qed (simp_all add: published_db_simps [OF ref])
qed

lemma publish_slices_works:
  assumes E: "engine_ok E" and clk: "\<forall>i. \<exists>t. now_ms (clk i) = Inr t"
    and plain: "\<forall>m \<in> set ms. pb_topic m = topic \<and> pb_idempotency_key m = None" and k: "ms \<noteq> []"
    and top: "J * length ms < n + length ms" "n \<le> J * length ms"
  shows "fan_inv fan \<Longrightarrow> length ms \<le> lf_max_batch_size fan \<Longrightarrow> j \<le> J \<Longrightarrow>
    seq_messages (lf_pool fan) + int (n - j * length ms) \<le> i64_max \<Longrightarrow>
    \<exists>fan'. publish_slices E clk ms n (map (\<lambda>i. i * length ms) [j..<J]) fan = (True, fan') \<and> fan_inv fan' \<and>
      inboxes (lf_pool fan') = apply_event (Posted (posts (seq_messages (lf_pool fan)) (n - j * length ms) topic)) (inboxes (lf_pool fan)) \<and>
      t_deliveries (lf_pool fan') = t_deliveries (lf_pool fan) \<and>
      seq_messages (lf_pool fan') = seq_messages (lf_pool fan) + int (n - j * length ms) \<and>
      lf_max_batch_size fan' = lf_max_batch_size fan"
proof (induction "J - j" arbitrary: j fan)
  case 0
  then have "j = J" by simp
  with top(2) 0 show ?case by (simp add: posts_def posted_empty option.map_id0)
next
  case (Suc d)
  let ?k = "length ms"
  have j: "j < J" using Suc.hyps(2) by simp
  have "Suc j * ?k \<le> J * ?k" using j by (intro mult_le_mono1) simp
  then have before: "j * ?k < n" using top(1) by simp
  define slice where "slice = take (min (n - j * ?k) ?k) ms"
  have len: "length slice = min (n - j * ?k) ?k" by (simp add: slice_def)
  have split: "n - j * ?k = length slice + (n - Suc j * ?k)" unfolding len by simp
  obtain t where t: "now_ms (clk (j * ?k)) = Inr t" using clk by blast
  have "0 < length slice" unfolding len using before k by simp
  then have ne: "slice \<noteq> []" by simp
  have fits: "length slice \<le> lf_max_batch_size fan" using len Suc.prems(2) by simp
  have plain': "\<forall>m \<in> set slice. pb_topic m = topic \<and> pb_idempotency_key m = None"
    using plain by (auto simp: slice_def dest: in_set_takeD)
  have room: "seq_messages (lf_pool fan) + int (length slice) \<le> i64_max" using Suc.prems(4) split by simp
  obtain os fan1 where s: "publish_batch E (clk (j * ?k)) slice fan = (Inr os, fan1)" "fan_inv fan1"
    "inboxes (lf_pool fan1) = apply_event (Posted (posts (seq_messages (lf_pool fan)) (length slice) topic)) (inboxes (lf_pool fan))"
    "t_deliveries (lf_pool fan1) = t_deliveries (lf_pool fan)" "seq_messages (lf_pool fan1) = seq_messages (lf_pool fan) + int (length slice)"
    "lf_max_batch_size fan1 = lf_max_batch_size fan"
    by (rule slice_works [OF Suc.prems(1) E ne fits plain' t room])
  obtain fan2 where r: "publish_slices E clk ms n (map (\<lambda>i. i * ?k) [Suc j..<J]) fan1 = (True, fan2)" "fan_inv fan2"
      "inboxes (lf_pool fan2) = apply_event (Posted (posts (seq_messages (lf_pool fan1)) (n - Suc j * ?k) topic)) (inboxes (lf_pool fan1))"
      "t_deliveries (lf_pool fan2) = t_deliveries (lf_pool fan1)"
      "seq_messages (lf_pool fan2) = seq_messages (lf_pool fan1) + int (n - Suc j * ?k)"
      "lf_max_batch_size fan2 = lf_max_batch_size fan1"
  proof -
    have "d = J - Suc j" "Suc j \<le> J" using Suc.hyps(2) j by simp_all
    moreover have "seq_messages (lf_pool fan1) + int (n - Suc j * ?k) \<le> i64_max" using s(5) Suc.prems(4) split by linarith
    ultimately show thesis using Suc.hyps(1) [of "Suc j" fan1] s(2,6) Suc.prems(2) that by fastforce
  qed
  have "inboxes (lf_pool fan2) = apply_event (Posted (posts (seq_messages (lf_pool fan)) (n - j * ?k) topic)) (inboxes (lf_pool fan))"
    unfolding r(3) s(3) s(5) posted_twice posts_append split ..
  moreover have "publish_slices E clk ms n (map (\<lambda>i. i * ?k) [j..<J]) fan = (True, fan2)"
    using s(1) r(1) by (simp add: upt_conv_Cons [OF j] slice_def)
  ultimately show ?case using r s split by (intro exI [of _ fan2]) simp
qed

text \<open>A backlog of \<open>n\<close> messages: every inbox that takes its topic is owed them, and no delivery is stored.\<close>

definition backlog :: "nat \<Rightarrow> utf8 option \<Rightarrow> litefan \<Rightarrow> litefan \<Rightarrow> bool" where
  "backlog n topic fan fan' \<longleftrightarrow> fan_inv fan' \<and> lf_max_batch_size fan' = lf_max_batch_size fan \<and>
     inboxes (lf_pool fan') = apply_event (Posted (posts (seq_messages (lf_pool fan)) n topic)) (inboxes (lf_pool fan)) \<and>
     t_deliveries (lf_pool fan') = t_deliveries (lf_pool fan) \<and>
     seq_messages (lf_pool fan') = seq_messages (lf_pool fan) + int n"

lemma step_by_bounds:
  fixes n k :: nat
  assumes "0 < k"
  shows "(n + k - 1) div k * k < n + k" "n \<le> (n + k - 1) div k * k"
proof -
  have "(n + k - 1) div k * k + (n + k - 1) mod k = n + k - 1" by simp
  moreover have "(n + k - 1) mod k < k" using assms by simp
  ultimately show "(n + k - 1) div k * k < n + k" "n \<le> (n + k - 1) div k * k" using assms by linarith+
qed

lemma slices_backlog:
  assumes "engine_ok E" and "\<forall>i. \<exists>t. now_ms (clk i) = Inr t" and "fan_inv fan"
    and ms: "ms \<noteq> []" "length ms \<le> lf_max_batch_size fan" "\<forall>m \<in> set ms. pb_topic m = topic \<and> pb_idempotency_key m = None"
    and "seq_messages (lf_pool fan) + int n \<le> i64_max"
  shows "\<exists>fan'. publish_slices E clk ms n (step_by n (length ms)) fan = (True, fan') \<and> backlog n topic fan fan'"
proof -
  have k: "0 < length ms" using ms(1) by simp
  have "seq_messages (lf_pool fan) + int (n - 0 * length ms) \<le> i64_max" using assms(7) by simp
  from publish_slices_works [OF assms(1,2) ms(3,1) step_by_bounds [OF k] assms(3) ms(2) _ this]
  show ?thesis by (auto simp: step_by_def backlog_def)
qed

lemma publish_batches_backlog:
  assumes "engine_ok E" and "\<forall>i. \<exists>t. now_ms (clk i) = Inr t" and "fan_inv fan"
    and "0 < batch_size" "batch_size \<le> lf_max_batch_size fan"
    and "seq_messages (lf_pool fan) + int n \<le> i64_max"
  shows "\<exists>fan'. publish_batches E clk fan n batch_size topic body = (True, fan') \<and> backlog n topic fan fan'"
  using slices_backlog [OF assms(1-3), of "replicate batch_size ((publish_new body)\<lparr>pb_topic := topic\<rparr>)" topic n] assms(4-6)
  by (simp add: publish_batches_def publish_new_def)

lemma publish_messages_backlog:
  assumes "engine_ok E" and "\<forall>i. \<exists>t. now_ms (clk i) = Inr t" and "fan_inv fan"
    and "seq_messages (lf_pool fan) + int n \<le> i64_max"
  shows "\<exists>fan'. publish_messages E clk fan n = (True, fan') \<and> backlog n None fan fan'"
  using slices_backlog [OF assms(1-3), of "replicate (lf_max_batch_size fan) (publish_new [120])" None n] assms(4) fan_invD(3,4) [OF assms(3)]
  by (simp add: publish_messages_def publish_new_def Let_def)


subsection \<open>A preloaded backlog\<close>

definition new_database :: "litefan option" where
  "new_database = (case open_default missing_file of (Inr fan, _) \<Rightarrow> Some fan | (Inl e, _) \<Rightarrow> None)"

text \<open>\<open>backlog_fanout\<close> up to the point where its workers start, and \<open>claim_and_ack\<close> with its worker.\<close>

definition preload_backlog :: "engine \<Rightarrow> (nat \<Rightarrow> clock) \<Rightarrow> (nat \<Rightarrow> clock) \<Rightarrow> nat \<Rightarrow> nat \<Rightarrow> (consumer list \<times> litefan) option" where
  "preload_backlog E clk1 clk2 consumer_count messages =
     (case new_database of None \<Rightarrow> None
      | Some fan \<Rightarrow>
     (case create_consumers E clk1 fan consumer_count FilterAll of (None, _) \<Rightarrow> None
      | (Some consumers, fan1) \<Rightarrow>
     (case publish_batches E clk2 fan1 messages 500 None [120] of (False, _) \<Rightarrow> None
      | (True, fan2) \<Rightarrow>
          let materialized = length (t_deliveries (lf_pool fan2))
          in if materialized = 0 then Some (consumers, fan2) else None)))"

definition claim_and_ack :: "engine \<Rightarrow> clock \<Rightarrow> (nat \<Rightarrow> clock) \<Rightarrow> nat \<Rightarrow> round list \<Rightarrow> nat \<Rightarrow> nat \<Rightarrow> (drain_result \<times> litefan) option" where
  "claim_and_ack E clk1 clk2 horizon rounds batch_size message_count =
     (case new_database of None \<Rightarrow> None
      | Some fan \<Rightarrow>
     (case open_consumer E clk1 (consumer_builder_new ''worker'') fan of (Inl e, _) \<Rightarrow> None
      | (Inr consumer, fan1) \<Rightarrow>
     (case publish_messages E clk2 fan1 message_count of (False, _) \<Rightarrow> None
      | (True, fan2) \<Rightarrow> Some (drain E horizon rounds consumer message_count batch_size 0 fan2))))"

text \<open>The end of \<open>main\<close>: what an inactive consumer is owed, and how many deliveries are stored for it.\<close>

definition inactive_backlog :: "engine \<Rightarrow> clock \<Rightarrow> (nat \<Rightarrow> clock) \<Rightarrow> clock \<Rightarrow> nat \<Rightarrow> (nat \<times> nat) option" where
  "inactive_backlog E clk1 clk2 clk3 message_count =
     (case new_database of None \<Rightarrow> None
      | Some fan \<Rightarrow>
     (case open_consumer E clk1 (consumer_builder_new ''inactive'') fan of (Inl e, _) \<Rightarrow> None
      | (Inr inactive, fan1) \<Rightarrow>
     (case publish_messages E clk2 fan1 message_count of (False, _) \<Rightarrow> None
      | (True, fan2) \<Rightarrow>
     (case consumer_snapshot clk3 inactive fan2 of Inl e \<Rightarrow> None
      | Inr s \<Rightarrow> Some (cs_outstanding s, length (t_deliveries (lf_pool fan2)))))))"

lemma new_database_opens:
  obtains fan where "new_database = Some fan" "fan_inv fan" "lf_pool fan = empty_database" "lf_max_batch_size fan = 500"
    "lf_idempotency_window_ms fan = 86400000"
proof -
  obtain fan created where run: "open_default missing_file = (Inr fan, created)" "lf_max_batch_size fan = 500"
    "lf_idempotency_window_ms fan = 86400000"
    by (simp add: open_default_def open_with_config_eq script_fits_empty probes_fit_empty opened_store_def
        default_config_def validate_config_def as_millis_def
        duration_from_secs_def duration_from_millis_def i64_try_from_def in_i64_def i64_min_def i64_max_def
        missing_file_def schema_version_def)
  note run' = run(1) [unfolded open_default_def]
  show thesis
    by (rule that [OF _ open_with_config_inv [OF run'] _ run(2,3)])
      (use run(1) open_with_config_Inr(2) [OF run'] in \<open>simp_all add: new_database_def missing_file_def empty_database_inv\<close>)
qed

lemma empty_sequences: "seq_consumers empty_database = 0" "seq_messages empty_database = 0"
  "t_deliveries empty_database = []" "t_consumers empty_database = []" "t_idempotency empty_database = []"
  by (simp_all add: empty_database_def)

text \<open>What a consumer without a filter is owed once a backlog is published on a new store.\<close>

definition owes_backlog :: "nat \<Rightarrow> litefan \<Rightarrow> consumer \<Rightarrow> bool" where
  "owes_backlog n fan self \<longleftrightarrow> (\<exists>b. inboxes (lf_pool fan) (co_id self) = Some b \<and> ib_owed b = {1..int n})"

lemma backlog_owed:
  assumes "backlog n None fan fan'" and "seq_messages (lf_pool fan) = 0"
    and "inboxes (lf_pool fan) (co_id self) = Some (empty_inbox FilterAll)"
  shows "owes_backlog n fan' self"
proof -
  have "{p \<in> posts 0 n None. topic_matches None (snd p)} = posts 0 n None" by (simp add: topic_matches_def)
  moreover have "fst ` posts 0 n None = {1..int n}" by (simp add: posts_def image_image)
  ultimately show ?thesis
    using assms by (simp add: owes_backlog_def backlog_def empty_inbox_def deposit_def)
qed

lemma owes_backlog_workload:
  assumes "fan_inv fan" and "owes_backlog n fan self" and "t_deliveries (lf_pool fan) = []"
  shows "workload (co_id self) 0 (lf_pool fan) {1..int n}"
  using assms by (auto simp: workload_inbox [OF fan_invD(1) [OF assms(1)]] owes_backlog_def deliveries_of_def)

lemma preload_works:
  assumes E: "engine_ok E" and clk: "\<forall>i. \<exists>t. now_ms (clk1 i) = Inr t" "\<forall>i. \<exists>t. now_ms (clk2 i) = Inr t"
    and size: "int consumer_count \<le> i64_max" "int messages \<le> i64_max"
  obtains consumers fan where "preload_backlog E clk1 clk2 consumer_count messages = Some (consumers, fan)"
    "fan_inv fan" "lf_max_batch_size fan = 500" "t_deliveries (lf_pool fan) = []" "length consumers = consumer_count"
    "distinct (map co_id consumers)" "\<forall>self \<in> set consumers. owes_backlog messages fan self"
proof -
  obtain fan where fan: "new_database = Some fan" "fan_inv fan" "lf_pool fan = empty_database" "lf_max_batch_size fan = 500"
    "lf_idempotency_window_ms fan = 86400000"
    by (rule new_database_opens)
  have free: "consumer_name ` set [0..<consumer_count] \<inter> cr_name ` set (t_consumers (lf_pool fan)) = {}"
    "seq_consumers (lf_pool fan) + int (length [0..<consumer_count]) \<le> i64_max"
    using size(1) by (simp_all add: fan(3) empty_sequences)
  obtain cs fan1 where c: "create_consumers E clk1 fan consumer_count FilterAll = (Some cs, fan1)" "fan_inv fan1"
    "length cs = consumer_count" "map co_id cs = map (\<lambda>i. seq_consumers (lf_pool fan) + 1 + int i) [0..<consumer_count]"
    "\<forall>c \<in> set cs. inboxes (lf_pool fan1) (co_id c) = Some (empty_inbox FilterAll)" "t_deliveries (lf_pool fan1) = []"
    "seq_messages (lf_pool fan1) = 0" "lf_max_batch_size fan1 = 500"
    using create_each_works [OF clk(1) fan(2) distinct_upt free, of E FilterAll]
    by (auto simp: create_consumers_def fan(3,4) empty_sequences)
  have b: "0 < (500 :: nat)" "500 \<le> lf_max_batch_size fan1" "seq_messages (lf_pool fan1) + int messages \<le> i64_max"
    using c(7,8) size(2) by simp_all
  obtain fan2 where p: "publish_batches E clk2 fan1 messages 500 None [120] = (True, fan2)" "backlog messages None fan1 fan2"
    using publish_batches_backlog [OF E clk(2) c(2) b] by blast
  show thesis
  proof (rule that)
    show "preload_backlog E clk1 clk2 consumer_count messages = Some (cs, fan2)"
      using p(2) by (simp add: preload_backlog_def fan(1) c(1,6) p(1) backlog_def)
    show "distinct (map co_id cs)" unfolding c(4) by (simp add: distinct_map inj_on_def)
    show "\<forall>self \<in> set cs. owes_backlog messages fan2 self" using backlog_owed [OF p(2) c(7)] c(5) by blast
  qed (use p(2) c in \<open>simp_all add: backlog_def\<close>)
qed


text \<open>The workers of other consumers keep a consumer's inbox: the transactions of their polls and
  their acknowledgements.\<close>

definition performed :: "action \<Rightarrow> litefan \<Rightarrow> database \<Rightarrow> database" where
  "performed a fan db = lf_pool (perform a (fan\<lparr>lf_pool := db\<rparr>))"

lemma keeps_claim:
  assumes inv: "fan_inv fan" and E: "engine_ok E" and n: "n \<le> lf_max_batch_size fan" and other: "co_id other \<noteq> cid"
  shows "keeps cid (performed (DoClaim E other n now v) fan)"
  unfolding keeps_def
proof (intro allI impI)
  fix db assume db: "db_inv db"
  let ?fan = "fan\<lparr>lf_pool := db\<rparr>"
  have inv': "fan_inv ?fan" and n': "n \<le> lf_max_batch_size ?fan" using inv db n by (simp_all add: fan_inv_update(2))
  have ok: "action_ok ?fan (DoClaim E other n now v)" using E n by simp
  have "deliveries_of (lf_pool (perform (DoClaim E other n now v) ?fan)) cid = deliveries_of db cid"
    using inv' E n'
  proof (cases rule: pool_claim [where self = other and now = now and v = v])
    case (leased c)
    have "belongings cid (claimed_db c now v n db) = belongings cid db"
      by (rule belongings_claimed [OF db]) (use leased(2) other in simp)
    then show ?thesis unfolding leased(4) by (simp add: belongings_def)
  next
    case refused
    show ?thesis unfolding refused by simp
  qed
  then show "db_inv (performed (DoClaim E other n now v) fan db) \<and>
      deliveries_of (performed (DoClaim E other n now v) fan db) cid = deliveries_of db cid \<and>
      inboxes (performed (DoClaim E other n now v) fan db) cid = inboxes db cid"
    using fan_invD(1) [OF perform_inv [OF inv' ok]] perform_simulates [OF inv' ok]
    by (simp add: performed_def del: perform.simps)
qed

lemma keeps_ack:
  assumes inv: "fan_inv fan" and other: "co_id other \<noteq> cid"
  shows "keeps cid (performed (DoAck other rs) fan)"
  unfolding keeps_def
proof (intro allI impI)
  fix db assume db: "db_inv db"
  let ?fan = "fan\<lparr>lf_pool := db\<rparr>"
  have inv': "fan_inv ?fan" using inv db by (simp add: fan_inv_update(2))
  have ok: "action_ok ?fan (DoAck other rs)" by simp
  have "deliveries_of (lf_pool (perform (DoAck other rs) ?fan)) cid = deliveries_of db cid"
  proof (rule ack_op.outcome_cases [of _ _ ?fan])
    fix x assume "ack_batch other rs ?fan = (Inr x, perform (DoAck other rs) ?fan)"
    from pool_ack [OF inv' this] show ?thesis
      using belongings_acked [OF other, of rs db] by (simp add: belongings_def del: perform.simps)
  qed simp
  moreover have "apply_event (event_of ?fan (DoAck other rs)) ib cid = ib cid" for ib
    using other by (auto simp: update_inbox_def split: sum.splits)
  ultimately show "db_inv (performed (DoAck other rs) fan db) \<and>
      deliveries_of (performed (DoAck other rs) fan db) cid = deliveries_of db cid \<and>
      inboxes (performed (DoAck other rs) fan db) cid = inboxes db cid"
    using fan_invD(1) [OF perform_inv [OF inv' ok]] perform_simulates [OF inv' ok]
    by (simp add: performed_def del: perform.simps event_of.simps)
qed

text \<open>The first consumer of a new store, and a backlog for it.\<close>

lemma single_consumer:
  assumes clk: "now_ms clk = Inr t" and name: "name \<noteq> []"
  obtains fan c fan1 where "new_database = Some fan" "open_consumer E clk (consumer_builder_new name) fan = (Inr c, fan1)"
    "fan_inv fan1" "co_id c = 1" "lf_max_batch_size fan1 = 500" "seq_messages (lf_pool fan1) = 0" "t_deliveries (lf_pool fan1) = []"
    "inboxes (lf_pool fan1) (co_id c) = Some (empty_inbox FilterAll)"
    "t_idempotency (lf_pool fan1) = []" "lf_idempotency_window_ms fan1 = 86400000"
proof -
  obtain fan where fan: "new_database = Some fan" "fan_inv fan" "lf_pool fan = empty_database" "lf_max_batch_size fan = 500"
    "lf_idempotency_window_ms fan = 86400000"
    by (rule new_database_opens)
  obtain c fan1 where c: "open_consumer E clk (consumer_builder_new name) fan = (Inr c, fan1)" "fan_inv fan1"
    "co_id c = 1" "lf_max_batch_size fan1 = 500" "lf_pool fan1 = created_db name None t empty_database"
    "lf_idempotency_window_ms fan1 = 86400000"
    by (rule open_new [OF fan(2) _ _ _ clk, of "consumer_builder_new name" E])
      (simp_all add: name fan(3-5) empty_sequences consumer_builder_new_def)
  have "seq_messages (lf_pool fan1) = 0" "t_deliveries (lf_pool fan1) = []"
    "inboxes (lf_pool fan1) (co_id c) = Some (empty_inbox FilterAll)" "t_idempotency (lf_pool fan1) = []"
    unfolding c(3,5) inboxes_created [OF empty_database_inv] by (simp_all add: created_db_def empty_sequences empty_inbox_def)
  from that [OF fan(1) c(1-4) this c(6)] show thesis .
qed

lemma single_backlog:
  assumes E: "engine_ok E" and clk: "now_ms clk1 = Inr t" "\<forall>i. \<exists>t. now_ms (clk2 i) = Inr t"
    and name: "name \<noteq> []" and size: "int n \<le> i64_max"
  obtains fan c fan1 fan2 where "new_database = Some fan" "open_consumer E clk1 (consumer_builder_new name) fan = (Inr c, fan1)"
    "publish_messages E clk2 fan1 n = (True, fan2)" "co_id c = 1" "fan_inv fan2" "lf_max_batch_size fan2 = 500"
    "t_deliveries (lf_pool fan2) = []" "owes_backlog n fan2 c"
proof -
  obtain fan c fan1 where c: "new_database = Some fan" "open_consumer E clk1 (consumer_builder_new name) fan = (Inr c, fan1)"
    "fan_inv fan1" "co_id c = 1" "lf_max_batch_size fan1 = 500" "seq_messages (lf_pool fan1) = 0" "t_deliveries (lf_pool fan1) = []"
    "inboxes (lf_pool fan1) (co_id c) = Some (empty_inbox FilterAll)" "t_idempotency (lf_pool fan1) = []"
    "lf_idempotency_window_ms fan1 = 86400000"
    by (rule single_consumer [OF clk(1) name])
  have "seq_messages (lf_pool fan1) + int n \<le> i64_max" using c(6) size by simp
  then obtain fan2 where p: "publish_messages E clk2 fan1 n = (True, fan2)" "backlog n None fan1 fan2"
    using publish_messages_backlog [OF E clk(2) c(3)] by blast
  show thesis
    by (rule that [OF c(1,2) p(1) c(4)]) (use p(2) c(5,7) backlog_owed [OF p(2) c(6,8)] in \<open>simp_all add: backlog_def\<close>)
qed

lemma consumer_rows:
  assumes "consumers_inv db" and "c \<in> set (t_consumers db)"
  shows "filter (\<lambda>x. cr_id x = cr_id c) (t_consumers db) = [c]"
proof -
  have "distinct (map cr_id cs) \<Longrightarrow> c \<in> set cs \<Longrightarrow> filter (\<lambda>x. cr_id x = cr_id c) cs = [c]" for cs
    by (induction cs) (auto simp: filter_empty_conv image_iff)
  with assms show ?thesis by (simp add: consumers_inv_def)
qed

text \<open>The snapshot of a consumer counts its inbox.\<close>

lemma consumer_snapshot_counts:
  assumes inv: "fan_inv fan" and clk: "now_ms clk = Inr now" and b: "inboxes (lf_pool fan) (co_id self) = Some b"
  shows "\<exists>s. consumer_snapshot clk self fan = Inr s \<and> cs_outstanding s = card (ib_owed b)"
proof -
  note db = fan_invD(1) [OF inv]
  obtain c where c: "c \<in> set (t_consumers (lf_pool fan))" "cr_id c = co_id self" "b = inbox_of (lf_pool fan) c"
    using b inboxes_Some [OF db_invD(2) [OF db]] by blast
  have rows: "filter (\<lambda>x. cr_id x = co_id self) (t_consumers (lf_pool fan)) = [c]"
    using consumer_rows [OF db_invD(2) [OF db] c(1)] c(2) by simp
  obtain s where "snapshot_row (lf_pool fan) now c = Inr s" "cs_outstanding s = outstanding_of (lf_pool fan) c"
    by (simp add: snapshot_row_def Let_def outstanding_of_def)
  then show ?thesis
    using outstanding_owed [OF db c(1)] c(3)
    by (simp add: consumer_snapshot_def clk fetch_consumer_snapshots_def rows inbox_of_def)
qed

subsection \<open>Idle pollers\<close>

definition idle_poll :: poll_opts where
  "idle_poll = \<lparr>po_max_messages = 1, po_visibility_timeout = duration_from_secs 60,
     po_wait = duration_from_millis 500\<rparr>"

text \<open>The consumers of \<open>idle_timeout\<close>, and the task of one: its poll, which must return nothing.\<close>

definition idle_pollers :: "engine \<Rightarrow> (nat \<Rightarrow> clock) \<Rightarrow> nat \<Rightarrow> (consumer list \<times> litefan) option" where
  "idle_pollers E clk poller_count =
     (case new_database of None \<Rightarrow> None
      | Some fan \<Rightarrow>
     (case create_consumers E clk fan poller_count FilterAll of (None, _) \<Rightarrow> None
      | (Some consumers, fan1) \<Rightarrow> Some (consumers, fan1)))"

definition idle_task :: "engine \<Rightarrow> nat \<Rightarrow> nat \<Rightarrow> tick list \<Rightarrow> consumer \<Rightarrow> litefan \<Rightarrow> bool option" where
  "idle_task E horizon start ticks self fan =
     (case fst (poll E horizon start ticks self idle_poll fan) of
        None \<Rightarrow> None
      | Some (Inl e) \<Rightarrow> Some False
      | Some (Inr deliveries) \<Rightarrow> Some (deliveries = []))"

lemma idle_pollers_work:
  assumes E: "engine_ok E" and clk: "\<forall>i. \<exists>t. now_ms (clk i) = Inr t" and size: "int poller_count \<le> i64_max"
  obtains consumers fan where "idle_pollers E clk poller_count = Some (consumers, fan)" "fan_inv fan" "lf_max_batch_size fan = 500"
    "length consumers = poller_count" "\<forall>self \<in> set consumers. workload (co_id self) 0 (lf_pool fan) {}"
proof -
  obtain fan where fan: "new_database = Some fan" "fan_inv fan" "lf_pool fan = empty_database" "lf_max_batch_size fan = 500"
    "lf_idempotency_window_ms fan = 86400000"
    by (rule new_database_opens)
  have free: "consumer_name ` set [0..<poller_count] \<inter> cr_name ` set (t_consumers (lf_pool fan)) = {}"
    "seq_consumers (lf_pool fan) + int (length [0..<poller_count]) \<le> i64_max"
    using size by (simp_all add: fan(3) empty_sequences)
  obtain cs fan1 where c: "create_consumers E clk fan poller_count FilterAll = (Some cs, fan1)" "fan_inv fan1"
    "length cs = poller_count" "\<forall>c \<in> set cs. inboxes (lf_pool fan1) (co_id c) = Some (empty_inbox FilterAll)"
    "t_deliveries (lf_pool fan1) = []" "lf_max_batch_size fan1 = 500"
    using create_each_works [OF clk fan(2) distinct_upt free, of E FilterAll]
    by (auto simp: create_consumers_def fan(3,4) empty_sequences)
  show thesis
  proof (rule that)
    show "idle_pollers E clk poller_count = Some (cs, fan1)" by (simp add: idle_pollers_def fan(1) c(1))
    show "\<forall>self \<in> set cs. workload (co_id self) 0 (lf_pool fan1) {}"
      using c(4,5) by (simp add: workload_inbox [OF fan_invD(1) [OF c(2)]] empty_inbox_def deliveries_of_def)
  qed (rule c)+
qed

end
