(* ===== verification/Keyed_Publishing.thy ===== *)
theory Keyed_Publishing
  imports Workloads Idempotency
begin

text \<open>
  \<open>idempotent_publish\<close> of \<open>benchmark.rs\<close>: keyed messages published in chunks, and the same chunks
  again. The lemmas follow what the ledger remembers from one chunk to the next.
\<close>

definition as_bytes :: "utf8 \<Rightarrow> blob" where
  "as_bytes s = map (\<lambda>c. word_of_nat (of_char c)) s"

definition keyed_message :: "nat \<Rightarrow> publish" where
  "keyed_message index =
     \<lparr>pb_topic = None, pb_body = [120], pb_idempotency_key = Some (as_bytes (''message-'' @ decimal index))\<rparr>"

fun publish_chunks :: "engine \<Rightarrow> (nat \<Rightarrow> clock) \<Rightarrow> nat \<Rightarrow> publish list list \<Rightarrow> litefan \<Rightarrow> publish_outcome list option \<times> litefan" where
  "publish_chunks E clk i [] fan = (Some [], fan)"
| "publish_chunks E clk i (ms # mss) fan =
     (case publish_batch E (clk i) ms fan of
        (Inl e, fan1) \<Rightarrow> (None, fan1)
      | (Inr os, fan1) \<Rightarrow> (case publish_chunks E clk (Suc i) mss fan1 of
          (rest, fan2) \<Rightarrow> (map_option ((@) os) rest, fan2)))"

text \<open>
  The handle is dropped at once. The program ignores the outcomes of both passes; the model
  returns them.
\<close>

definition idempotent_publish :: "engine \<Rightarrow> clock \<Rightarrow> (nat \<Rightarrow> clock) \<Rightarrow> (nat \<Rightarrow> clock) \<Rightarrow> nat
    \<Rightarrow> (publish_outcome list \<times> publish_outcome list) option" where
  "idempotent_publish E clk1 clk2 clk3 message_count =
     (let messages = map keyed_message [0..<message_count] in
      case new_database of None \<Rightarrow> None
      | Some fan \<Rightarrow>
     (case open_consumer E clk1 (consumer_builder_new ''worker'') fan of (Inl e, _) \<Rightarrow> None
      | (Inr consumer, fan1) \<Rightarrow>
     (case publish_chunks E clk2 0 (chunks (lf_max_batch_size fan1) messages) (drop_consumer consumer fan1) of (None, _) \<Rightarrow> None
      | (Some inserted, fan2) \<Rightarrow>
     (case publish_chunks E clk3 0 (chunks (lf_max_batch_size fan2) messages) fan2 of (None, _) \<Rightarrow> None
      | (Some duplicates, fan3) \<Rightarrow> Some (inserted, duplicates)))))"

lemma as_bytes_eq [simp]: "as_bytes s = as_bytes t \<longleftrightarrow> s = t"
proof -
  have "c = d" if "word_of_nat (of_char c) = (word_of_nat (of_char d) :: 8 word)" for c d
  proof -
    have small: "of_char c < (256 :: nat)" "of_char d < (256 :: nat)"
      using range_nat_of_char by auto
    have "unat (word_of_nat (of_char c) :: 8 word) = of_char c" "unat (word_of_nat (of_char d) :: 8 word) = of_char d"
      using small by (simp_all add: unat_of_nat)
    with that have "of_char c = (of_char d :: nat)" by metis
    then show ?thesis by simp
  qed
  then have "inj (\<lambda>c. word_of_nat (of_char c) :: 8 word)" by (auto intro: injI)
  then show ?thesis unfolding as_bytes_def by (metis inj_map injD)
qed

lemma keyed_message_keys: "distinct (map pb_idempotency_key (map keyed_message [0..<n]))"
  by (auto simp: distinct_map keyed_message_def inj_on_def)

text \<open>A batch of new keys is published, a batch of known ones is not.\<close>

lemma publish_each_new:
  "\<forall>m \<in> set ms. \<exists>k. pb_idempotency_key m = Some k \<and> L k = None \<Longrightarrow> distinct (map pb_idempotency_key ms) \<Longrightarrow>
   \<exists>L'. publish_each L n ms = (map (\<lambda>i. Published (MessageId i)) [n + 1..n + int (length ms)], ms, L')"
proof (induction ms arbitrary: L n)
  case (Cons m ms)
  then obtain k where k: "pb_idempotency_key m = Some k" "L k = None" by auto
  have "\<forall>x \<in> set ms. \<exists>k'. pb_idempotency_key x = Some k' \<and> (L(k \<mapsto> n + 1)) k' = None"
    using Cons.prems k by (fastforce simp: image_iff)
  from Cons.IH [OF this, of "n + 1"] Cons.prems(2) obtain L' where
    "publish_each (L(k \<mapsto> n + 1)) (n + 1) ms = (map (\<lambda>i. Published (MessageId i)) [n + 1 + 1..n + 1 + int (length ms)], ms, L')"
    by (auto simp del: fun_upd_apply)
  with k show ?case unfolding upto_Cons_length by (simp del: fun_upd_apply)
qed simp

lemma publish_each_again:
  "\<forall>j < length ms. \<exists>k. pb_idempotency_key (ms ! j) = Some k \<and> L k = Some (n + int j) \<Longrightarrow>
   publish_each L s ms = (map (\<lambda>i. Duplicate (MessageId i)) [n..n + int (length ms) - 1], [], L)"
proof (induction ms arbitrary: n)
  case (Cons m ms)
  have first: "\<exists>k. pb_idempotency_key m = Some k \<and> L k = Some n" using Cons.prems [rule_format, of 0] by simp
  have "\<exists>k. pb_idempotency_key (ms ! j) = Some k \<and> L k = Some (n + 1 + int j)" if "j < length ms" for j
    using Cons.prems [rule_format, of "Suc j"] that by (simp add: algebra_simps)
  with Cons.IH [of "n + 1"] have
    "publish_each L s ms = (map (\<lambda>i. Duplicate (MessageId i)) [n + 1..n + 1 + int (length ms) - 1], [], L)" by blast
  moreover have "[n..n + int (length (m # ms)) - 1] = n # [n + 1..n + 1 + int (length ms) - 1]"
    by (simp add: upto_rec1 algebra_simps)
  ultimately show ?case using first by (auto simp del: length_Cons)
qed simp


text \<open>The messages of a list are remembered under consecutive ids.\<close>

definition knows :: "int \<Rightarrow> publish list \<Rightarrow> int \<Rightarrow> database \<Rightarrow> bool" where
  "knows until ms n db \<longleftrightarrow>
     (\<forall>j < length ms. \<exists>k. pb_idempotency_key (ms ! j) = Some k \<and> remembered k (n + int j) until db)"

definition keeps_memory :: "int \<Rightarrow> database \<Rightarrow> database \<Rightarrow> bool" where
  "keeps_memory until db db' \<longleftrightarrow> (\<forall>k i. remembered k i until db \<longrightarrow> remembered k i until db')"

lemma knows_append: "knows until (ms @ ms') n db \<longleftrightarrow> knows until ms n db \<and> knows until ms' (n + int (length ms)) db"
proof
  assume all: "knows until (ms @ ms') n db"
  have "\<exists>k. pb_idempotency_key (ms' ! j) = Some k \<and> remembered k (n + int (length ms) + int j) until db" if "j < length ms'" for j
    using all [unfolded knows_def, rule_format, of "length ms + j"] that by (simp add: add.assoc)
  moreover have "knows until ms n db" using all by (auto simp: knows_def nth_append split: if_splits)
  ultimately show "knows until ms n db \<and> knows until ms' (n + int (length ms)) db" by (simp add: knows_def)
next
  assume both: "knows until ms n db \<and> knows until ms' (n + int (length ms)) db"
  have "\<exists>k. pb_idempotency_key ((ms @ ms') ! j) = Some k \<and> remembered k (n + int j) until db" if "j < length (ms @ ms')" for j
  proof (cases "j < length ms")
    case True
    with both show ?thesis by (auto simp: knows_def nth_append)
  next
    case False
    have "n + int (length ms) + int (j - length ms) = n + int j" using False by simp
    with both [unfolded knows_def, THEN conjunct2, rule_format, of "j - length ms"] that False show ?thesis
      by (simp add: nth_append)
  qed
  then show "knows until (ms @ ms') n db" by (simp add: knows_def)
qed

lemma knows_kept: "knows until ms n db \<Longrightarrow> keeps_memory until db db' \<Longrightarrow> knows until ms n db'"
  by (auto simp: knows_def keeps_memory_def)

lemma keeps_memory_trans: "keeps_memory until a b \<Longrightarrow> keeps_memory until b c \<Longrightarrow> keeps_memory until a c"
  by (simp add: keeps_memory_def)

lemma publish_keeps_memory:
  assumes inv: "fan_inv fan" and E: "engine_ok E" and run: "publish_batch E clk ms fan = (r, fan')"
    and t: "now_ms clk = Inr t" "t < until"
  shows "keeps_memory until (lf_pool fan) (lf_pool fan')"
  unfolding keeps_memory_def
proof (intro allI impI)
  fix k i assume rem: "remembered k i until (lf_pool fan)"
  have ok: "action_ok fan (DoPublish E clk ms)" "\<not> publishes_after until (DoPublish E clk ms)" using E t by simp_all
  show "remembered k i until (lf_pool fan')" using remembered_perform [OF inv ok(1) rem ok(2)] run by simp
qed

lemma new_batch:
  assumes inv: "fan_inv fan" and E: "engine_ok E" and ms: "ms \<noteq> []" "length ms \<le> lf_max_batch_size fan"
    and keys: "\<forall>m \<in> set ms. \<exists>k. pb_idempotency_key m = Some k \<and> k \<notin> ir_key ` set (t_idempotency (lf_pool fan))"
      "distinct (map pb_idempotency_key ms)"
    and t: "now_ms clk = Inr t" "t < until" "until \<le> t + lf_idempotency_window_ms fan" "t + lf_idempotency_window_ms fan \<le> i64_max"
    and cap: "seq_messages (lf_pool fan) + int (length ms) \<le> i64_max"
  shows "\<exists>fan'. publish_batch E clk ms fan
      = (Inr (map (\<lambda>i. Published (MessageId i)) [seq_messages (lf_pool fan) + 1..seq_messages (lf_pool fan) + int (length ms)]), fan') \<and>
    fan_inv fan' \<and> lf_idempotency_window_ms fan' = lf_idempotency_window_ms fan \<and> lf_max_batch_size fan' = lf_max_batch_size fan \<and>
    seq_messages (lf_pool fan') = seq_messages (lf_pool fan) + int (length ms) \<and>
    knows until ms (seq_messages (lf_pool fan) + 1) (lf_pool fan') \<and>
    ir_key ` set (t_idempotency (lf_pool fan')) \<subseteq> ir_key ` set (t_idempotency (lf_pool fan)) \<union> {k. Some k \<in> pb_idempotency_key ` set ms} \<and>
    keeps_memory until (lf_pool fan) (lf_pool fan')"
proof -
  let ?db = "lf_pool fan" and ?e = "t + lf_idempotency_window_ms fan"
  let ?os = "map (\<lambda>i. Published (MessageId i)) [seq_messages ?db + 1..seq_messages ?db + int (length ms)]"
  note led = db_invD(5) [OF fan_invD(1) [OF inv]]
  have none: "live_ledger t ?db k = None" if "k \<notin> ir_key ` set (t_idempotency ?db)" for k
    using that live_ledger_None [OF led, of t k] by (auto simp: purge_expired_idempotency_def)
  have "\<forall>m \<in> set ms. \<exists>k. pb_idempotency_key m = Some k \<and> live_ledger t ?db k = None" using keys(1) none by blast
  from publish_each_new [OF this keys(2)]
  obtain L' where ref: "publish_each (live_ledger t ?db) (seq_messages ?db) ms = (?os, ms, L')" by blast
  have keyed: "\<not> batch_unkeyed ms" using keys(1) ms(1) by (cases ms) (auto simp: batch_unkeyed_def)
  have "in_i64 ?e" using t(4) fan_invD(5) [OF inv] now_ms_bounds [OF t(1)] by (simp add: in_i64_def i64_min_def)
  with keyed_batch_eq [OF inv E ms keyed t(1) ref] cap
  have run: "publish_batch E clk ms fan = (Inr ?os, fan\<lparr>lf_pool := published_db E t ?e ms ?db,
             lf_signals := wake_publishes ms (lf_signals fan)\<rparr>)" (is "_ = (_, ?fan)") by simp
  have ledger: "t_idempotency (lf_pool ?fan) = t_idempotency (purge_expired_idempotency t ?db) @ map (ledger_entry ?e L') (reserved_keys E t ms ?db)"
    using keyed by (simp add: published_db_def keyed_result_ref [OF ref])
  have reserved: "k \<in> set (reserved_keys E t ms ?db) \<longleftrightarrow> live_ledger t ?db k = None \<and> (\<exists>m \<in> set ms. pb_idempotency_key m = Some k)" for k
    using batch_keys_facts(2) [OF E, of ms] by (auto simp: reserved_keys_def)
  have "\<exists>k. pb_idempotency_key (ms ! j) = Some k \<and> remembered k (seq_messages ?db + 1 + int j) until (lf_pool ?fan)" if j: "j < length ms" for j
  proof -
    obtain k where k: "pb_idempotency_key (ms ! j) = Some k" "k \<notin> ir_key ` set (t_idempotency ?db)" using keys(1) j nth_mem by blast
    have "(Published (MessageId (seq_messages ?db + 1 + int j)), ms ! j) \<in> set (zip ?os ms)"
      unfolding in_set_zip
    proof (intro exI [of _ j] conjI)
      have "seq_messages ?db + 1 + int j \<le> seq_messages ?db + int (length ms)" using j by linarith
      then show "?os ! j = fst (Published (MessageId (seq_messages ?db + 1 + int j)), ms ! j)"
        using j by (simp add: nth_upto)
    qed (use j in simp_all)
    from publish_each_published [OF ref this k(1)] have "L' k = Some (seq_messages ?db + 1 + int j)" by blast
    moreover have "k \<in> set (reserved_keys E t ms ?db)" using reserved none [OF k(2)] k(1) j nth_mem by blast
    ultimately have "remembered k (seq_messages ?db + 1 + int j) until (lf_pool ?fan)"
      unfolding remembered_def ledger using t(3)
      by (intro bexI [of _ "ledger_entry ?e L' k"]) (simp_all, simp add: ledger_entry_def)
    with k(1) show ?thesis by blast
  qed
  then have "knows until ms (seq_messages ?db + 1) (lf_pool ?fan)" by (simp add: knows_def)
  moreover have "ir_key ` set (t_idempotency (lf_pool ?fan)) \<subseteq> ir_key ` set (t_idempotency ?db) \<union> {k. Some k \<in> pb_idempotency_key ` set ms}"
  proof -
    have "ir_key ` set (t_idempotency (lf_pool ?fan))
        = ir_key ` set (t_idempotency (purge_expired_idempotency t ?db)) \<union> set (reserved_keys E t ms ?db)"
      unfolding ledger by (simp add: image_Un image_image ledger_entry_def)
    moreover have "ir_key ` set (t_idempotency (purge_expired_idempotency t ?db)) \<subseteq> ir_key ` set (t_idempotency ?db)"
      by (rule image_mono) (auto simp: purge_expired_idempotency_def)
    moreover have "set (reserved_keys E t ms ?db) \<subseteq> {k. Some k \<in> pb_idempotency_key ` set ms}"
      using reserved by (metis (mono_tags) image_eqI mem_Collect_eq subsetI)
    ultimately show ?thesis by blast
  qed
  moreover have "seq_messages (lf_pool ?fan) = seq_messages ?db + int (length ms)" by (simp add: published_db_simps [OF ref])
  ultimately show ?thesis
    using run publish_batch_inv [OF inv E run] publish_keeps_memory [OF inv E run t(1,2)] by simp
qed

lemma known_batch:
  assumes inv: "fan_inv fan" and E: "engine_ok E" and ms: "ms \<noteq> []" "length ms \<le> lf_max_batch_size fan"
    and known: "knows until ms n (lf_pool fan)"
    and t: "now_ms clk = Inr t" "t < until" "t + lf_idempotency_window_ms fan \<le> i64_max"
  shows "\<exists>fan'. publish_batch E clk ms fan
      = (Inr (map (\<lambda>i. Duplicate (MessageId i)) [n..n + int (length ms) - 1]), fan') \<and>
    fan_inv fan' \<and> lf_idempotency_window_ms fan' = lf_idempotency_window_ms fan \<and> lf_max_batch_size fan' = lf_max_batch_size fan \<and>
    keeps_memory until (lf_pool fan) (lf_pool fan')"
proof -
  let ?db = "lf_pool fan" and ?e = "t + lf_idempotency_window_ms fan"
  let ?os = "map (\<lambda>i. Duplicate (MessageId i)) [n..n + int (length ms) - 1]"
  note led = db_invD(5) [OF fan_invD(1) [OF inv]]
  have "live_ledger t ?db k = Some i" if "remembered k i until ?db" for k i
    using that t(2) live_ledger_SomeI [OF led] by (fastforce simp: remembered_def)
  then have "\<forall>j < length ms. \<exists>k. pb_idempotency_key (ms ! j) = Some k \<and> live_ledger t ?db k = Some (n + int j)"
    using known by (auto simp: knows_def)
  note ref = publish_each_again [OF this, of "seq_messages ?db"]
  have "\<exists>k. pb_idempotency_key (ms ! 0) = Some k" using known ms(1) by (auto simp: knows_def)
  then have keyed: "\<not> batch_unkeyed ms" using ms(1) by (cases ms) (auto simp: batch_unkeyed_def)
  have "in_i64 ?e" using t(3) fan_invD(5) [OF inv] now_ms_bounds [OF t(1)] by (simp add: in_i64_def i64_min_def)
  moreover have "seq_messages ?db \<le> i64_max" using db_invD(1) [OF fan_invD(1) [OF inv]] by (simp add: messages_inv_def)
  ultimately have run: "publish_batch E clk ms fan = (Inr ?os, fan\<lparr>lf_pool := published_db E t ?e ms ?db,
             lf_signals := wake_publishes [] (lf_signals fan)\<rparr>)"
    using keyed_batch_eq [OF inv E ms keyed t(1) ref] by simp
  then show ?thesis
    using publish_batch_inv [OF inv E run] publish_keeps_memory [OF inv E run t(1,2)] by simp
qed


lemma upto_append: "[a..a + int p - 1] @ [a + int p..a + int p + int q - 1] = [a..a + int (p + q) - 1]"
  by (cases "q = 0"; cases "p = 0")
    (use upto_split1 [of a "a + int p" "a + int (p + q) - 1"] in \<open>simp_all add: algebra_simps\<close>)

text \<open>Clock readings within the window that the earliest of them opens.\<close>

definition within_window :: "int \<Rightarrow> int \<Rightarrow> (nat \<Rightarrow> clock) \<Rightarrow> bool" where
  "within_window w until clk \<longleftrightarrow> (\<forall>i. \<exists>t. now_ms (clk i) = Inr t \<and> t < until \<and> until \<le> t + w \<and> t + w \<le> i64_max)"

lemma first_pass:
  assumes E: "engine_ok E" and clk: "within_window w until clk"
  shows "fan_inv fan \<Longrightarrow> lf_idempotency_window_ms fan = w \<Longrightarrow> \<forall>ms \<in> set mss. ms \<noteq> [] \<and> length ms \<le> lf_max_batch_size fan \<Longrightarrow>
    \<forall>m \<in> set (concat mss). \<exists>k. pb_idempotency_key m = Some k \<and> k \<notin> ir_key ` set (t_idempotency (lf_pool fan)) \<Longrightarrow>
    distinct (map pb_idempotency_key (concat mss)) \<Longrightarrow>
    seq_messages (lf_pool fan) + int (length (concat mss)) \<le> i64_max \<Longrightarrow>
    \<exists>fan'. publish_chunks E clk i mss fan = (Some (map (\<lambda>i. Published (MessageId i))
        [seq_messages (lf_pool fan) + 1..seq_messages (lf_pool fan) + int (length (concat mss))]), fan') \<and>
      fan_inv fan' \<and> lf_idempotency_window_ms fan' = w \<and> lf_max_batch_size fan' = lf_max_batch_size fan \<and>
      knows until (concat mss) (seq_messages (lf_pool fan) + 1) (lf_pool fan') \<and> keeps_memory until (lf_pool fan) (lf_pool fan')"
proof (induction mss arbitrary: i fan)
  case Nil
  then show ?case by (simp add: knows_def keeps_memory_def)
next
  case (Cons ms mss)
  let ?s = "seq_messages (lf_pool fan)" and ?keys = "ir_key ` set (t_idempotency (lf_pool fan))"
  obtain t where t: "now_ms (clk i) = Inr t" "t < until" "until \<le> t + lf_idempotency_window_ms fan" "t + lf_idempotency_window_ms fan \<le> i64_max"
    using clk Cons.prems(2) unfolding within_window_def by blast
  have ms: "ms \<noteq> []" "length ms \<le> lf_max_batch_size fan"
    "\<forall>m \<in> set ms. \<exists>k. pb_idempotency_key m = Some k \<and> k \<notin> ?keys" "distinct (map pb_idempotency_key ms)"
    "?s + int (length ms) \<le> i64_max"
    using Cons.prems(3-6) by auto
  obtain fan1 where one: "publish_batch E (clk i) ms fan = (Inr (map (\<lambda>i. Published (MessageId i)) [?s + 1..?s + int (length ms)]), fan1)"
    "fan_inv fan1" "lf_idempotency_window_ms fan1 = w" "lf_max_batch_size fan1 = lf_max_batch_size fan"
    "seq_messages (lf_pool fan1) = ?s + int (length ms)" "knows until ms (?s + 1) (lf_pool fan1)"
    "ir_key ` set (t_idempotency (lf_pool fan1)) \<subseteq> ?keys \<union> {k. Some k \<in> pb_idempotency_key ` set ms}"
    "keeps_memory until (lf_pool fan) (lf_pool fan1)"
    using new_batch [OF Cons.prems(1) E ms(1,2,3,4) t ms(5)] Cons.prems(2) by auto
  have new: "\<forall>m \<in> set (concat mss). \<exists>k. pb_idempotency_key m = Some k \<and> k \<notin> ir_key ` set (t_idempotency (lf_pool fan1))"
  proof
    fix m assume m: "m \<in> set (concat mss)"
    then obtain k where k: "pb_idempotency_key m = Some k" "k \<notin> ?keys" using Cons.prems(4) by auto
    moreover have "pb_idempotency_key m \<notin> pb_idempotency_key ` set ms" using Cons.prems(5) m by (auto simp: image_iff)
    ultimately show "\<exists>k. pb_idempotency_key m = Some k \<and> k \<notin> ir_key ` set (t_idempotency (lf_pool fan1))" using one(7) by auto
  qed
  have rest: "\<forall>ms \<in> set mss. ms \<noteq> [] \<and> length ms \<le> lf_max_batch_size fan1" "distinct (map pb_idempotency_key (concat mss))"
    "seq_messages (lf_pool fan1) + int (length (concat mss)) \<le> i64_max"
    using Cons.prems(3,5,6) one(4,5) by simp_all
  obtain fan2 where two: "publish_chunks E clk (Suc i) mss fan1 = (Some (map (\<lambda>i. Published (MessageId i))
        [?s + int (length ms) + 1..?s + int (length ms) + int (length (concat mss))]), fan2)"
    "fan_inv fan2" "lf_idempotency_window_ms fan2 = w" "lf_max_batch_size fan2 = lf_max_batch_size fan"
    "knows until (concat mss) (?s + int (length ms) + 1) (lf_pool fan2)" "keeps_memory until (lf_pool fan1) (lf_pool fan2)"
    using Cons.IH [OF one(2,3) rest(1) new rest(2,3), of "Suc i"] one(4,5) by auto
  have "knows until (concat (ms # mss)) (?s + 1) (lf_pool fan2)"
    using knows_kept [OF one(6) two(6)] two(5) by (simp add: knows_append algebra_simps)
  moreover have "[?s + 1..?s + int (length (concat (ms # mss)))]
      = [?s + 1..?s + int (length ms)] @ [?s + int (length ms) + 1..?s + int (length ms) + int (length (concat mss))]"
    using upto_append [of "?s + 1" "length ms" "length (concat mss)"] by (simp add: algebra_simps)
  ultimately show ?case
    using one(1) two keeps_memory_trans [OF one(8) two(6)] by simp
qed

lemma second_pass:
  assumes E: "engine_ok E" and clk: "within_window w until clk"
  shows "fan_inv fan \<Longrightarrow> lf_idempotency_window_ms fan = w \<Longrightarrow> \<forall>ms \<in> set mss. ms \<noteq> [] \<and> length ms \<le> lf_max_batch_size fan \<Longrightarrow>
    knows until (concat mss) n (lf_pool fan) \<Longrightarrow>
    \<exists>fan'. publish_chunks E clk i mss fan = (Some (map (\<lambda>i. Duplicate (MessageId i)) [n..n + int (length (concat mss)) - 1]), fan')"
proof (induction mss arbitrary: i n fan)
  case (Cons ms mss)
  obtain t where t: "now_ms (clk i) = Inr t" "t < until" "t + lf_idempotency_window_ms fan \<le> i64_max"
    using clk Cons.prems(2) unfolding within_window_def by blast
  have ms: "ms \<noteq> []" "length ms \<le> lf_max_batch_size fan" and known: "knows until ms n (lf_pool fan)"
    "knows until (concat mss) (n + int (length ms)) (lf_pool fan)"
    using Cons.prems(3,4) by (simp_all add: knows_append)
  obtain fan1 where one: "publish_batch E (clk i) ms fan = (Inr (map (\<lambda>i. Duplicate (MessageId i)) [n..n + int (length ms) - 1]), fan1)"
    "fan_inv fan1" "lf_idempotency_window_ms fan1 = w" "lf_max_batch_size fan1 = lf_max_batch_size fan"
    "keeps_memory until (lf_pool fan) (lf_pool fan1)"
    using known_batch [OF Cons.prems(1) E ms known(1) t] Cons.prems(2) by auto
  obtain fan2 where two: "publish_chunks E clk (Suc i) mss fan1
      = (Some (map (\<lambda>i. Duplicate (MessageId i)) [n + int (length ms)..n + int (length ms) + int (length (concat mss)) - 1]), fan2)"
    using Cons.IH [OF one(2,3) _ knows_kept [OF known(2) one(5)], of "Suc i"] Cons.prems(3) one(4) by auto
  have "[n..n + int (length (concat (ms # mss))) - 1]
      = [n..n + int (length ms) - 1] @ [n + int (length ms)..n + int (length ms) + int (length (concat mss)) - 1]"
    using upto_append [of n "length ms" "length (concat mss)"] by (simp add: algebra_simps)
  with one(1) two show ?case by simp
qed simp


lemma idempotent_publish_works:
  assumes E: "engine_ok E" and clk: "now_ms clk1 = Inr t" "within_window 86400000 until clk2" "within_window 86400000 until clk3"
    and size: "int message_count \<le> i64_max"
  shows "idempotent_publish E clk1 clk2 clk3 message_count
    = Some (map (\<lambda>i. Published (MessageId i)) [1..int message_count], map (\<lambda>i. Duplicate (MessageId i)) [1..int message_count])"
proof -
  have name: "''worker'' \<noteq> []" by simp
  obtain fan c fan1 where c: "new_database = Some fan" "open_consumer E clk1 (consumer_builder_new ''worker'') fan = (Inr c, fan1)"
    "fan_inv fan1" "co_id c = 1" "lf_max_batch_size fan1 = 500" "seq_messages (lf_pool fan1) = 0" "t_deliveries (lf_pool fan1) = []"
    "inboxes (lf_pool fan1) (co_id c) = Some (empty_inbox FilterAll)" "t_idempotency (lf_pool fan1) = []"
    "lf_idempotency_window_ms fan1 = 86400000"
    by (rule single_consumer [OF clk(1) name])
  let ?ms = "map keyed_message [0..<message_count]"
  have all: "concat (chunks 500 ?ms) = ?ms" by simp
  have slices: "\<forall>ms \<in> set (chunks 500 ?ms). ms \<noteq> [] \<and> length ms \<le> 500"
    using chunks_length [of _ 500 ?ms] chunks_nonempty [of _ 500 ?ms] by blast
  let ?fan1 = "drop_consumer c fan1"
  have dropped: "lf_pool ?fan1 = lf_pool fan1" "lf_max_batch_size ?fan1 = 500" "lf_idempotency_window_ms ?fan1 = 86400000"
    using c(5,10) by (simp_all add: drop_consumer_def)
  have first: "\<exists>fan2. publish_chunks E clk2 0 (chunks 500 ?ms) ?fan1
      = (Some (map (\<lambda>i. Published (MessageId i)) [1..int message_count]), fan2) \<and> fan_inv fan2 \<and>
      lf_idempotency_window_ms fan2 = 86400000 \<and> lf_max_batch_size fan2 = 500 \<and> knows until ?ms 1 (lf_pool fan2)"
    using first_pass [OF E clk(2) drop_consumer_inv [OF c(3)] dropped(3), of "chunks 500 ?ms" 0, unfolded all] slices c(6,9) dropped(1,2)
      size keyed_message_keys
    by (auto simp: keyed_message_def)
  then obtain fan2 where one: "publish_chunks E clk2 0 (chunks 500 ?ms) ?fan1
      = (Some (map (\<lambda>i. Published (MessageId i)) [1..int message_count]), fan2)" "fan_inv fan2"
    "lf_idempotency_window_ms fan2 = 86400000" "lf_max_batch_size fan2 = 500" "knows until ?ms 1 (lf_pool fan2)" by blast
  obtain fan3 where "publish_chunks E clk3 0 (chunks 500 ?ms) fan2
      = (Some (map (\<lambda>i. Duplicate (MessageId i)) [1..int message_count]), fan3)"
    using second_pass [OF E clk(3) one(2,3), of "chunks 500 ?ms" 1 0, unfolded all] slices one(4,5) by auto
  then show ?thesis by (simp add: idempotent_publish_def Let_def c(1,2,5) one(1,4))
qed

end
