(* ===== verification/Accounting.thy ===== *)
theory Accounting
  imports Isolation
begin

text \<open>
  The books of a consumer: what publishing and redriving add to its inbox and what
  acknowledging and archiving take out of it, counted by the results the operations return.
\<close>

definition outstanding :: "int \<Rightarrow> litefan \<Rightarrow> nat" where
  "outstanding cid fan = (case inboxes (lf_pool fan) cid of None \<Rightarrow> 0 | Some b \<Rightarrow> card (ib_owed b))"

definition applied_by :: "batch_result handler \<Rightarrow> litefan \<Rightarrow> nat" where
  "applied_by operation fan = (case fst (operation fan) of Inr result \<Rightarrow> br_applied result | Inl e \<Rightarrow> 0)"

definition selected :: "consumer_row \<Rightarrow> publish_outcome \<times> publish \<Rightarrow> bool" where
  "selected c = (\<lambda>(outcome, m). is_published outcome \<and> topic_matches (cr_topic_filter c) (pb_topic m))"

text \<open>What an action adds to the inbox of a consumer, and what it takes out.\<close>

fun received :: "int \<Rightarrow> litefan \<Rightarrow> action \<Rightarrow> nat" where
  "received cid fan (DoPublish E clk ms) =
     (case (fst (publish_batch E clk ms fan), find_consumer cid (lf_pool fan)) of
        (Inr os, Some c) \<Rightarrow> if cr_draining_at c = None then length (filter (selected c) (zip os ms)) else 0
      | _ \<Rightarrow> 0)"
| "received cid fan (DoRedrive E clk self ids retry) =
     (if co_id self = cid then applied_by (redrive_batch E clk self ids retry) fan else 0)"
| "received cid fan _ = 0"

fun settled :: "int \<Rightarrow> litefan \<Rightarrow> action \<Rightarrow> nat" where
  "settled cid fan (DoAck self rs) = (if co_id self = cid then applied_by (ack_batch self rs) fan else 0)"
| "settled cid fan (DoArchive E clk self rs detail) =
     (if co_id self = cid then applied_by (archive_batch_with_detail E clk self rs detail) fan else 0)"
| "settled cid fan _ = 0"

subsection \<open>The result counts are those of the events\<close>

lemma card_held_ids:
  assumes inv: "deliveries_inv db"
  shows "card (held_ids cid rs db) = card (held_leases cid rs db)"
proof -
  let ?D = "filter (receipt_clause cid rs) (t_deliveries db)"
  have "inj_on dr_message_id (set ?D)"
  proof (rule inj_onI)
    fix d d' assume d: "d \<in> set ?D" "d' \<in> set ?D" "dr_message_id d = dr_message_id d'"
    then have "dr_key d = dr_key d'" by (auto simp: dr_key_def receipt_clause_iff)
    with d inv show "d = d'"
      using distinct_map_inj [of dr_key "t_deliveries db" d d'] by (simp add: deliveries_inv_def)
  qed
  then have "card (held_ids cid rs db) = card (set ?D)" by (simp add: held_ids_def card_image)
  also have "\<dots> = length ?D"
    using inv by (intro distinct_card distinct_filter) (simp add: deliveries_inv_def distinct_map)
  finally show ?thesis by (simp add: length_held [OF inv])
qed

lemma held_ids_owed:
  assumes "c \<in> set (t_consumers db)" and "cr_id c = cid"
  shows "held_ids cid rs db \<subseteq> owed db c" "finite (held_ids cid rs db)"
  using assms by (auto simp: held_ids_def owed_def deliveries_of_def receipt_clause_iff)

lemma ack_applied:
  assumes inv: "fan_inv fan" and run: "ack_batch self rs fan = (Inr r, fan')"
  shows "br_applied r = card (held_ids (co_id self) rs (lf_pool fan))"
proof (cases "rs = []")
  case True
  with run show ?thesis by (auto simp: ack_batch_def default_batch_result_def)
next
  case False
  then have "length rs \<le> lf_max_batch_size fan"
    using run by (auto simp: ack_batch_def ensure_batch_size_def split: if_splits)
  from ack_batch_eq [OF inv False this, of self] run show ?thesis
    by (auto simp: batch_result_of_def card_held_ids [OF db_invD(3) [OF fan_invD(1) [OF inv]]])
qed

lemma archive_applied:
  assumes inv: "fan_inv fan" and E: "engine_ok E" and run: "archive_batch_with_detail E clk self rs detail fan = (Inr r, fan')"
  shows "br_applied r = card (held_ids (co_id self) rs (lf_pool fan))"
  using run
  unfolding card_held_ids [OF db_invD(3) [OF fan_invD(1) [OF inv]]]
  by (cases "rs = []") (auto simp: archive_batch_with_detail_def transaction_def archive_txn_eq [OF E fan_invD(1) [OF inv]]
      default_batch_result_def batch_result_of_def held_leases_def
      split: if_splits sum.splits)

lemma card_named_ids:
  assumes inv: "archives_inv db"
  shows "card (named_ids cid ids db) = length (archived_messages cid ids db)"
proof -
  let ?A = "filter (redrive_clause cid ids) (t_archives db)"
  have "set ?A \<subseteq> set (archives_of db cid)" by (auto simp: archives_of_def redrive_clause_def)
  then have "card (named_ids cid ids db) = card (set ?A)"
    unfolding named_ids_def by (intro card_image inj_on_subset [OF archive_messages_inj [OF inv]])
  also have "\<dots> = length ?A"
    using inv by (intro distinct_card distinct_filter) (simp add: archives_inv_def distinct_map)
  finally show ?thesis by (simp add: archived_messages_def)
qed

lemma redrive_applied:
  assumes inv: "fan_inv fan" and E: "engine_ok E" and run: "redrive_batch E clk self ids retry fan = (Inr r, fan')"
  shows "br_applied r = card (named_ids (co_id self) ids (lf_pool fan))"
proof (cases "ids = []")
  case True
  with run show ?thesis by (auto simp: redrive_batch_def default_batch_result_def named_ids_def redrive_clause_def)
next
  case False
  then obtain v n where txn: "redrive_txn E (co_id self) ids v (lf_pool fan) = Inr (n, lf_pool fan')" and n: "br_applied r = n"
    using run by (auto simp: redrive_batch_def transaction_def split: if_splits sum.splits)
  obtain mids where ms: "mset mids = mset (archived_messages (co_id self) ids (lf_pool fan))"
    and "redrive_txn E (co_id self) ids v (lf_pool fan) = Inr (length mids, redriven_db (co_id self) v ids mids (lf_pool fan))"
    by (rule redrive_txn_eq [OF E fan_invD(1) [OF inv]])
  with txn n show ?thesis
    using mset_eq_length [OF ms] card_named_ids [OF db_invD(4) [OF fan_invD(1) [OF inv]]] by simp
qed

text \<open>An archived message is not owed.\<close>

lemma named_ids_not_owed:
  assumes inv: "db_inv db" and c: "c \<in> set (t_consumers db)" "cr_id c = cid"
  shows "named_ids cid ids db \<inter> owed db c = {}" "finite (named_ids cid ids db)"
proof -
  have "ar_message_id a \<notin> owed db c" if a: "a \<in> set (t_archives db)" "ar_consumer_id a = cid" for a
  proof
    assume "ar_message_id a \<in> owed db c"
    then consider d where "d \<in> set (t_deliveries db)" "dr_consumer_id d = cr_id c" "dr_message_id d = ar_message_id a"
      | m where "m \<in> set (unscanned db c)" "mr_id m = ar_message_id a"
      by (auto simp: owed_def deliveries_of_def)
    then show False
    proof cases
      case 1
      with exclusive_keys [OF inv 1(1) a(1)] a(2) c(2) show False by simp
    next
      case 2
      have "passed db cid (ar_message_id a)" using db_invD(4) [OF inv] a by (auto simp: archives_inv_def)
      then obtain x where x: "x \<in> set (t_consumers db)" "cr_id x = cid" "ar_message_id a \<le> cr_scan_cursor x"
        by (auto simp: passed_def)
      then have "x = c" using consumer_unique [OF db_invD(2) [OF inv] c(1) x(1)] c(2) by simp
      with x(3) 2 show False by (auto simp: unscanned_def)
    qed
  qed
  then show "named_ids cid ids db \<inter> owed db c = {}" by (auto simp: named_ids_def redrive_clause_def)
  show "finite (named_ids cid ids db)" by (simp add: named_ids_def)
qed

text \<open>A published message is new to every inbox.\<close>

lemma owed_le:
  assumes inv: "db_inv db" and c: "c \<in> set (t_consumers db)" and i: "i \<in> owed db c"
  shows "i \<le> seq_messages db"
proof -
  have old: "mr_id m \<le> seq_messages db" if "m \<in> set (t_messages db)" for m
    using db_invD(1) [OF inv] that by (auto simp: messages_inv_def)
  from i consider d where "d \<in> set (t_deliveries db)" "dr_message_id d = i" | m where "m \<in> set (t_messages db)" "mr_id m = i"
    by (auto simp: owed_def deliveries_of_def unscanned_def)
  then show ?thesis
  proof cases
    case 1
    then have "passed db (dr_consumer_id d) i" using db_invD(3) [OF inv] by (auto simp: deliveries_inv_def)
    then show ?thesis using old by (auto simp: passed_def)
  next
    case 2
    with old show ?thesis by blast
  qed
qed

lemma posted_count:
  assumes "publish_each L n ms = (os, ps, L')"
  shows "card (fst ` {p \<in> posted_by os ms. topic_matches (cr_topic_filter c) (snd p)}) = length (filter (selected c) (zip os ms))
    \<and> (\<forall>p \<in> posted_by os ms. n < fst p)"
  using assms
proof (induction ms arbitrary: L n os ps)
  case Nil
  then show ?case by (simp add: posted_by_def List.map_filter_simps)
next
  case (Cons m ms)
  have step: "posted_by (x # xs) (m # ms) = (case x of Published i \<Rightarrow> {(message_id_get i, pb_topic m)}
      | Duplicate i \<Rightarrow> {}) \<union> posted_by xs ms" for x xs
    by (cases x) (simp_all add: posted_by_def List.map_filter_simps)
  have fin: "finite (posted_by xs ms)" for xs by (simp add: posted_by_def)
  have new: ?case if os: "os = Published (MessageId (n + 1)) # os1"
    and IH: "card (fst ` {p \<in> posted_by os1 ms. topic_matches (cr_topic_filter c) (snd p)}) = length (filter (selected c) (zip os1 ms))
      \<and> (\<forall>p \<in> posted_by os1 ms. n + 1 < fst p)" for os1
  proof -
    have "fst ` {p \<in> posted_by os (m # ms). topic_matches (cr_topic_filter c) (snd p)}
        = (if topic_matches (cr_topic_filter c) (pb_topic m) then {n + 1} else {})
          \<union> fst ` {p \<in> posted_by os1 ms. topic_matches (cr_topic_filter c) (snd p)}"
      unfolding os step by (force simp: image_iff)
    moreover have "n + 1 \<notin> fst ` {p \<in> posted_by os1 ms. topic_matches (cr_topic_filter c) (snd p)}" using IH by fastforce
    moreover have "finite (fst ` {p \<in> posted_by os1 ms. topic_matches (cr_topic_filter c) (snd p)})" using fin by simp
    moreover have "\<forall>p \<in> posted_by os (m # ms). n < fst p" unfolding os step using IH by fastforce
    ultimately show ?thesis using IH by (simp add: os selected_def)
  qed
  from Cons.prems show ?case
  proof (cases rule: publish_each_ConsE)
    case (unkeyed os1 ps1)
    with Cons.IH new show ?thesis by blast
  next
    case (known k i os1)
    with Cons.IH step show ?thesis by (simp add: selected_def)
  next
    case (first k os1 ps1)
    with Cons.IH new show ?thesis by blast
  qed
qed


subsection \<open>One action\<close>

text \<open>The balance of a consumer over an action.\<close>

definition balanced :: "int \<Rightarrow> litefan \<Rightarrow> action \<Rightarrow> bool" where
  "balanced cid fan a \<longleftrightarrow> inboxes (lf_pool (perform a fan)) cid \<noteq> None \<and>
     outstanding cid (perform a fan) + settled cid fan a = outstanding cid fan + received cid fan a"

lemma balanced_event:
  assumes inv: "fan_inv fan" and ok: "action_ok fan a" and b: "inboxes (lf_pool fan) cid = Some b"
    and b': "apply_event (event_of fan a) (inboxes (lf_pool fan)) cid = Some b'"
    and count: "card (ib_owed b') + settled cid fan a = card (ib_owed b) + received cid fan a"
  shows "balanced cid fan a"
  using b b' count perform_simulates [OF inv ok] by (simp add: balanced_def outstanding_def)

lemma balanced_untouched:
  assumes "fan_inv fan" and "action_ok fan a" and "inboxes (lf_pool fan) cid = Some b"
    and "apply_event (event_of fan a) (inboxes (lf_pool fan)) cid = Some b'" and "ib_owed b' = ib_owed b"
    and "settled cid fan a = 0" "received cid fan a = 0"
  shows "balanced cid fan a"
  using assms by (intro balanced_event [OF assms(1-4)]) simp

lemma balanced_publish:
  assumes inv: "fan_inv fan" and E: "engine_ok E" and b: "inboxes (lf_pool fan) cid = Some b"
  shows "balanced cid fan (DoPublish E clk ms)"
  using inv E
proof (cases rule: pool_publish [where clk = clk and ms = ms])
  case (failed e)
  with b show ?thesis by (simp add: balanced_def)
next
  case empty
  with b show ?thesis by (simp add: balanced_def split: option.splits)
next
  case (published t os ps L')
  note db = fan_invD(1) [OF inv]
  obtain c where c: "c \<in> set (t_consumers (lf_pool fan))" "cr_id c = cid" "b = inbox_of (lf_pool fan) c"
    using b inboxes_Some [OF db_invD(2) [OF db]] by blast
  have find: "find_consumer cid (lf_pool fan) = Some c"
    using find_consumer_Some [OF db_invD(2) [OF db]] c(1,2) by blast
  have os: "fst (publish_batch E clk ms fan) = Inr os" by (metis published(3) fst_conv)
  let ?new = "fst ` {p \<in> posted_by os ms. topic_matches (cr_topic_filter c) (snd p)}"
  note count = posted_count [OF published(1), of c]
  have "?new \<inter> owed (lf_pool fan) c = {}" using count owed_le [OF db c(1)] by fastforce
  moreover have "finite (owed (lf_pool fan) c)" "finite ?new" by (simp_all add: owed_def posted_by_def)
  ultimately have "card (owed (lf_pool fan) c \<union> ?new) = card (owed (lf_pool fan) c) + length (filter (selected c) (zip os ms))"
    using count by (simp add: card_Un_disjoint inf_commute)
  moreover have "apply_event (event_of fan (DoPublish E clk ms)) (inboxes (lf_pool fan)) cid = Some (deposit (posted_by os ms) b)"
    using b os by simp
  moreover have "action_ok fan (DoPublish E clk ms)" using E by simp
  ultimately show ?thesis
    using os find c(3)
    by (intro balanced_event [OF inv _ b]) (auto simp: deposit_def inbox_of_def)
qed

lemma balanced_released:
  assumes c: "c \<in> set (t_consumers db)" "cr_id c = cid" and b: "b = inbox_of db c"
  shows "card (ib_owed b - held_ids cid rs db) + card (held_ids cid rs db) = card (ib_owed b)"
proof -
  have "card (ib_owed b) = card (ib_owed b - held_ids cid rs db) + card (held_ids cid rs db)"
    using held_ids_owed [OF c] card_mono [OF _ held_ids_owed(1) [OF c]]
    by (subst card_Diff_subset) (simp_all add: b inbox_of_def owed_def)
  then show ?thesis by simp
qed

lemma balanced_step:
  assumes inv: "fan_inv fan" and ok: "action_ok fan a" and b: "inboxes (lf_pool fan) cid = Some b"
    and keep: "event_of fan a \<noteq> Removed cid"
  shows "balanced cid fan a"
proof -
  note db = fan_invD(1) [OF inv]
  obtain c where c: "c \<in> set (t_consumers (lf_pool fan))" "cr_id c = cid" "b = inbox_of (lf_pool fan) c"
    using b inboxes_Some [OF db_invD(2) [OF db]] by blast
  note same = balanced_untouched [OF inv ok b]
  have quiet: "event_of fan a = Quiet \<Longrightarrow> settled cid fan a = 0 \<Longrightarrow> received cid fan a = 0 \<Longrightarrow> balanced cid fan a"
    by (rule same [of b]) (simp_all add: b)
  show ?thesis
  proof (cases a)
    case (DoPublish E clk ms)
    with balanced_publish [OF inv _ b] ok show ?thesis by simp
  next
    case (DoAck self rs)
    show ?thesis
    proof (rule ack_op.outcome_cases [of self rs fan])
      fix e assume "fst (ack_batch self rs fan) = Inl e"
      with b DoAck show ?thesis by (intro same [of b]) (auto simp: applied_by_def)
    next
      fix r assume run: "ack_batch self rs fan = (Inr r, perform (DoAck self rs) fan)"
      have res: "fst (ack_batch self rs fan) = Inr r" by (metis run fst_conv)
      show ?thesis
      proof (cases "co_id self = cid")
        case True
        with balanced_released [OF c, of rs] ack_applied [OF inv run] res DoAck b show ?thesis
          by (intro balanced_event [OF inv ok b]) (auto simp: applied_by_def update_inbox_def)
      next
        case False
        with res DoAck b show ?thesis by (intro same [of b]) (auto simp: update_inbox_def)
      qed
    qed
  next
    case (DoArchive E clk self rs detail)
    with ok have E: "engine_ok E" by simp
    show ?thesis
    proof (rule archive_op.outcome_cases [of E clk self rs detail fan])
      fix e assume "fst (archive_batch_with_detail E clk self rs detail fan) = Inl e"
      with b DoArchive show ?thesis by (intro same [of b]) (auto simp: applied_by_def)
    next
      fix r assume run: "archive_batch_with_detail E clk self rs detail fan = (Inr r, perform (DoArchive E clk self rs detail) fan)"
      have res: "fst (archive_batch_with_detail E clk self rs detail fan) = Inr r" by (metis run fst_conv)
      show ?thesis
      proof (cases "co_id self = cid")
        case True
        with balanced_released [OF c, of rs] archive_applied [OF inv E run] res DoArchive b show ?thesis
          by (intro balanced_event [OF inv ok b]) (auto simp: applied_by_def update_inbox_def)
      next
        case False
        with res DoArchive b show ?thesis by (intro same [of b]) (auto simp: update_inbox_def)
      qed
    qed
  next
    case (DoRedrive E clk self ids retry)
    with ok have E: "engine_ok E" by simp
    show ?thesis
    proof (rule redrive_op.outcome_cases [of E clk self ids retry fan])
      fix e assume "fst (redrive_batch E clk self ids retry fan) = Inl e"
      with b DoRedrive show ?thesis by (intro same [of b]) (auto simp: applied_by_def)
    next
      fix r assume run: "redrive_batch E clk self ids retry fan = (Inr r, perform (DoRedrive E clk self ids retry) fan)"
      have res: "fst (redrive_batch E clk self ids retry fan) = Inr r" by (metis run fst_conv)
      show ?thesis
      proof (cases "co_id self = cid")
        case True
        have "card (ib_owed b \<union> named_ids cid ids (lf_pool fan)) = card (ib_owed b) + card (named_ids cid ids (lf_pool fan))"
          using named_ids_not_owed [OF db c(1,2), of ids] by (intro card_Un_disjoint) (auto simp: c(3) inbox_of_def owed_def)
        with True redrive_applied [OF inv E run] res DoRedrive b show ?thesis
          by (intro balanced_event [OF inv ok b]) (auto simp: applied_by_def update_inbox_def)
      next
        case False
        with res DoRedrive b show ?thesis by (intro same [of b]) (auto simp: update_inbox_def)
      qed
    qed
  next
    case (DoOpen E clk bd)
    have new: "event_of fan a \<noteq> Created cid flt" for flt using created_is_new [OF inv, of a cid flt] b by auto
    have "apply_event (event_of fan a) (inboxes (lf_pool fan)) cid = Some b"
      using b new [of "as_database_value (cb_filter bd)"] unfolding DoOpen by (auto split: sum.splits if_splits)
    then show ?thesis by (intro same [of b]) (simp_all add: DoOpen)
  next
    case (DoDelete name mode)
    have "apply_event (event_of fan a) (inboxes (lf_pool fan)) cid = Some b"
      using b keep unfolding DoDelete by (auto split: sum.splits option.splits)
    then show ?thesis by (intro same [of b]) (simp_all add: DoDelete)
  next
    case (DoDrain clk self)
    have "\<exists>b'. apply_event (event_of fan a) (inboxes (lf_pool fan)) cid = Some b' \<and> ib_owed b' = ib_owed b"
      using b unfolding DoDrain by (auto simp: update_inbox_def split: sum.splits)
    then show ?thesis using same DoDrain by auto
  next
    case (DoPurge self purge)
    have "\<exists>b'. apply_event (event_of fan a) (inboxes (lf_pool fan)) cid = Some b' \<and> ib_owed b' = ib_owed b"
      using b unfolding DoPurge by (auto simp: update_inbox_def split: sum.splits)
    then show ?thesis using same DoPurge by auto
  qed (rule quiet, simp, simp, simp)+
qed

subsection \<open>The books balance\<close>

lemma balanced_run:
  assumes "fan_inv fan" and "run_ok action_ok perform fan as" and "inboxes (lf_pool fan) cid \<noteq> None"
    and "Removed cid \<notin> set (run_events event_of perform fan as)"
  shows "inboxes (lf_pool (fold perform as fan)) cid \<noteq> None \<and>
    outstanding cid (fold perform as fan) + sum_list (run_events (settled cid) perform fan as)
    = outstanding cid fan + sum_list (run_events (received cid) perform fan as)"
  using assms
proof (induction as arbitrary: fan)
  case (Cons a as)
  let ?fan = "perform a fan"
  have ok: "action_ok fan a" "run_ok action_ok perform ?fan as" using Cons.prems(2) by simp_all
  obtain b where b: "inboxes (lf_pool fan) cid = Some b" using Cons.prems(3) by blast
  have keep: "event_of fan a \<noteq> Removed cid" "Removed cid \<notin> set (run_events event_of perform ?fan as)"
    using Cons.prems(4) by (simp_all del: perform.simps event_of.simps) metis
  note step = balanced_step [OF Cons.prems(1) ok(1) b keep(1), unfolded balanced_def]
  have "inboxes (lf_pool ?fan) cid \<noteq> None" using step by blast
  from Cons.IH [OF perform_inv [OF Cons.prems(1) ok(1)] ok(2) this keep(2)] step
  show ?case by (simp del: perform.simps settled.simps received.simps)
qed simp

end
