(* ===== verification/Competing.thy ===== *)
theory Competing
  imports Workloads Accounting
begin

text \<open>
  \<open>competing_workers\<close> of \<open>heavy_benchmark.rs\<close>: workers that share one durable consumer and one
  counter of acknowledged messages, each polling, acknowledging and counting until the counter
  says that everything is done. A worker is a state machine and its moves are the points at which
  others can come in between: the test of its loop, a turn of its poll, its acknowledgement, and
  the addition to the counter after it. A run is any sequence of moves of any workers.
\<close>

datatype phase =
    Looping
  | Polling int nat receivers
  | Holding "receipt list"
  | Counting nat
  | Finished
  | Crashed

datatype move = Begin nat | Turn tick | Settle | Add

record contest =
  ct_fan :: litefan
  ct_acknowledged :: nat
  ct_phases :: "phase list"

definition competing_poll :: poll_opts where
  "competing_poll = \<lparr>po_max_messages = 100, po_visibility_timeout = duration_from_secs 60,
     po_wait = duration_from_millis 100\<rparr>"

text \<open>One move of a worker; the phase, the counter and the store after it.\<close>

fun worker_move :: "engine \<Rightarrow> nat \<Rightarrow> consumer \<Rightarrow> nat \<Rightarrow> move \<Rightarrow> phase \<Rightarrow> nat \<Rightarrow> litefan \<Rightarrow> phase \<times> nat \<times> litefan" where
  "worker_move E horizon self messages (Begin start) Looping acknowledged fan =
     (if acknowledged < messages then
        (case poll_setup horizon start competing_poll fan of
           Inl e \<Rightarrow> (Crashed, acknowledged, fan)
         | Inr (lease_ms, deadline) \<Rightarrow> (Polling lease_ms deadline (subscribe_both self fan), acknowledged, fan))
      else (Finished, acknowledged, fan))"
| "worker_move E horizon self messages (Turn t) (Polling lease_ms deadline receivers) acknowledged fan =
     (case poll_turn E self (po_max_messages competing_poll) lease_ms deadline t receivers fan of
        (Inl (Inl e), fan') \<Rightarrow> (Crashed, acknowledged, fan')
      | (Inl (Inr deliveries), fan') \<Rightarrow>
          (if deliveries = [] then Looping else Holding (map dv_receipt deliveries), acknowledged, fan')
      | (Inr (sleep_for, receivers'), fan') \<Rightarrow> (Polling lease_ms deadline receivers', acknowledged, fan'))"
| "worker_move E horizon self messages Settle (Holding receipts) acknowledged fan =
     (case ack_batch self receipts fan of
        (Inl e, fan') \<Rightarrow> (Crashed, acknowledged, fan')
      | (Inr result, fan') \<Rightarrow> (Counting (br_applied result), acknowledged, fan'))"
| "worker_move E horizon self messages Add (Counting n) acknowledged fan = (Looping, acknowledged + n, fan)"
| "worker_move E horizon self messages m p acknowledged fan = (p, acknowledged, fan)"

definition contest_move :: "engine \<Rightarrow> nat \<Rightarrow> consumer \<Rightarrow> nat \<Rightarrow> nat \<times> move \<Rightarrow> contest \<Rightarrow> contest" where
  "contest_move E horizon self messages im ct =
     (if fst im < length (ct_phases ct) then
        (case worker_move E horizon self messages (snd im) (ct_phases ct ! fst im) (ct_acknowledged ct) (ct_fan ct) of
           (p, acknowledged, fan) \<Rightarrow>
             \<lparr>ct_fan = fan, ct_acknowledged = acknowledged, ct_phases = (ct_phases ct)[fst im := p]\<rparr>)
      else ct)"

text \<open>The store, the shared consumer, the messages, and the workers before their first test.\<close>

definition contest_start :: "engine \<Rightarrow> clock \<Rightarrow> (nat \<Rightarrow> clock) \<Rightarrow> nat \<Rightarrow> nat \<Rightarrow> (consumer \<times> contest) option" where
  "contest_start E clk1 clk2 worker_count messages =
     (case new_database of None \<Rightarrow> None
      | Some fan \<Rightarrow>
     (case open_consumer E clk1 (consumer_builder_new ''shared'') fan of (Inl e, _) \<Rightarrow> None
      | (Inr consumer, fan1) \<Rightarrow>
     (case publish_batches E clk2 fan1 messages 500 None [120] of (False, _) \<Rightarrow> None
      | (True, fan2) \<Rightarrow>
          Some (consumer, \<lparr>ct_fan = fan2, ct_acknowledged = 0, ct_phases = replicate worker_count Looping\<rparr>))))"

subsection \<open>A claim leaves every inbox alone\<close>

lemma claim_inbox:
  assumes E: "engine_ok E" and inv: "fan_inv fan" and n: "n \<le> lf_max_batch_size fan"
    and others: "undisturbed cid others1" "undisturbed cid others2"
    and run: "claim E others1 others2 clk self n lease_ms fan = (r, fan')"
  shows "inboxes (lf_pool fan') cid = inboxes (lf_pool fan) cid"
proof -
  note db1 = undisturbedD [OF others(1) fan_invD(1) [OF inv]]
  have n': "int n \<le> i64_max" using n fan_invD(4) [OF inv] by linarith
  from run show ?thesis
  proof (cases rule: claim_cases)
    case (failed now e)
    with db1 show ?thesis by simp
  next
    case (committed now claimed db)
    from E db1(1) n' show ?thesis
    proof (cases rule: claim_txn_cases [where self = self and now = now and v = "now + lease_ms"])
      case (leased c)
      have "attempt_room (others1 (lf_pool fan)) (cr_id c) now n" using leased(2,3) by simp
      note after = claimed_db_inv [OF db1(1) leased(1) this] inboxes_claimed [OF db1(1) leased(1) this]
      have "db = claimed_db c now (now + lease_ms) n (others1 (lf_pool fan))" using committed(2) leased(4) by simp
      with after committed(4) db1(2) show ?thesis by (simp add: undisturbedD [OF others(2)])
    qed (use committed in auto)
  qed simp_all
qed


subsection \<open>The invariant of the contest\<close>

fun counted :: "phase \<Rightarrow> nat" where
  "counted (Counting n) = n"
| "counted _ = 0"

text \<open>Every message is acknowledged and counted, acknowledged and about to be counted, or still owed.\<close>

definition contest_inv :: "consumer \<Rightarrow> nat \<Rightarrow> contest \<Rightarrow> bool" where
  "contest_inv self messages ct \<longleftrightarrow> fan_inv (ct_fan ct) \<and> 100 \<le> lf_max_batch_size (ct_fan ct) \<and>
     inboxes (lf_pool (ct_fan ct)) (co_id self) \<noteq> None \<and>
     ct_acknowledged ct + sum_list (map counted (ct_phases ct)) + outstanding (co_id self) (ct_fan ct) = messages \<and>
     (Finished \<in> set (ct_phases ct) \<longrightarrow> messages \<le> ct_acknowledged ct)"

fun move_ok :: "consumer \<Rightarrow> nat \<times> move \<Rightarrow> bool" where
  "move_ok self (i, Turn t) \<longleftrightarrow> undisturbed (co_id self) (tk_others1 t) \<and> undisturbed (co_id self) (tk_others2 t)"
| "move_ok self (i, m) \<longleftrightarrow> True"

text \<open>What a move leaves: the same total, and a worker is finished only when the counter says so.\<close>

definition move_result :: "consumer \<Rightarrow> nat \<Rightarrow> phase \<Rightarrow> nat \<Rightarrow> litefan \<Rightarrow> phase \<times> nat \<times> litefan \<Rightarrow> bool" where
  "move_result self messages p acknowledged fan = (\<lambda>(p', acknowledged', fan'). fan_inv fan' \<and>
     lf_max_batch_size fan' = lf_max_batch_size fan \<and> inboxes (lf_pool fan') (co_id self) \<noteq> None \<and>
     acknowledged' + counted p' + outstanding (co_id self) fan' = acknowledged + counted p + outstanding (co_id self) fan \<and>
     acknowledged \<le> acknowledged' \<and> (p' = Finished \<longrightarrow> p = Finished \<or> messages \<le> acknowledged'))"

lemma move_result_same:
  assumes "fan_inv fan" and "inboxes (lf_pool fan) (co_id self) \<noteq> None"
    and "counted p' = counted p" "p' = Finished \<longrightarrow> p = Finished \<or> messages \<le> acknowledged"
  shows "move_result self messages p acknowledged fan (p', acknowledged, fan)"
  using assms by (simp add: move_result_def)

lemma turn_result:
  assumes E: "engine_ok E" and inv: "fan_inv fan" and n: "100 \<le> lf_max_batch_size fan"
    and ib: "inboxes (lf_pool fan) (co_id self) \<noteq> None" and ok: "move_ok self (i, Turn t)"
  shows "move_result self messages (Polling lease_ms deadline receivers) acknowledged fan
    (worker_move E horizon self messages (Turn t) (Polling lease_ms deadline receivers) acknowledged fan)"
proof -
  obtain x fan' where run: "poll_turn E self 100 lease_ms deadline t receivers fan = (x, fan')" by fastforce
  obtain r where cl: "claim E (tk_others1 t) (tk_others2 t) (tk_clock t) self 100 lease_ms fan = (r, fan')"
    by (rule poll_turn_claim [OF run])
  have others: "undisturbed (co_id self) (tk_others1 t)" "undisturbed (co_id self) (tk_others2 t)" using ok by simp_all
  have "fan_inv fan'"
    by (rule poll_turn_inv [OF E inv n _ _ run]) (use others in \<open>simp_all add: undisturbed_def\<close>)
  moreover note claim_inbox [OF E inv n others cl] claim_batch_size [OF cl]
  ultimately have same: "move_result self messages (Polling lease_ms deadline receivers) acknowledged fan (p', acknowledged, fan')"
    if "counted p' = 0" "p' \<noteq> Finished" for p'
    using that ib by (simp add: move_result_def outstanding_def)
  have po: "po_max_messages competing_poll = 100" by (simp add: competing_poll_def)
  show ?thesis
  proof (cases x)
    case (Inl result)
    with run same show ?thesis by (cases result) (simp_all add: po)
  next
    case (Inr p)
    with run same show ?thesis by (cases p) (simp add: po)
  qed
qed

lemma settle_result:
  assumes inv: "fan_inv fan" and ib: "inboxes (lf_pool fan) (co_id self) \<noteq> None"
  shows "move_result self messages (Holding rs) acknowledged fan
    (worker_move E horizon self messages Settle (Holding rs) acknowledged fan)"
proof -
  obtain b where b: "inboxes (lf_pool fan) (co_id self) = Some b" using ib by blast
  obtain r fan' where run: "ack_batch self rs fan = (r, fan')" by fastforce
  have "event_of fan (DoAck self rs) \<noteq> Removed (co_id self)" by (simp split: sum.splits)
  from balanced_step [OF inv _ b this] run
  have bal: "inboxes (lf_pool fan') (co_id self) \<noteq> None"
    "outstanding (co_id self) fan' + applied_by (ack_batch self rs) fan = outstanding (co_id self) fan"
    by (simp_all add: balanced_def)
  moreover have "fan_inv fan'" by (rule ack_batch_inv [OF inv run])
  moreover have "lf_max_batch_size fan' = lf_max_batch_size fan"
    using run by (auto simp: ack_batch_def transaction_def split: if_splits sum.splits prod.splits)
  ultimately show ?thesis
    using run by (auto simp: move_result_def applied_by_def split: sum.splits)
qed

lemma worker_move_result:
  assumes E: "engine_ok E" and inv: "fan_inv fan" and n: "100 \<le> lf_max_batch_size fan"
    and ib: "inboxes (lf_pool fan) (co_id self) \<noteq> None" and ok: "move_ok self (i, m)"
  shows "move_result self messages p acknowledged fan (worker_move E horizon self messages m p acknowledged fan)"
proof -
  note same = move_result_same [OF inv ib]
  show ?thesis
  proof (cases "(E, horizon, self, messages, m, p, acknowledged, fan)" rule: worker_move.cases)
    case 1
    then show ?thesis using same by (auto split: sum.splits prod.splits)
  next
    case 2
    then show ?thesis using turn_result [OF E inv n ib] ok by blast
  next
    case 3
    then show ?thesis using settle_result [OF inv ib] by blast
  next
    case 4
    then show ?thesis using inv ib by (auto simp: move_result_def)
  qed (use same in auto)
qed

lemma sum_counted_update:
  assumes "i < length ps"
  shows "sum_list (map counted (ps[i := p])) + counted (ps ! i) = sum_list (map counted ps) + counted p"
proof -
  have le: "counted (ps ! i) \<le> sum_list (map counted ps)"
    using elem_le_sum_list [of i "map counted ps"] assms by simp
  then show ?thesis using assms by (simp add: map_update sum_list_update)
qed

lemma contest_move_inv:
  assumes E: "engine_ok E" and ct: "contest_inv self messages ct" and ok: "move_ok self im"
  shows "contest_inv self messages (contest_move E horizon self messages im ct)"
proof (cases "fst im < length (ct_phases ct)")
  case True
  obtain i m where im: "im = (i, m)" by (cases im)
  with True have i: "i < length (ct_phases ct)" by simp
  obtain p' a' fan' where w: "worker_move E horizon self messages m (ct_phases ct ! i) (ct_acknowledged ct) (ct_fan ct) = (p', a', fan')"
    by (metis prod_cases3)
  have res: "move_result self messages (ct_phases ct ! i) (ct_acknowledged ct) (ct_fan ct) (p', a', fan')"
    using worker_move_result [OF E, of "ct_fan ct" self i m messages "ct_phases ct ! i" "ct_acknowledged ct" horizon] ct ok im w
    by (simp add: contest_inv_def)
  have "messages \<le> a'" if "Finished \<in> set ((ct_phases ct)[i := p'])"
  proof -
    have "p' = Finished \<or> Finished \<in> set (ct_phases ct)"
      using that set_update_subset_insert [of "ct_phases ct" i p'] by auto
    moreover have "ct_phases ct ! i \<in> set (ct_phases ct)" using i by simp
    moreover have "Finished \<in> set (ct_phases ct) \<Longrightarrow> messages \<le> ct_acknowledged ct"
      using ct unfolding contest_inv_def by blast
    moreover have "ct_acknowledged ct \<le> a'" "p' = Finished \<Longrightarrow> ct_phases ct ! i = Finished \<or> messages \<le> a'"
      using res by (simp_all add: move_result_def)
    ultimately show ?thesis by (metis order_trans)
  qed
  moreover have "a' + sum_list (map counted ((ct_phases ct)[i := p'])) + outstanding (co_id self) fan' = messages"
    using res ct sum_counted_update [OF i, of p'] by (simp add: move_result_def contest_inv_def)
  ultimately show ?thesis
    using res ct i by (simp add: contest_move_def im w contest_inv_def move_result_def)
next
  case False
  with ct show ?thesis by (simp add: contest_move_def)
qed

lemma contest_run_inv:
  assumes "engine_ok E"
  shows "contest_inv self messages ct \<Longrightarrow> \<forall>im \<in> set ims. move_ok self im \<Longrightarrow>
    contest_inv self messages (fold (contest_move E horizon self messages) ims ct)"
  using contest_move_inv [OF assms] by (induction ims arbitrary: ct) simp_all

lemma contest_starts:
  assumes E: "engine_ok E" and clk: "now_ms clk1 = Inr t" "\<forall>i. \<exists>t. now_ms (clk2 i) = Inr t" and size: "int messages \<le> i64_max"
  obtains self ct where "contest_start E clk1 clk2 worker_count messages = Some (self, ct)" "contest_inv self messages ct"
    "ct_phases ct = replicate worker_count Looping"
proof -
  have name: "''shared'' \<noteq> []" by simp
  obtain fan c fan1 where c: "new_database = Some fan" "open_consumer E clk1 (consumer_builder_new ''shared'') fan = (Inr c, fan1)"
    "fan_inv fan1" "co_id c = 1" "lf_max_batch_size fan1 = 500" "seq_messages (lf_pool fan1) = 0" "t_deliveries (lf_pool fan1) = []"
    "inboxes (lf_pool fan1) (co_id c) = Some (empty_inbox FilterAll)" "t_idempotency (lf_pool fan1) = []"
    "lf_idempotency_window_ms fan1 = 86400000"
    by (rule single_consumer [OF clk(1) name])
  have b: "0 < (500 :: nat)" "500 \<le> lf_max_batch_size fan1" "seq_messages (lf_pool fan1) + int messages \<le> i64_max"
    using c(5,6) size by simp_all
  obtain fan2 where p: "publish_batches E clk2 fan1 messages 500 None [120] = (True, fan2)" "backlog messages None fan1 fan2"
    using publish_batches_backlog [OF E clk(2) c(3) b] by blast
  obtain ib where ib: "inboxes (lf_pool fan2) (co_id c) = Some ib" "ib_owed ib = {1..int messages}"
    using backlog_owed [OF p(2) c(6,8)] by (auto simp: owes_backlog_def)
  show thesis
  proof (rule that)
    show "contest_start E clk1 clk2 worker_count messages
        = Some (c, \<lparr>ct_fan = fan2, ct_acknowledged = 0, ct_phases = replicate worker_count Looping\<rparr>)"
      by (simp add: contest_start_def c(1,2) p(1))
    have "fan_inv fan2" "lf_max_batch_size fan2 = 500" using p(2) c(5) by (simp_all add: backlog_def)
    then show "contest_inv c messages \<lparr>ct_fan = fan2, ct_acknowledged = 0, ct_phases = replicate worker_count Looping\<rparr>"
      by (simp add: contest_inv_def outstanding_def ib sum_list_replicate)
  qed simp
qed

end
