(* ===== verification/Crowd.thy ===== *)
theory Crowd
  imports Competing
begin

text \<open>
  Programs in which one task publishes a backlog in batches while other tasks poll, each with a
  consumer of its own (\<open>live_fanout\<close> and \<open>publish_with_idle_pollers\<close> of \<open>heavy_benchmark.rs\<close>). The
  moves of the publisher and of the tasks interleave in any order; what a task does in a move is
  an argument. The locale \<open>crowd\<close> has the contract of such a task, and from it the invariant of
  the whole program.
\<close>

record 'w crowd =
  cw_fan :: litefan
  cw_slices :: "nat list option" \<comment> \<open>the offsets still to publish; \<open>None\<close> once the publisher has panicked\<close>
  cw_tasks :: "(consumer \<times> 'w) list"

datatype crowd_move = PublishNext | Task nat move

text \<open>One turn of the loop of \<open>publish_batches\<close>.\<close>

fun publisher_move :: "engine \<Rightarrow> (nat \<Rightarrow> clock) \<Rightarrow> publish list \<Rightarrow> nat \<Rightarrow> nat list option \<Rightarrow> litefan
    \<Rightarrow> nat list option \<times> litefan" where
  "publisher_move E clk messages message_count (Some (offset # offsets)) fan =
     (case publish_batch E (clk offset) (take (min (message_count - offset) (length messages)) messages) fan of
        (Inl e, fan1) \<Rightarrow> (None, fan1)
      | (Inr outcomes, fan1) \<Rightarrow> (Some offsets, fan1))"
| "publisher_move E clk messages message_count slices fan = (slices, fan)"

text \<open>Left alone, the publisher is the loop.\<close>

lemma publisher_alone:
  "publish_slices E clk messages message_count offsets fan
    = (let (slices, fan') = ((\<lambda>(slices, fan). publisher_move E clk messages message_count slices fan) ^^ length offsets) (Some offsets, fan)
       in (slices \<noteq> None, fan'))"
proof (induction offsets arbitrary: fan)
  case (Cons offset offsets)
  have stop: "((\<lambda>(slices, fan). publisher_move E clk messages message_count slices fan) ^^ k) (None, fan1) = (None, fan1)" for k fan1
    by (induction k) simp_all
  show ?case
    using Cons by (auto simp: funpow_swap1 [symmetric] funpow_Suc_right stop Let_def simp del: funpow.simps(2) split: prod.splits sum.splits)
qed simp

fun crowd_step :: "(consumer \<Rightarrow> move \<Rightarrow> 'w \<Rightarrow> litefan \<Rightarrow> 'w \<times> litefan) \<Rightarrow> engine \<Rightarrow> (nat \<Rightarrow> clock) \<Rightarrow> publish list \<Rightarrow> nat
    \<Rightarrow> crowd_move \<Rightarrow> 'w crowd \<Rightarrow> 'w crowd" where
  "crowd_step task_move E clk messages message_count PublishNext cw =
     (case publisher_move E clk messages message_count (cw_slices cw) (cw_fan cw) of
        (slices, fan) \<Rightarrow> cw\<lparr>cw_fan := fan, cw_slices := slices\<rparr>)"
| "crowd_step task_move E clk messages message_count (Task i m) cw =
     (if i < length (cw_tasks cw) then
        (case cw_tasks cw ! i of (self, w) \<Rightarrow>
         (case task_move self m w (cw_fan cw) of
            (w', fan) \<Rightarrow> cw\<lparr>cw_fan := fan, cw_tasks := (cw_tasks cw)[i := (self, w')]\<rparr>))
      else cw)"

lemma crowd_step_consumers: "map fst (cw_tasks (crowd_step task_move E clk messages message_count s cw)) = map fst (cw_tasks cw)"
  by (cases s) (auto simp: map_update list_update_same_conv split: prod.splits)

lemma crowd_consumers:
  "map fst (cw_tasks (fold (crowd_step task_move E clk messages message_count) steps cw)) = map fst (cw_tasks cw)"
  by (induction steps arbitrary: cw) (simp_all add: crowd_step_consumers del: crowd_step.simps)

fun fine_step :: "(move \<Rightarrow> bool) \<Rightarrow> crowd_move \<Rightarrow> bool" where
  "fine_step move_fine PublishNext \<longleftrightarrow> True"
| "fine_step move_fine (Task i m) \<longleftrightarrow> move_fine m"

subsection \<open>What polls and acknowledgements do to the inboxes\<close>

text \<open>What may happen between the statements of one claim.\<close>

definition quiet :: "(database \<Rightarrow> database) \<Rightarrow> bool" where
  "quiet others \<longleftrightarrow> (\<forall>db. db_inv db \<longrightarrow> db_inv (others db) \<and> inboxes (others db) = inboxes db \<and>
     seq_messages (others db) = seq_messages db)"

lemma quiet_id [simp]: "quiet (\<lambda>db. db)"
  by (simp add: quiet_def)

lemma quiet_undisturbed: "quiet others \<Longrightarrow> undisturbed cid others"
  by (simp add: quiet_def undisturbed_def)

lemma quietD:
  assumes "quiet others" and "db_inv db"
  shows "db_inv (others db)" "seq_messages (others db) = seq_messages db"
  using assms by (simp_all add: quiet_def)

lemma claim_quiet:
  assumes E: "engine_ok E" and inv: "fan_inv fan" and n: "n \<le> lf_max_batch_size fan"
    and others: "quiet others1" "quiet others2"
    and run: "claim E others1 others2 clk self n lease_ms fan = (r, fan')"
  shows "fan_inv fan'" "lf_max_batch_size fan' = lf_max_batch_size fan" "inboxes (lf_pool fan') = inboxes (lf_pool fan)"
    "seq_messages (lf_pool fan') = seq_messages (lf_pool fan)"
proof -
  show "fan_inv fan'" by (rule claim_inv [OF E inv n _ _ run]) (simp_all add: quietD others)
  show "lf_max_batch_size fan' = lf_max_batch_size fan" by (rule claim_batch_size [OF run])
  show "inboxes (lf_pool fan') = inboxes (lf_pool fan)"
    by (rule ext, rule claim_inbox [OF E inv n _ _ run]) (simp_all add: quiet_undisturbed others)
  note db1 = quietD [OF others(1) fan_invD(1) [OF inv]]
  have n': "int n \<le> i64_max" using n fan_invD(4) [OF inv] by linarith
  from run show "seq_messages (lf_pool fan') = seq_messages (lf_pool fan)"
  proof (cases rule: claim_cases)
    case (failed now e)
    with db1 show ?thesis by simp
  next
    case (committed now claimed db)
    from E db1(1) n' show ?thesis
    proof (cases rule: claim_txn_cases [where self = self and now = now and v = "now + lease_ms"])
      case (leased c)
      have "attempt_room (others1 (lf_pool fan)) (cr_id c) now n" using leased(2,3) by simp
      note after = claimed_db_inv [OF db1(1) leased(1) this]
      have "db = claimed_db c now (now + lease_ms) n (others1 (lf_pool fan))" using committed(2) leased(4) by simp
      with quietD [OF others(2) after] committed(4) db1(2) show ?thesis
        by (simp add: claimed_db_def scanned_db_def moved_db_def renewed_db_def)
    qed (use committed in auto)
  qed simp_all
qed

lemma poll_turn_quiet:
  assumes E: "engine_ok E" and inv: "fan_inv fan" and n: "n \<le> lf_max_batch_size fan"
    and others: "quiet (tk_others1 t)" "quiet (tk_others2 t)"
    and run: "poll_turn E self n lease_ms deadline t receivers fan = (x, fan')"
  shows "fan_inv fan'" "lf_max_batch_size fan' = lf_max_batch_size fan" "inboxes (lf_pool fan') = inboxes (lf_pool fan)"
    "seq_messages (lf_pool fan') = seq_messages (lf_pool fan)"
proof -
  obtain r where cl: "claim E (tk_others1 t) (tk_others2 t) (tk_clock t) self n lease_ms fan = (r, fan')"
    by (rule poll_turn_claim [OF run])
  show "fan_inv fan'" "lf_max_batch_size fan' = lf_max_batch_size fan" "inboxes (lf_pool fan') = inboxes (lf_pool fan)"
    "seq_messages (lf_pool fan') = seq_messages (lf_pool fan)"
    using claim_quiet [OF E inv n others cl] by simp_all
qed

text \<open>An acknowledgement takes what it reports out of its consumer's inbox and touches no other.\<close>

lemma ack_batch_inbox:
  assumes inv: "fan_inv fan" and b: "inboxes (lf_pool fan) (co_id self) = Some b" and run: "ack_batch self rs fan = (r, fan')"
  obtains b' where "fan_inv fan'" "lf_max_batch_size fan' = lf_max_batch_size fan"
    "seq_messages (lf_pool fan') = seq_messages (lf_pool fan)" "inboxes (lf_pool fan') = (inboxes (lf_pool fan))(co_id self \<mapsto> b')"
    "ib_filter b' = ib_filter b" "ib_accepting b' = ib_accepting b"
    "\<And>result. r = Inr result \<Longrightarrow> card (ib_owed b') + br_applied result = card (ib_owed b)"
proof (cases "rs = [] \<or> lf_max_batch_size fan < length rs")
  case True
  then have "fan' = fan \<and> (\<forall>result. r = Inr result \<longrightarrow> br_applied result = 0)"
    using run by (auto simp: ack_batch_def ensure_batch_size_def default_batch_result_def split: if_splits)
  with inv b show thesis by (intro that [of b]) auto
next
  case False
  note db = fan_invD(1) [OF inv]
  have fan': "fan' = fan\<lparr>lf_pool := acked_db (co_id self) rs (lf_pool fan)\<rparr>"
    using run ack_batch_eq [OF inv, of rs self] False by simp
  obtain c where c: "c \<in> set (t_consumers (lf_pool fan))" "cr_id c = co_id self" "b = inbox_of (lf_pool fan) c"
    using b inboxes_Some [OF db_invD(2) [OF db]] by blast
  let ?b' = "b\<lparr>ib_owed := ib_owed b - held_ids (co_id self) rs (lf_pool fan)\<rparr>"
  show thesis
  proof (rule that [of ?b'])
    show "fan_inv fan'" by (rule ack_batch_inv [OF inv run])
    show "inboxes (lf_pool fan') = (inboxes (lf_pool fan))(co_id self \<mapsto> ?b')"
      using b by (simp add: fan' inboxes_acked [OF db] update_inbox_def)
    show "card (ib_owed ?b') + br_applied result = card (ib_owed b)" if "r = Inr result" for result
      using ack_applied [OF inv, of self rs result fan'] run that balanced_released [OF c, of rs] by simp
  qed (simp_all add: fan' acked_db_def)
qed

subsection \<open>The contract of a task\<close>

text \<open>
  \<open>holds n b w\<close> relates a task to what its consumer's inbox contains when \<open>n\<close> messages are
  published. A move of the task changes no other inbox and keeps it, and so does a batch.
\<close>

definition crowd_inv :: "(nat \<Rightarrow> inbox \<Rightarrow> 'w \<Rightarrow> bool) \<Rightarrow> publish list \<Rightarrow> utf8 option \<Rightarrow> nat \<Rightarrow> inboxes \<Rightarrow> nat \<Rightarrow> 'w crowd \<Rightarrow> bool" where
  "crowd_inv holds messages topic message_count ib n cw \<longleftrightarrow> fan_inv (cw_fan cw) \<and> length messages \<le> lf_max_batch_size (cw_fan cw) \<and>
     seq_messages (lf_pool (cw_fan cw)) = int n \<and>
     (\<exists>j. n = min message_count (j * length messages) \<and>
        cw_slices cw = Some (map (\<lambda>i. i * length messages) [j..<(message_count + length messages - 1) div length messages])) \<and>
     distinct (map (co_id \<circ> fst) (cw_tasks cw)) \<and>
     (\<forall>(self, w) \<in> set (cw_tasks cw). \<exists>b. inboxes (lf_pool (cw_fan cw)) (co_id self) = Some b \<and> holds n b w) \<and>
     (\<forall>cid. cid \<notin> (co_id \<circ> fst) ` set (cw_tasks cw) \<longrightarrow>
        inboxes (lf_pool (cw_fan cw)) cid = apply_event (Posted (posts 0 n topic)) ib cid)"

locale crowd =
  fixes task_move :: "consumer \<Rightarrow> move \<Rightarrow> 'w \<Rightarrow> litefan \<Rightarrow> 'w \<times> litefan"
    and move_fine :: "move \<Rightarrow> bool"
    and holds :: "nat \<Rightarrow> inbox \<Rightarrow> 'w \<Rightarrow> bool"
    and messages :: "publish list"
    and topic :: "utf8 option"
  assumes task_keeps: "fan_inv fan \<Longrightarrow> length messages \<le> lf_max_batch_size fan \<Longrightarrow>
      inboxes (lf_pool fan) (co_id self) = Some b \<Longrightarrow> holds n b w \<Longrightarrow> move_fine m \<Longrightarrow> task_move self m w fan = (w', fan') \<Longrightarrow>
      fan_inv fan' \<and> lf_max_batch_size fan' = lf_max_batch_size fan \<and>
      seq_messages (lf_pool fan') = seq_messages (lf_pool fan) \<and>
      (\<exists>b'. inboxes (lf_pool fan') = (inboxes (lf_pool fan))(co_id self \<mapsto> b') \<and> holds n b' w')"
    and deposit_keeps: "finite (ib_owed b) \<Longrightarrow> ib_owed b \<subseteq> {..int n} \<Longrightarrow> holds n b w \<Longrightarrow>
      holds (n + k) (deposit (posts (int n) k topic) b) w"
    and plain: "p \<in> set messages \<Longrightarrow> pb_topic p = topic \<and> pb_idempotency_key p = None"
    and some_messages: "messages \<noteq> []"
begin

lemma task_step:
  assumes inv: "crowd_inv holds messages topic message_count ib n cw" and m: "move_fine m"
  shows "crowd_inv holds messages topic message_count ib n (crowd_step task_move E clk messages message_count (Task i m) cw)"
proof (cases "i < length (cw_tasks cw)")
  case True
  obtain self w where iw: "cw_tasks cw ! i = (self, w)" by (cases "cw_tasks cw ! i")
  with True have mem: "(self, w) \<in> set (cw_tasks cw)" by (metis nth_mem)
  obtain w' fan' where run: "task_move self m w (cw_fan cw) = (w', fan')" by fastforce
  from inv have fan: "fan_inv (cw_fan cw)" "length messages \<le> lf_max_batch_size (cw_fan cw)"
    and tasks: "\<forall>(self, w) \<in> set (cw_tasks cw). \<exists>b. inboxes (lf_pool (cw_fan cw)) (co_id self) = Some b \<and> holds n b w"
    and dist: "distinct (map (co_id \<circ> fst) (cw_tasks cw))"
    unfolding crowd_inv_def by blast+
  obtain b where b: "inboxes (lf_pool (cw_fan cw)) (co_id self) = Some b" "holds n b w" using tasks mem by blast
  obtain b' where after: "fan_inv fan'" "lf_max_batch_size fan' = lf_max_batch_size (cw_fan cw)"
    "seq_messages (lf_pool fan') = seq_messages (lf_pool (cw_fan cw))"
    "inboxes (lf_pool fan') = (inboxes (lf_pool (cw_fan cw)))(co_id self \<mapsto> b')" "holds n b' w'"
    using task_keeps [OF fan b m run] by blast
  let ?tasks = "(cw_tasks cw)[i := (self, w')]"
  have ids: "map (co_id \<circ> fst) ?tasks = map (co_id \<circ> fst) (cw_tasks cw)"
    using True iw by (simp add: map_update list_update_same_conv)
  then have ids': "(co_id \<circ> fst) ` set ?tasks = (co_id \<circ> fst) ` set (cw_tasks cw)" by (metis list.set_map)
  have "\<exists>b. inboxes (lf_pool fan') (co_id x) = Some b \<and> holds n b v" if x: "(x, v) \<in> set ?tasks" for x v
  proof -
    obtain k where k: "k < length (cw_tasks cw)" "?tasks ! k = (x, v)" using x by (auto simp: in_set_conv_nth)
    show ?thesis
    proof (cases "k = i")
      case True
      with k after show ?thesis by auto
    next
      case False
      with k have xv: "cw_tasks cw ! k = (x, v)" by simp
      then have "(x, v) \<in> set (cw_tasks cw)" using k(1) by (metis nth_mem)
      moreover have "co_id x \<noteq> co_id self"
        using nth_eq_iff_index_eq [OF dist, of k i] False k(1) True xv iw by simp
      ultimately show ?thesis using tasks after(4) by auto
    qed
  qed
  moreover have "co_id self \<in> (co_id \<circ> fst) ` set (cw_tasks cw)" using mem by force
  ultimately show ?thesis
    using inv after True iw run ids ids' unfolding crowd_inv_def by auto
next
  case False
  with inv show ?thesis by simp
qed

lemma publisher_step:
  assumes inv: "crowd_inv holds messages topic message_count ib n cw" and E: "engine_ok E" and clk: "\<forall>i. \<exists>t. now_ms (clk i) = Inr t"
    and size: "int message_count \<le> i64_max"
  shows "\<exists>n'. crowd_inv holds messages topic message_count ib n' (crowd_step task_move E clk messages message_count PublishNext cw)"
proof -
  let ?k = "length messages" and ?J = "(message_count + length messages - 1) div length messages"
  from inv obtain j where fan: "fan_inv (cw_fan cw)" "?k \<le> lf_max_batch_size (cw_fan cw)" "seq_messages (lf_pool (cw_fan cw)) = int n"
    and j: "n = min message_count (j * ?k)" "cw_slices cw = Some (map (\<lambda>i. i * ?k) [j..<?J])"
    and dist: "distinct (map (co_id \<circ> fst) (cw_tasks cw))"
    and tasks: "\<And>self w. (self, w) \<in> set (cw_tasks cw) \<Longrightarrow> \<exists>b. inboxes (lf_pool (cw_fan cw)) (co_id self) = Some b \<and> holds n b w"
    and rest: "\<And>cid. cid \<notin> (co_id \<circ> fst) ` set (cw_tasks cw) \<Longrightarrow>
        inboxes (lf_pool (cw_fan cw)) cid = apply_event (Posted (posts 0 n topic)) ib cid"
    unfolding crowd_inv_def by blast
  show ?thesis
  proof (cases "j < ?J")
    case True
    define slice where "slice = take (min (message_count - j * ?k) ?k) messages"
    have "Suc j * ?k \<le> ?J * ?k" using True by (intro mult_le_mono1) simp
    then have before: "j * ?k < message_count"
      using step_by_bounds(1) [of ?k message_count] some_messages by simp
    then have n: "n = j * ?k" "n < message_count" using j(1) by simp_all
    have len: "length slice = min (message_count - n) ?k" by (simp add: slice_def n(1))
    then have "0 < length slice" using n(2) some_messages by simp
    then have ne: "slice \<noteq> []" by simp
    have fits: "length slice \<le> lf_max_batch_size (cw_fan cw)" using len fan(2) by simp
    have plain': "\<forall>p \<in> set slice. pb_topic p = topic \<and> pb_idempotency_key p = None"
      using plain by (auto simp: slice_def dest: in_set_takeD)
    obtain t where t: "now_ms (clk (j * ?k)) = Inr t" using clk by blast
    have room: "seq_messages (lf_pool (cw_fan cw)) + int (length slice) \<le> i64_max" using fan(3) len n(2) size by simp
    obtain os fan1 where s: "publish_batch E (clk (j * ?k)) slice (cw_fan cw) = (Inr os, fan1)" "fan_inv fan1"
      "inboxes (lf_pool fan1) = apply_event (Posted (posts (int n) (length slice) topic)) (inboxes (lf_pool (cw_fan cw)))"
      "seq_messages (lf_pool fan1) = int n + int (length slice)" "lf_max_batch_size fan1 = lf_max_batch_size (cw_fan cw)"
      by (rule slice_works [OF fan(1) E ne fits plain' t room]) (use fan(3) in simp)
    let ?n = "n + length slice"
    have step: "crowd_step task_move E clk messages message_count PublishNext cw
        = cw\<lparr>cw_fan := fan1, cw_slices := Some (map (\<lambda>i. i * ?k) [Suc j..<?J])\<rparr>"
    proof -
      have "cw_slices cw = Some (j * ?k # map (\<lambda>i. i * ?k) [Suc j..<?J])"
        unfolding j(2) upt_conv_Cons [OF True] list.map by (rule refl)
      with s(1) show ?thesis by (simp add: slice_def)
    qed
    have "?n = min message_count (Suc j * ?k)" using len n by simp
    then have slices: "\<exists>i. ?n = min message_count (i * ?k) \<and>
        Some (map (\<lambda>i. i * ?k) [Suc j..<?J]) = Some (map (\<lambda>i. i * ?k) [i..<?J])" by (intro exI [of _ "Suc j"]) simp
    moreover have "\<exists>b. inboxes (lf_pool fan1) (co_id self) = Some b \<and> holds ?n b w" if mem: "(self, w) \<in> set (cw_tasks cw)" for self w
    proof -
      obtain b where b: "inboxes (lf_pool (cw_fan cw)) (co_id self) = Some b" "holds n b w" using tasks [OF mem] by blast
      note db = fan_invD(1) [OF fan(1)]
      obtain c where c: "c \<in> set (t_consumers (lf_pool (cw_fan cw)))" "b = inbox_of (lf_pool (cw_fan cw)) c"
        using b(1) inboxes_Some [OF db_invD(2) [OF db]] by blast
      have "finite (ib_owed b)" "ib_owed b \<subseteq> {..int n}"
        using owed_le [OF db c(1)] fan(3) c(2) by (auto simp: inbox_of_def owed_def)
      from deposit_keeps [OF this b(2)] b(1) show ?thesis by (simp add: s(3))
    qed
    moreover have "inboxes (lf_pool fan1) cid = apply_event (Posted (posts 0 ?n topic)) ib cid"
      if "cid \<notin> (co_id \<circ> fst) ` set (cw_tasks cw)" for cid
    proof -
      have "apply_event (Posted (posts 0 ?n topic)) ib
          = apply_event (Posted (posts (int n) (length slice) topic)) (apply_event (Posted (posts 0 n topic)) ib)"
        using posts_append [of 0 n topic "length slice"] by (simp only: posted_twice) simp
      with rest [OF that] show ?thesis unfolding s(3) by simp
    qed
    ultimately show ?thesis
      unfolding step crowd_inv_def using s(2,4,5) fan(2) dist slices by (intro exI [of _ ?n]) (simp only: crowd.simps, auto)
  next
    case False
    then have "crowd_step task_move E clk messages message_count PublishNext cw = cw" using j(2) by simp
    with inv show ?thesis by auto
  qed
qed

text \<open>The whole program, with its moves in any order.\<close>

lemma run_inv:
  assumes E: "engine_ok E" and clk: "\<forall>i. \<exists>t. now_ms (clk i) = Inr t" and size: "int message_count \<le> i64_max"
  shows "crowd_inv holds messages topic message_count ib n cw \<Longrightarrow> \<forall>s \<in> set steps. fine_step move_fine s \<Longrightarrow>
    \<exists>n'. crowd_inv holds messages topic message_count ib n' (fold (crowd_step task_move E clk messages message_count) steps cw)"
proof (induction steps arbitrary: n cw)
  case (Cons s steps)
  obtain n1 where "crowd_inv holds messages topic message_count ib n1 (crowd_step task_move E clk messages message_count s cw)"
  proof (cases s)
    case PublishNext
    with publisher_step [OF Cons.prems(1) E clk size] that show thesis by blast
  next
    case (Task i m)
    with task_step [OF Cons.prems(1)] Cons.prems(2) that show thesis by fastforce
  qed
  from Cons.IH [OF this] Cons.prems(2) show ?case by simp
qed auto

end

text \<open>What the invariant says of the publisher: it never panics, and when it is through everything is published.\<close>

lemma crowd_published:
  assumes "crowd_inv holds messages topic message_count ib n cw" and "messages \<noteq> []"
  shows "n \<le> message_count" "nat (seq_messages (lf_pool (cw_fan cw))) = n" "cw_slices cw \<noteq> None"
    "cw_slices cw = Some [] \<Longrightarrow> n = message_count"
proof -
  let ?k = "length messages" and ?J = "(message_count + length messages - 1) div length messages"
  from assms(1) obtain j where j: "n = min message_count (j * ?k)" "cw_slices cw = Some (map (\<lambda>i. i * ?k) [j..<?J])"
    and seq: "seq_messages (lf_pool (cw_fan cw)) = int n"
    unfolding crowd_inv_def by blast
  show "n \<le> message_count" "nat (seq_messages (lf_pool (cw_fan cw))) = n" "cw_slices cw \<noteq> None" using j seq by simp_all
  show "n = message_count" if "cw_slices cw = Some []"
  proof -
    have "?J \<le> j" using that j(2) by auto
    then have "?J * ?k \<le> j * ?k" by (rule mult_le_mono1)
    moreover have "message_count \<le> ?J * ?k" using assms(2) by (intro step_by_bounds(2)) simp
    ultimately show ?thesis using j(1) by linarith
  qed
qed

end
