(* ===== verification/Live_Publishing.thy ===== *)
theory Live_Publishing
  imports Crowd
begin

text \<open>
  The programs that publish while consumers exist or poll: \<open>fanout_publish\<close> of \<open>benchmark.rs\<close>,
  \<open>live_fanout\<close> and \<open>publish_with_idle_pollers\<close> of \<open>heavy_benchmark.rs\<close>. Barriers and pauses only
  restrict the order of moves; here every order is allowed.
\<close>

subsection \<open>\<open>fanout_publish\<close>\<close>

text \<open>The loop drops each handle it opens.\<close>

fun open_each :: "engine \<Rightarrow> (nat \<Rightarrow> clock) \<Rightarrow> nat list \<Rightarrow> litefan \<Rightarrow> bool \<times> litefan" where
  "open_each E clk [] fan = (True, fan)"
| "open_each E clk (index # indices) fan =
     (case open_consumer E (clk index) (consumer_builder_new (consumer_name index)) fan of
        (Inl e, fan1) \<Rightarrow> (False, fan1)
      | (Inr c, fan1) \<Rightarrow> open_each E clk indices (drop_consumer c fan1))"

definition fanout_publish :: "engine \<Rightarrow> (nat \<Rightarrow> clock) \<Rightarrow> (nat \<Rightarrow> clock) \<Rightarrow> nat \<Rightarrow> nat \<Rightarrow> (nat \<times> litefan) option" where
  "fanout_publish E clk1 clk2 consumer_count message_count =
     (case new_database of None \<Rightarrow> None
      | Some fan \<Rightarrow>
     (case open_each E clk1 [0..<consumer_count] fan of (False, _) \<Rightarrow> None
      | (True, fan1) \<Rightarrow>
     (case publish_messages E clk2 fan1 message_count of (False, _) \<Rightarrow> None
      | (True, fan2) \<Rightarrow> Some (consumer_count * message_count, fan2))))"

lemma drop_consumer_keeps [simp]: "lf_pool (drop_consumer c fan) = lf_pool fan"
  "lf_max_batch_size (drop_consumer c fan) = lf_max_batch_size fan"
  by (simp_all add: drop_consumer_def)

lemma open_each_works:
  assumes clk: "\<forall>i. \<exists>t. now_ms (clk i) = Inr t"
  shows "fan_inv fan \<Longrightarrow> distinct indices \<Longrightarrow> consumer_name ` set indices \<inter> cr_name ` set (t_consumers (lf_pool fan)) = {} \<Longrightarrow>
    seq_consumers (lf_pool fan) + int (length indices) \<le> i64_max \<Longrightarrow>
    \<exists>fan'. open_each E clk indices fan = (True, fan') \<and> fan_inv fan' \<and> lf_max_batch_size fan' = lf_max_batch_size fan \<and>
      seq_messages (lf_pool fan') = seq_messages (lf_pool fan) \<and>
      inboxes (lf_pool fan') = (\<lambda>cid. if seq_consumers (lf_pool fan) < cid \<and> cid \<le> seq_consumers (lf_pool fan) + int (length indices)
        then Some (empty_inbox FilterAll) else inboxes (lf_pool fan) cid)"
proof (induction indices arbitrary: fan)
  case Nil
  then show ?case by (auto simp: fun_eq_iff)
next
  case (Cons index indices)
  let ?b = "consumer_builder_new (consumer_name index)"
  have b: "cb_name ?b = consumer_name index" "cb_filter ?b = FilterAll" by (simp_all add: consumer_builder_new_def)
  obtain t where t: "now_ms (clk index) = Inr t" using clk by blast
  have free: "cb_name ?b \<noteq> []" "cb_name ?b \<notin> cr_name ` set (t_consumers (lf_pool fan))" "seq_consumers (lf_pool fan) < i64_max"
    using Cons.prems(3,4) b(1) by auto
  obtain c fan1 where run: "open_consumer E (clk index) ?b fan = (Inr c, fan1)" "fan_inv fan1"
    and c: "lf_max_batch_size fan1 = lf_max_batch_size fan" "lf_pool fan1 = created_db (consumer_name index) None t (lf_pool fan)"
    by (rule open_new [OF Cons.prems(1) free t, of E]) (use b in simp)
  let ?fan = "drop_consumer c fan1"
  have db1: "cr_name ` set (t_consumers (lf_pool ?fan)) = insert (consumer_name index) (cr_name ` set (t_consumers (lf_pool fan)))"
    "seq_consumers (lf_pool ?fan) = seq_consumers (lf_pool fan) + 1" "seq_messages (lf_pool ?fan) = seq_messages (lf_pool fan)"
    by (simp_all add: c(2) created_db_def new_consumer_row_def)
  have inbox1: "inboxes (lf_pool ?fan) = (inboxes (lf_pool fan))(seq_consumers (lf_pool fan) + 1 \<mapsto> empty_inbox FilterAll)"
    unfolding drop_consumer_keeps c(2) inboxes_created [OF fan_invD(1) [OF Cons.prems(1)]] by (simp add: empty_inbox_def)
  have "consumer_name ` set indices \<inter> cr_name ` set (t_consumers (lf_pool ?fan)) = {}"
    using Cons.prems(2,3) by (auto simp: db1(1) simp del: drop_consumer_keeps)
  moreover have "seq_consumers (lf_pool ?fan) + int (length indices) \<le> i64_max" using Cons.prems(4) db1(2) by simp
  moreover have "distinct indices" using Cons.prems(2) by simp
  ultimately obtain fan' where rest: "open_each E clk indices ?fan = (True, fan')" "fan_inv fan'"
    "lf_max_batch_size fan' = lf_max_batch_size ?fan" "seq_messages (lf_pool fan') = seq_messages (lf_pool ?fan)"
    "inboxes (lf_pool fan') = (\<lambda>cid. if seq_consumers (lf_pool ?fan) < cid \<and> cid \<le> seq_consumers (lf_pool ?fan) + int (length indices)
        then Some (empty_inbox FilterAll) else inboxes (lf_pool ?fan) cid)"
    using Cons.IH [OF drop_consumer_inv [OF run(2), of c]] by blast
  have "inboxes (lf_pool fan') = (\<lambda>cid. if seq_consumers (lf_pool fan) < cid \<and> cid \<le> seq_consumers (lf_pool fan) + int (length (index # indices))
        then Some (empty_inbox FilterAll) else inboxes (lf_pool fan) cid)"
    unfolding rest(5) db1(2) inbox1 by (rule ext) auto
  then show ?case using run(1) rest(1-4) c(1) db1(3) by simp
qed

text \<open>Every consumer is owed every message, which is what the program prints.\<close>

lemma fanout_publish_owes:
  assumes E: "engine_ok E" and clk: "\<forall>i. \<exists>t. now_ms (clk1 i) = Inr t" "\<forall>i. \<exists>t. now_ms (clk2 i) = Inr t"
    and size: "int consumer_count \<le> i64_max" "int message_count \<le> i64_max"
  obtains fan where "fanout_publish E clk1 clk2 consumer_count message_count = Some (consumer_count * message_count, fan)"
    "dom (inboxes (lf_pool fan)) = {1..int consumer_count}" "\<forall>cid \<in> {1..int consumer_count}. outstanding cid fan = message_count"
proof -
  obtain fan where fan: "new_database = Some fan" "fan_inv fan" "lf_pool fan = empty_database" "lf_max_batch_size fan = 500"
    by (rule new_database_opens)
  have none: "inboxes empty_database = (\<lambda>cid. None)" by (rule ext) (simp add: inboxes_def find_consumer_def empty_sequences)
  have free: "consumer_name ` set [0..<consumer_count] \<inter> cr_name ` set (t_consumers (lf_pool fan)) = {}"
    "seq_consumers (lf_pool fan) + int (length [0..<consumer_count]) \<le> i64_max"
    using size(1) by (simp_all add: fan(3) empty_sequences)
  obtain fan1 where c: "open_each E clk1 [0..<consumer_count] fan = (True, fan1)" "fan_inv fan1" "seq_messages (lf_pool fan1) = 0"
    "inboxes (lf_pool fan1) = (\<lambda>cid. if 0 < cid \<and> cid \<le> int consumer_count then Some (empty_inbox FilterAll) else None)"
    using open_each_works [OF clk(1) fan(2) distinct_upt free, of E] unfolding fan(3) none empty_sequences by auto
  have "seq_messages (lf_pool fan1) + int message_count \<le> i64_max" using c(3) size(2) by simp
  then obtain fan2 where p: "publish_messages E clk2 fan1 message_count = (True, fan2)" "backlog message_count None fan1 fan2"
    using publish_messages_backlog [OF E clk(2) c(2)] by blast
  have ib: "inboxes (lf_pool fan2) = map_option (deposit (posts 0 message_count None)) \<circ> inboxes (lf_pool fan1)"
    using p(2) c(3) by (simp add: backlog_def)
  show thesis
  proof (rule that)
    show "fanout_publish E clk1 clk2 consumer_count message_count = Some (consumer_count * message_count, fan2)"
      by (simp add: fanout_publish_def fan(1) c(1) p(1))
    show "dom (inboxes (lf_pool fan2)) = {1..int consumer_count}" unfolding ib c(4) by (auto split: if_splits)
    have "{p \<in> posts 0 message_count None. topic_matches None (snd p)} = posts 0 message_count None" by (simp add: topic_matches_def)
    moreover have "fst ` posts 0 message_count None = {1..int message_count}" by (simp add: posts_def image_image)
    ultimately show "\<forall>cid \<in> {1..int consumer_count}. outstanding cid fan2 = message_count"
      by (simp add: outstanding_def ib c(4) empty_inbox_def deposit_def)
  qed
qed

subsection \<open>\<open>live_fanout\<close>\<close>

text \<open>A move of a worker that runs \<open>drain_exact\<close> with batches of 100: its count, its phase and the store after it.\<close>

fun drain_move :: "engine \<Rightarrow> nat \<Rightarrow> nat \<Rightarrow> consumer \<Rightarrow> move \<Rightarrow> nat \<times> phase \<Rightarrow> litefan \<Rightarrow> (nat \<times> phase) \<times> litefan" where
  "drain_move E horizon expected self (Begin start) (drained, Looping) fan =
     (if drained < expected then
        (case poll_setup horizon start (drain_poll 100) fan of
           Inl e \<Rightarrow> ((drained, Crashed), fan)
         | Inr (lease_ms, deadline) \<Rightarrow> ((drained, Polling lease_ms deadline (subscribe_both self fan)), fan))
      else ((drained, Finished), fan))"
| "drain_move E horizon expected self (Turn t) (drained, Polling lease_ms deadline receivers) fan =
     (case poll_turn E self (po_max_messages (drain_poll 100)) lease_ms deadline t receivers fan of
        (Inl (Inl e), fan') \<Rightarrow> ((drained, Crashed), fan')
      | (Inl (Inr deliveries), fan') \<Rightarrow>
          ((drained, if deliveries = [] then Crashed else Holding (map dv_receipt deliveries)), fan')
      | (Inr (sleep_for, receivers'), fan') \<Rightarrow> ((drained, Polling lease_ms deadline receivers'), fan'))"
| "drain_move E horizon expected self Settle (drained, Holding receipts) fan =
     (case ack_batch self receipts fan of
        (Inl e, fan') \<Rightarrow> ((drained, Crashed), fan')
      | (Inr result, fan') \<Rightarrow>
          (if br_applied result \<noteq> length receipts then (drained, Crashed) else (drained + br_applied result, Looping), fan'))"
| "drain_move E horizon expected self m w fan = (w, fan)"

definition live_messages :: "nat \<Rightarrow> publish list" where
  "live_messages body_size = replicate 100 ((publish_new (replicate body_size 120))\<lparr>pb_topic := None\<rparr>)"

definition live_start :: "engine \<Rightarrow> (nat \<Rightarrow> clock) \<Rightarrow> nat \<Rightarrow> nat \<Rightarrow> (nat \<times> phase) crowd option" where
  "live_start E clk consumer_count messages =
     (case new_database of None \<Rightarrow> None
      | Some fan \<Rightarrow>
     (case create_consumers E clk fan consumer_count FilterAll of (None, _) \<Rightarrow> None
      | (Some consumers, fan1) \<Rightarrow>
          Some \<lparr>cw_fan = fan1, cw_slices = Some (step_by messages 100), cw_tasks = map (\<lambda>c. (c, 0, Looping)) consumers\<rparr>))"

definition live_fanout :: "engine \<Rightarrow> (nat \<Rightarrow> clock) \<Rightarrow> (nat \<Rightarrow> clock) \<Rightarrow> nat \<Rightarrow> nat \<Rightarrow> nat \<Rightarrow> nat \<Rightarrow> crowd_move list
    \<Rightarrow> (nat \<times> phase) crowd option" where
  "live_fanout E clk1 clk2 horizon consumer_count messages body_size steps =
     map_option (fold (crowd_step (drain_move E horizon messages) E clk2 (live_messages body_size) messages) steps)
       (live_start E clk1 consumer_count messages)"

text \<open>Not interrupted, a worker goes through a round of \<open>drain_exact\<close>.\<close>

definition drain_moves :: "engine \<Rightarrow> nat \<Rightarrow> nat \<Rightarrow> consumer \<Rightarrow> move list \<Rightarrow> (nat \<times> phase) \<times> litefan \<Rightarrow> (nat \<times> phase) \<times> litefan" where
  "drain_moves E horizon expected self = fold (\<lambda>m (w, fan). drain_move E horizon expected self m w fan)"

lemma drain_moves_stuck:
  assumes "\<not> (\<exists>lease_ms deadline receivers. p = Polling lease_ms deadline receivers)"
  shows "drain_moves E horizon expected self (map Turn ticks) ((drained, p), fan) = ((drained, p), fan)"
  using assms by (induction ticks) (cases p; simp add: drain_moves_def)+

lemma drain_moves_poll:
  assumes "\<forall>t \<in> set ticks. tk_meanwhile t = (\<lambda>fan. fan)"
    and "poll_loop E self 100 lease_ms deadline ticks receivers fan = (Some r, fan')"
  shows "drain_moves E horizon expected self (map Turn ticks) ((drained, Polling lease_ms deadline receivers), fan)
    = ((drained, case r of Inl e \<Rightarrow> Crashed | Inr ds \<Rightarrow> if ds = [] then Crashed else Holding (map dv_receipt ds)), fan')"
  using assms
proof (induction ticks arbitrary: receivers fan)
  case (Cons t ticks)
  obtain x fan1 where turn: "poll_turn E self 100 lease_ms deadline t receivers fan = (x, fan1)" by fastforce
  have po: "po_max_messages (drain_poll 100) = 100" by (simp add: drain_poll_def)
  have first: "drain_moves E horizon expected self (map Turn (t # ticks)) s
      = drain_moves E horizon expected self (map Turn ticks) (case s of (w, fan) \<Rightarrow> drain_move E horizon expected self (Turn t) w fan)" for s
    by (simp add: drain_moves_def)
  show ?case
  proof (cases x)
    case (Inl r')
    then have "r' = r" "fan1 = fan'" using Cons.prems(2) turn by simp_all
    then show ?thesis
      unfolding first using turn Inl by (cases r) (simp_all add: po drain_moves_stuck)
  next
    case (Inr p)
    obtain d receivers' where p: "p = (d, receivers')" by (cases p)
    have "poll_loop E self 100 lease_ms deadline ticks receivers' fan1 = (Some r, fan')"
      using Cons.prems turn Inr p by simp
    from Cons.IH [OF _ this] Cons.prems(1) show ?thesis
      unfolding first using turn Inr p by (simp add: po)
  qed
qed simp

lemma drain_moves_round:
  assumes ticks: "\<forall>t \<in> set ticks. tk_meanwhile t = (\<lambda>fan. fan)" and more: "drained < expected"
    and round: "fetch_and_ack E horizon (start, ticks) self (drain_poll 100) fan = (Inr (n, result), fan')"
  shows "drain_moves E horizon expected self (Begin start # map Turn ticks @ [Settle]) ((drained, Looping), fan)
    = (if br_applied result \<noteq> n then (drained, Crashed) else (drained + br_applied result, Looping), fan')"
proof -
  have po: "po_max_messages (drain_poll 100) = 100" by (simp add: drain_poll_def)
  obtain ds fan1 where p: "poll E horizon start ticks self (drain_poll 100) fan = (Some (Inr ds), fan1)" "ds \<noteq> []"
    and a: "ack_batch self (map dv_receipt ds) fan1 = (Inr result, fan')" "n = length ds"
    using round by (auto split: option.splits sum.splits prod.splits if_splits)
  obtain lease_ms deadline where s: "poll_setup horizon start (drain_poll 100) fan = Inr (lease_ms, deadline)"
    "poll_loop E self 100 lease_ms deadline ticks (subscribe_both self fan) fan = (Some (Inr ds), fan1)"
    using p(1) by (auto simp: poll_def po split: sum.splits)
  have "drain_moves E horizon expected self (Begin start # map Turn ticks @ [Settle]) ((drained, Looping), fan)
      = drain_moves E horizon expected self [Settle] (drain_moves E horizon expected self (map Turn ticks)
          ((drained, Polling lease_ms deadline (subscribe_both self fan)), fan))"
    using more s(1) by (simp add: drain_moves_def)
  also have "\<dots> = drain_moves E horizon expected self [Settle] ((drained, Holding (map dv_receipt ds)), fan1)"
    using drain_moves_poll [OF ticks s(2)] p(2) by simp
  also have "\<dots> = (if br_applied result \<noteq> n then (drained, Crashed) else (drained + br_applied result, Looping), fan')"
    using a by (simp add: drain_moves_def)
  finally show ?thesis .
qed

text \<open>
  A worker has counted what is no longer owed of the messages published so far, unless it has
  crashed, and it has finished only when its count says so.
\<close>

definition drain_holds :: "engine \<Rightarrow> nat \<Rightarrow> nat \<Rightarrow> inbox \<Rightarrow> nat \<times> phase \<Rightarrow> bool" where
  "drain_holds E expected n b = (\<lambda>(drained, p). engine_ok E \<and> ib_filter b = None \<and> ib_accepting b \<and>
     (p \<noteq> Crashed \<longrightarrow> drained + card (ib_owed b) = n) \<and> (p = Finished \<longrightarrow> expected \<le> drained))"

fun quiet_move :: "move \<Rightarrow> bool" where
  "quiet_move (Turn t) \<longleftrightarrow> quiet (tk_others1 t) \<and> quiet (tk_others2 t)"
| "quiet_move m \<longleftrightarrow> True"

lemma drain_holds_deposit:
  assumes fin: "finite (ib_owed b)" "ib_owed b \<subseteq> {..int n}" and holds: "drain_holds E expected n b w"
  shows "drain_holds E expected (n + k) (deposit (posts (int n) k None) b) w"
proof -
  obtain drained p where w: "w = (drained, p)" by (cases w)
  have "{q \<in> posts (int n) k None. topic_matches None (snd q)} = posts (int n) k None" by (simp add: topic_matches_def)
  moreover have "fst ` posts (int n) k None = {int n + 1..int n + int k}" by (simp add: posts_def image_image)
  moreover have "ib_owed b \<inter> {int n + 1..int n + int k} = {}" using fin(2) by fastforce
  ultimately show ?thesis
    using holds fin(1) by (simp add: w drain_holds_def deposit_def card_Un_disjoint)
qed

lemma drain_move_keeps:
  assumes inv: "fan_inv fan" and n: "100 \<le> lf_max_batch_size fan"
    and b: "inboxes (lf_pool fan) (co_id self) = Some b" and holds: "drain_holds E expected k b w" and m: "quiet_move m"
    and run: "drain_move E horizon expected self m w fan = (w', fan')"
  shows "fan_inv fan' \<and> lf_max_batch_size fan' = lf_max_batch_size fan \<and> seq_messages (lf_pool fan') = seq_messages (lf_pool fan) \<and>
    (\<exists>b'. inboxes (lf_pool fan') = (inboxes (lf_pool fan))(co_id self \<mapsto> b') \<and> drain_holds E expected k b' w')"
proof -
  have E: "engine_ok E" using holds by (auto simp: drain_holds_def)
  have same: ?thesis if "fan' = fan" "drain_holds E expected k b w'"
    using that inv b by (auto intro!: exI [of _ b])
  have po: "po_max_messages (drain_poll 100) = 100" by (simp add: drain_poll_def)
  show ?thesis
  proof (cases "(E, horizon, expected, self, m, w, fan)" rule: drain_move.cases)
    case (1 E' h e self' start drained fan0)
    with run holds show ?thesis
      by (intro same) (auto simp: drain_holds_def split: if_splits sum.splits prod.splits)
  next
    case (2 E' h e self' t drained lease_ms deadline receivers fan0)
    obtain x fan1 where turn: "poll_turn E self 100 lease_ms deadline t receivers fan = (x, fan1)" by fastforce
    have others: "quiet (tk_others1 t)" "quiet (tk_others2 t)" using m 2 by simp_all
    have "fan' = fan1 \<and> drain_holds E expected k b w'"
      using run turn 2 holds by (cases x) (auto simp: po drain_holds_def split: if_splits sum.splits prod.splits)
    with poll_turn_quiet [OF E inv n others turn] b show ?thesis by (auto intro!: exI [of _ b])
  next
    case (3 E' h e self' drained receipts fan0)
    obtain r fan1 where ack: "ack_batch self receipts fan = (r, fan1)" by fastforce
    obtain b' where a: "fan_inv fan1" "lf_max_batch_size fan1 = lf_max_batch_size fan"
      "seq_messages (lf_pool fan1) = seq_messages (lf_pool fan)" "inboxes (lf_pool fan1) = (inboxes (lf_pool fan))(co_id self \<mapsto> b')"
      "ib_filter b' = ib_filter b" "ib_accepting b' = ib_accepting b"
      "\<And>result. r = Inr result \<Longrightarrow> card (ib_owed b') + br_applied result = card (ib_owed b)"
      by (rule ack_batch_inbox [OF inv b ack]) (rule that)
    have "fan' = fan1 \<and> drain_holds E expected k b' w'"
      using run ack 3 holds a(5-7) by (cases r) (auto simp: drain_holds_def split: if_splits)
    with a show ?thesis by auto
  qed (rule same; use run holds in simp)+
qed

interpretation live: crowd "drain_move E horizon expected" quiet_move "drain_holds E expected" "live_messages body_size" None
  for E horizon expected body_size
proof unfold_locales
  fix fan self b n w m w' fan'
  assume "fan_inv fan" "length (live_messages body_size) \<le> lf_max_batch_size fan" "inboxes (lf_pool fan) (co_id self) = Some b"
    "drain_holds E expected n b w" "quiet_move m" "drain_move E horizon expected self m w fan = (w', fan')"
  then show "fan_inv fan' \<and> lf_max_batch_size fan' = lf_max_batch_size fan \<and> seq_messages (lf_pool fan') = seq_messages (lf_pool fan) \<and>
      (\<exists>b'. inboxes (lf_pool fan') = (inboxes (lf_pool fan))(co_id self \<mapsto> b') \<and> drain_holds E expected n b' w')"
    by (intro drain_move_keeps) (simp_all add: live_messages_def)
qed (auto simp: drain_holds_deposit live_messages_def publish_new_def)

lemma live_starts:
  assumes E: "engine_ok E" and clk: "\<forall>i. \<exists>t. now_ms (clk i) = Inr t" and size: "int consumer_count \<le> i64_max"
  obtains cw where "live_start E clk consumer_count messages = Some cw" "length (cw_tasks cw) = consumer_count"
    "crowd_inv (drain_holds E messages) (live_messages body_size) None messages (inboxes (lf_pool (cw_fan cw))) 0 cw"
proof -
  obtain fan where fan: "new_database = Some fan" "fan_inv fan" "lf_pool fan = empty_database" "lf_max_batch_size fan = 500"
    by (rule new_database_opens)
  have free: "consumer_name ` set [0..<consumer_count] \<inter> cr_name ` set (t_consumers (lf_pool fan)) = {}"
    "seq_consumers (lf_pool fan) + int (length [0..<consumer_count]) \<le> i64_max"
    using size by (simp_all add: fan(3) empty_sequences)
  obtain cs fan1 where c: "create_consumers E clk fan consumer_count FilterAll = (Some cs, fan1)" "fan_inv fan1"
    "length cs = consumer_count" "map co_id cs = map (\<lambda>i. seq_consumers (lf_pool fan) + 1 + int i) [0..<consumer_count]"
    "\<forall>c \<in> set cs. inboxes (lf_pool fan1) (co_id c) = Some (empty_inbox FilterAll)"
    "seq_messages (lf_pool fan1) = 0" "lf_max_batch_size fan1 = 500"
    using create_each_works [OF clk fan(2) distinct_upt free, of E FilterAll]
    by (auto simp: create_consumers_def fan(3,4) empty_sequences)
  let ?cw = "\<lparr>cw_fan = fan1, cw_slices = Some (step_by messages 100), cw_tasks = map (\<lambda>c. (c, 0, Looping)) cs\<rparr>"
  have "distinct (map co_id cs)" unfolding c(4) by (simp add: distinct_map inj_on_def)
  then have "distinct (map (co_id \<circ> fst) (cw_tasks ?cw))" by (simp add: comp_def)
  moreover have "drain_holds E messages 0 (empty_inbox FilterAll) (0, Looping)"
    using E by (simp add: drain_holds_def empty_inbox_def)
  moreover have "posts 0 0 None = {}" by (simp add: posts_def)
  ultimately have start: "crowd_inv (drain_holds E messages) (live_messages body_size) None messages (inboxes (lf_pool fan1)) 0 ?cw"
    using c by (auto simp: crowd_inv_def live_messages_def step_by_def posted_empty option.map_id0 intro!: exI [of _ 0])
  show thesis
    by (rule that [of ?cw]) (use start in \<open>simp_all add: live_start_def fan(1) c(1,3)\<close>)
qed

lemma live_fanout_works:
  assumes E: "engine_ok E" and clk: "\<forall>i. \<exists>t. now_ms (clk1 i) = Inr t" "\<forall>i. \<exists>t. now_ms (clk2 i) = Inr t"
    and size: "int consumer_count \<le> i64_max" "int messages \<le> i64_max" and steps: "\<forall>s \<in> set steps. fine_step quiet_move s"
  obtains cw n ib where "live_fanout E clk1 clk2 horizon consumer_count messages body_size steps = Some cw"
    "length (cw_tasks cw) = consumer_count"
    "crowd_inv (drain_holds E messages) (live_messages body_size) None messages ib n cw"
proof -
  obtain cw where s: "live_start E clk1 consumer_count messages = Some cw" "length (cw_tasks cw) = consumer_count"
    "crowd_inv (drain_holds E messages) (live_messages body_size) None messages (inboxes (lf_pool (cw_fan cw))) 0 cw"
    by (rule live_starts [OF E clk(1) size(1)])
  obtain n where n: "crowd_inv (drain_holds E messages) (live_messages body_size) None messages (inboxes (lf_pool (cw_fan cw))) n
      (fold (crowd_step (drain_move E horizon messages) E clk2 (live_messages body_size) messages) steps cw)"
    using live.run_inv [OF E clk(2) size(2) s(3) steps] by blast
  show thesis
    by (rule that [OF _ _ n]) (use s(1,2) map_eq_imp_length_eq [OF crowd_consumers [of "drain_move E horizon messages"]] in
      \<open>simp_all add: live_fanout_def\<close>)
qed

subsection \<open>\<open>publish_with_idle_pollers\<close>\<close>

text \<open>A task polls once; its result is dropped when the program aborts it.\<close>

datatype poller = Unpolled | Waiting int nat receivers | Returned "delivery list outcome"

definition patient_poll :: poll_opts where
  "patient_poll = \<lparr>po_max_messages = 1, po_visibility_timeout = duration_from_secs 60, po_wait = duration_from_secs 10\<rparr>"

fun poller_move :: "engine \<Rightarrow> nat \<Rightarrow> consumer \<Rightarrow> move \<Rightarrow> poller \<Rightarrow> litefan \<Rightarrow> poller \<times> litefan" where
  "poller_move E horizon self (Begin start) Unpolled fan =
     (case poll_setup horizon start patient_poll fan of
        Inl e \<Rightarrow> (Returned (Inl e), fan)
      | Inr (lease_ms, deadline) \<Rightarrow> (Waiting lease_ms deadline (subscribe_both self fan), fan))"
| "poller_move E horizon self (Turn t) (Waiting lease_ms deadline receivers) fan =
     (case poll_turn E self (po_max_messages patient_poll) lease_ms deadline t receivers fan of
        (Inl result, fan') \<Rightarrow> (Returned result, fan')
      | (Inr (sleep_for, receivers'), fan') \<Rightarrow> (Waiting lease_ms deadline receivers', fan'))"
| "poller_move E horizon self m w fan = (w, fan)"

definition active_messages :: "nat \<Rightarrow> publish list" where
  "active_messages batch_size = replicate batch_size ((publish_new [120])\<lparr>pb_topic := Some ''active''\<rparr>)"

definition pollers_start :: "engine \<Rightarrow> clock \<Rightarrow> (nat \<Rightarrow> clock) \<Rightarrow> nat \<Rightarrow> nat \<Rightarrow> nat \<Rightarrow> poller crowd option" where
  "pollers_start E clk1 clk2 poller_count messages batch_size =
     (case new_database of None \<Rightarrow> None
      | Some fan \<Rightarrow>
     (case open_consumer E clk1 (builder_filter (filter_topic ''active'') (consumer_builder_new ''active'')) fan of (Inl e, _) \<Rightarrow> None
      | (Inr active, fan1) \<Rightarrow>
     (case create_consumers E clk2 (drop_consumer active fan1) poller_count (filter_topic ''idle'') of (None, _) \<Rightarrow> None
      | (Some consumers, fan2) \<Rightarrow>
          Some \<lparr>cw_fan = fan2, cw_slices = (if batch_size = 0 then None else Some (step_by messages batch_size)),
                cw_tasks = map (\<lambda>c. (c, Unpolled)) consumers\<rparr>)))"

definition publish_with_idle_pollers :: "engine \<Rightarrow> clock \<Rightarrow> (nat \<Rightarrow> clock) \<Rightarrow> (nat \<Rightarrow> clock) \<Rightarrow> nat \<Rightarrow> nat \<Rightarrow> nat \<Rightarrow> nat
    \<Rightarrow> crowd_move list \<Rightarrow> poller crowd option" where
  "publish_with_idle_pollers E clk1 clk2 clk3 horizon poller_count messages batch_size steps =
     map_option (fold (crowd_step (poller_move E horizon) E clk3 (active_messages batch_size) messages) steps)
       (pollers_start E clk1 clk2 poller_count messages batch_size)"

text \<open>A poller is never handed anything, and fails at nothing.\<close>

definition idles :: "engine \<Rightarrow> nat \<Rightarrow> inbox \<Rightarrow> poller \<Rightarrow> bool" where
  "idles E n b w \<longleftrightarrow> engine_ok E \<and> ib_filter b = Some ''idle'' \<and> ib_owed b = {} \<and>
     (case w of Unpolled \<Rightarrow> True | Waiting lease_ms deadline receivers \<Rightarrow> lease_ms = 60000 | Returned r \<Rightarrow> r = Inr [])"

fun idle_move :: "nat \<Rightarrow> move \<Rightarrow> bool" where
  "idle_move horizon (Begin start) \<longleftrightarrow> start + duration_from_secs 10 \<le> horizon"
| "idle_move horizon (Turn t) \<longleftrightarrow> quiet (tk_others1 t) \<and> quiet (tk_others2 t) \<and>
     (\<exists>now. now_ms (tk_clock t) = Inr now \<and> in_i64 (now + 60000)) \<and> (\<exists>now. now_ms (tk_until_clock t) = Inr now)"
| "idle_move horizon m \<longleftrightarrow> True"

lemma idles_deposit:
  assumes "idles E n b w"
  shows "idles E (n + k) (deposit (posts (int n) k (Some ''active'')) b) w"
proof -
  have "{q \<in> posts (int n) k (Some ''active''). topic_matches (Some ''idle'') (snd q)} = {}"
    by (auto simp: posts_def topic_matches_def)
  with assms show ?thesis by (simp add: idles_def deposit_def)
qed

lemma patient_poll_setup:
  assumes "start + duration_from_secs 10 \<le> horizon" and "1 \<le> lf_max_batch_size fan"
  shows "poll_setup horizon start patient_poll fan = Inr (60000, start + duration_from_secs 10)"
  using assms
  by (simp add: poll_setup_def ensure_batch_size_def patient_poll_def duration_ms_Inr duration_from_secs_def i64_max_def)

lemma poller_move_keeps:
  assumes inv: "fan_inv fan" and n: "1 \<le> lf_max_batch_size fan"
    and b: "inboxes (lf_pool fan) (co_id self) = Some b" and holds: "idles E k b w" and m: "idle_move horizon m"
    and run: "poller_move E horizon self m w fan = (w', fan')"
  shows "fan_inv fan' \<and> lf_max_batch_size fan' = lf_max_batch_size fan \<and> seq_messages (lf_pool fan') = seq_messages (lf_pool fan) \<and>
    (\<exists>b'. inboxes (lf_pool fan') = (inboxes (lf_pool fan))(co_id self \<mapsto> b') \<and> idles E k b' w')"
proof -
  have E: "engine_ok E" using holds by (simp add: idles_def)
  have same: ?thesis if "fan' = fan" "idles E k b w'"
    using that inv b by (auto intro!: exI [of _ b])
  have po: "po_max_messages patient_poll = 1" by (simp add: patient_poll_def)
  show ?thesis
  proof (cases "(E, horizon, self, m, w, fan)" rule: poller_move.cases)
    case (1 E' h self' start fan0)
    with run holds m n show ?thesis by (intro same) (auto simp: idles_def patient_poll_setup)
  next
    case (2 E' h self' t lease_ms deadline receivers fan0)
    obtain x fan1 where turn: "poll_turn E self 1 lease_ms deadline t receivers fan = (x, fan1)" by fastforce
    have others: "quiet (tk_others1 t)" "quiet (tk_others2 t)" and lease: "lease_ms = 60000" using m holds 2 by (simp_all add: idles_def)
    have none: "workload (co_id self) 0 (lf_pool fan) {}"
      using b holds by (simp add: workload_nothing [OF fan_invD(1) [OF inv]] idles_def)
    have "x = Inl (Inr []) \<or> (\<exists>p. x = Inr p)"
      using poll_turn_idle(4) [OF E inv n none _ _ _ _ _ turn] m 2 quiet_undisturbed lease by auto
    then have "fan' = fan1 \<and> idles E k b w'"
      using run turn 2 holds lease by (auto simp: po idles_def split: prod.splits)
    with poll_turn_quiet [OF E inv n others turn] b show ?thesis by (auto intro!: exI [of _ b])
  qed (rule same; use run holds in simp)+
qed

interpretation pollers: crowd "poller_move E horizon" "idle_move horizon" "idles E" "active_messages (Suc k)" "Some ''active''"
  for E horizon k
proof unfold_locales
  fix fan self b n w m w' fan'
  assume "fan_inv fan" "length (active_messages (Suc k)) \<le> lf_max_batch_size fan" "inboxes (lf_pool fan) (co_id self) = Some b"
    "idles E n b w" "idle_move horizon m" "poller_move E horizon self m w fan = (w', fan')"
  then show "fan_inv fan' \<and> lf_max_batch_size fan' = lf_max_batch_size fan \<and> seq_messages (lf_pool fan') = seq_messages (lf_pool fan) \<and>
      (\<exists>b'. inboxes (lf_pool fan') = (inboxes (lf_pool fan))(co_id self \<mapsto> b') \<and> idles E n b' w')"
    by (intro poller_move_keeps) (simp_all add: active_messages_def)
qed (auto simp: idles_deposit active_messages_def publish_new_def)

text \<open>The consumer \<open>active\<close> is the first of the store, and nobody polls it.\<close>

lemma pollers_start_works:
  assumes E: "engine_ok E" and clk: "now_ms clk1 = Inr t" "\<forall>i. \<exists>t. now_ms (clk2 i) = Inr t"
    and size: "int poller_count < i64_max" "0 < batch_size" "batch_size \<le> 500"
  obtains cw where "pollers_start E clk1 clk2 poller_count messages batch_size = Some cw" "length (cw_tasks cw) = poller_count"
    "1 \<notin> (co_id \<circ> fst) ` set (cw_tasks cw)" "inboxes (lf_pool (cw_fan cw)) 1 = Some (empty_inbox (FilterTopic ''active''))"
    "crowd_inv (idles E) (active_messages batch_size) (Some ''active'') messages (inboxes (lf_pool (cw_fan cw))) 0 cw"
proof -
  obtain fan where fan: "new_database = Some fan" "fan_inv fan" "lf_pool fan = empty_database" "lf_max_batch_size fan = 500"
    by (rule new_database_opens)
  let ?b = "builder_filter (filter_topic ''active'') (consumer_builder_new ''active'')"
  have b: "cb_name ?b = ''active''" "cb_filter ?b = FilterTopic ''active''"
    by (simp_all add: builder_filter_def consumer_builder_new_def filter_topic_def)
  obtain a fan1 where o: "open_consumer E clk1 ?b fan = (Inr a, fan1)" "fan_inv fan1" "lf_max_batch_size fan1 = 500"
    "lf_pool fan1 = created_db ''active'' (Some ''active'') t empty_database"
    by (rule open_new [OF fan(2) _ _ _ clk(1), of ?b E]) (simp_all add: b fan(3,4) empty_sequences)
  let ?fan = "drop_consumer a fan1"
  have db1: "cr_name ` set (t_consumers (lf_pool ?fan)) = {''active''}" "seq_consumers (lf_pool ?fan) = 1"
    "seq_messages (lf_pool ?fan) = 0" "inboxes (lf_pool ?fan) 1 = Some (empty_inbox (FilterTopic ''active''))"
    by (simp_all add: o(4) inboxes_created [OF empty_database_inv])
      (simp_all add: created_db_def new_consumer_row_def empty_sequences empty_inbox_def)
  have "''active'' \<noteq> consumer_name i" for i by (simp add: consumer_name_def)
  then have free: "consumer_name ` set [0..<poller_count] \<inter> cr_name ` set (t_consumers (lf_pool ?fan)) = {}"
    "seq_consumers (lf_pool ?fan) + int (length [0..<poller_count]) \<le> i64_max"
    unfolding db1 using size(1) by auto
  obtain cs fan2 where c: "create_consumers E clk2 ?fan poller_count (filter_topic ''idle'') = (Some cs, fan2)" "fan_inv fan2"
    "length cs = poller_count" "map co_id cs = map (\<lambda>i. 1 + 1 + int i) [0..<poller_count]"
    "\<forall>c \<in> set cs. inboxes (lf_pool fan2) (co_id c) = Some (empty_inbox (FilterTopic ''idle''))"
    "seq_messages (lf_pool fan2) = 0" "lf_max_batch_size fan2 = 500"
    "inboxes (lf_pool fan2) 1 = Some (empty_inbox (FilterTopic ''active''))"
    using create_each_works [OF clk(2) drop_consumer_inv [OF o(2)] distinct_upt free, of E "FilterTopic ''idle''"] db1(2-4) o(3)
    by (auto simp: create_consumers_def filter_topic_def)
  let ?cw = "\<lparr>cw_fan = fan2, cw_slices = Some (step_by messages batch_size), cw_tasks = map (\<lambda>c. (c, Unpolled)) cs\<rparr>"
  have "distinct (map co_id cs)" unfolding c(4) by (simp add: distinct_map inj_on_def)
  then have "distinct (map (co_id \<circ> fst) (cw_tasks ?cw))" by (simp add: comp_def)
  moreover have "idles E 0 (empty_inbox (FilterTopic ''idle'')) Unpolled" using E by (simp add: idles_def empty_inbox_def)
  moreover have "posts 0 0 (Some ''active'') = {}" by (simp add: posts_def)
  ultimately have start: "crowd_inv (idles E) (active_messages batch_size) (Some ''active'') messages (inboxes (lf_pool fan2)) 0 ?cw"
    using c size(3) by (auto simp: crowd_inv_def active_messages_def step_by_def posted_empty option.map_id0 intro!: exI [of _ 0])
  have "1 \<notin> set (map co_id cs)" unfolding c(4) by auto
  then show thesis
    by (intro that [of ?cw]) (use start c(3,8) size(2) in \<open>simp_all add: pollers_start_def fan(1) o(1) c(1) image_image\<close>)
qed

lemma idle_pollers_publish:
  assumes E: "engine_ok E" and clk: "now_ms clk1 = Inr t" "\<forall>i. \<exists>t. now_ms (clk2 i) = Inr t" "\<forall>i. \<exists>t. now_ms (clk3 i) = Inr t"
    and size: "int poller_count < i64_max" "0 < batch_size" "batch_size \<le> 500" "int messages \<le> i64_max"
    and steps: "\<forall>s \<in> set steps. fine_step (idle_move horizon) s"
  obtains cw n ib where "publish_with_idle_pollers E clk1 clk2 clk3 horizon poller_count messages batch_size steps = Some cw"
    "length (cw_tasks cw) = poller_count" "inboxes (lf_pool (cw_fan cw)) 1
      = Some (deposit (posts 0 n (Some ''active'')) (empty_inbox (FilterTopic ''active'')))"
    "crowd_inv (idles E) (active_messages batch_size) (Some ''active'') messages ib n cw"
proof -
  obtain k where k: "batch_size = Suc k" using size(2) by (cases batch_size) auto
  obtain cw where s: "pollers_start E clk1 clk2 poller_count messages batch_size = Some cw" "length (cw_tasks cw) = poller_count"
    "1 \<notin> (co_id \<circ> fst) ` set (cw_tasks cw)" "inboxes (lf_pool (cw_fan cw)) 1 = Some (empty_inbox (FilterTopic ''active''))"
    "crowd_inv (idles E) (active_messages batch_size) (Some ''active'') messages (inboxes (lf_pool (cw_fan cw))) 0 cw"
    by (rule pollers_start_works [OF E clk(1,2) size(1-3)])
  let ?cw = "fold (crowd_step (poller_move E horizon) E clk3 (active_messages batch_size) messages) steps cw"
  obtain n where n: "crowd_inv (idles E) (active_messages batch_size) (Some ''active'') messages (inboxes (lf_pool (cw_fan cw))) n ?cw"
    using pollers.run_inv [OF E clk(3) size(4) s(5) [unfolded k] steps] by (auto simp: k)
  note same = crowd_consumers [of "poller_move E horizon" E clk3 "active_messages batch_size" messages steps cw]
  have "set (map co_id (map fst (cw_tasks ?cw))) = set (map co_id (map fst (cw_tasks cw)))" unfolding same ..
  then have "1 \<notin> (co_id \<circ> fst) ` set (cw_tasks ?cw)" using s(3) by (simp add: image_image comp_def)
  then have active: "inboxes (lf_pool (cw_fan ?cw)) 1 = Some (deposit (posts 0 n (Some ''active'')) (empty_inbox (FilterTopic ''active'')))"
    using n s(4) by (simp add: crowd_inv_def)
  show thesis
    by (rule that [OF _ _ active n]) (use s(1,2) map_eq_imp_length_eq [OF same] in \<open>simp_all add: publish_with_idle_pollers_def\<close>)
qed

end
