(* ===== verification/Workload_Guarantees.thy ===== *)
theory Workload_Guarantees
  imports Examples Keyed_Publishing Live_Publishing
begin

text \<open>
  What the programs of \<open>examples/\<close> assert, as theorems about the model: a preloaded backlog is
  drained exactly, competing workers count every message once, idle pollers return empty, and
  keyed messages published twice are stored once; and what holds while one task publishes and others
  drain or wait. Each property is followed by its use on
  small numbers, with the engine that lists rows in reverse.
\<close>

subsection \<open>Small instances\<close>

lemma demo_now: "now_ms demo_clock = Inr 1000"
  by code_simp

lemma demo_tick_now: "ms < 1000000 \<Longrightarrow> now_ms (int ms * 1000000) = Inr (int ms)"
  by (simp add: now_ms_def i64_try_from_def in_i64_def i64_min_def i64_max_def)

lemma demo_round: "ms < 1000000 \<Longrightarrow> start + wait \<le> horizon \<Longrightarrow> round_ok cid 0 horizon wait (start, [demo_tick ms i u])"
  by (simp add: demo_tick_def demo_tick_now in_i64_def i64_min_def i64_max_def)

lemma demo_idle: "ms < 1000000 \<Longrightarrow> u < 1000000 \<Longrightarrow> idle_tick cid 60000 (demo_tick ms i u)"
  by (simp add: idle_tick_def demo_tick_def demo_tick_now in_i64_def i64_min_def i64_max_def)

text \<open>Two workers and three messages: the second worker finds nothing while the first holds the leases.\<close>

definition demo_start :: "consumer \<times> contest" where
  "demo_start = the (contest_start reversing_engine demo_clock (\<lambda>_. demo_clock) 2 3)"

definition demo_moves :: "(nat \<times> move) list" where
  "demo_moves =
     [(0, Begin 7), (1, Begin 7), (0, Turn (demo_tick 1000 7 1000)), (1, Turn (demo_tick 1000 7 1000)),
      (0, Settle), (1, Turn (demo_tick 1001 8 1001)), (0, Add), (0, Begin 9)]"

lemma demo_starts: "contest_start reversing_engine demo_clock (\<lambda>_. demo_clock) 2 3 = Some (fst demo_start, snd demo_start)"
proof -
  have "contest_start reversing_engine demo_clock (\<lambda>_. demo_clock) 2 3 \<noteq> None" by code_simp
  then show ?thesis by (simp add: demo_start_def)
qed

subsection \<open>The programs\<close>

text \<open>C12: a preloaded backlog is drained exactly.
  After \<open>messages\<close> messages are published on a new store with any number of consumers, no delivery is
  stored, and every consumer's worker, whatever the other consumers' workers do meanwhile, ends
  with exactly \<open>messages\<close> acknowledged after one round for each full batch, and is owed nothing.\<close>

theorem backlog_fanout_drains:
  assumes E: "engine_ok E" and clk: "\<forall>i. \<exists>t. now_ms (clk1 i) = Inr t" "\<forall>i. \<exists>t. now_ms (clk2 i) = Inr t"
    and size: "int consumer_count \<le> i64_max" "int messages \<le> i64_max"
  shows "\<exists>consumers fan. preload_backlog E clk1 clk2 consumer_count messages = Some (consumers, fan) \<and>
    length consumers = consumer_count \<and> distinct (map co_id consumers) \<and>
    (\<forall>self \<in> set consumers. \<forall>horizon rounds.
       (\<forall>r \<in> set rounds. round_ok (co_id self) 0 horizon (duration_from_secs 2) r) \<longrightarrow> messages \<le> length rounds * 100 \<longrightarrow>
       (\<exists>fan'. drain_exact E horizon rounds self messages 100 0 fan = (Drained messages, fan') \<and>
          owes_backlog 0 fan' self))"
proof -
  obtain consumers fan where p: "preload_backlog E clk1 clk2 consumer_count messages = Some (consumers, fan)"
    "fan_inv fan" "lf_max_batch_size fan = 500" "t_deliveries (lf_pool fan) = []" "length consumers = consumer_count"
    "distinct (map co_id consumers)" "\<forall>self \<in> set consumers. owes_backlog messages fan self"
    by (rule preload_works [OF E clk size])
  have "\<exists>fan'. drain_exact E horizon rounds self messages 100 0 fan = (Drained messages, fan') \<and> owes_backlog 0 fan' self"
    if self: "self \<in> set consumers" and rounds: "\<forall>r \<in> set rounds. round_ok (co_id self) 0 horizon (duration_from_secs 2) r"
      "messages \<le> length rounds * 100" for self horizon rounds
  proof -
    have w: "workload (co_id self) 0 (lf_pool fan) {1..int messages}"
      using owes_backlog_workload [OF p(2) _ p(4)] p(7) self by blast
    have n: "0 < (100 :: nat)" "100 \<le> lf_max_batch_size fan" using p(3) by simp_all
    have card: "messages = 0 + card {1..int messages}" "card {1..int messages} \<le> length rounds * 100" using rounds(2) by simp_all
    obtain fan' where d: "drain_exact E horizon rounds self messages 100 0 fan = (Drained messages, fan')" "has_left E self 0 100 fan' 0"
      using exact.drains [OF has_left_backlog [OF E p(2) n w] card rounds(1)] by blast
    then show ?thesis using has_left_nothing by (fastforce simp: owes_backlog_def)
  qed
  with p(1,5,6) show ?thesis by blast
qed

theorem backlog_fanout_drains_witness:
  "\<exists>consumers fan fan'. preload_backlog reversing_engine (\<lambda>_. demo_clock) (\<lambda>_. demo_clock) 2 3 = Some (consumers, fan) \<and>
    length consumers = 2 \<and>
    drain_exact reversing_engine (10 ^ 30) [(7, [demo_tick 1000 7 1000])] (hd consumers) 3 100 0 fan = (Drained 3, fan')"
proof -
  have clk: "\<forall>i::nat. \<exists>t. now_ms demo_clock = Inr t" by (simp add: demo_now)
  have size: "int 2 \<le> i64_max" "int 3 \<le> i64_max" by (simp_all add: i64_max_def)
  obtain consumers fan where p: "preload_backlog reversing_engine (\<lambda>_. demo_clock) (\<lambda>_. demo_clock) 2 3 = Some (consumers, fan)"
    "length consumers = 2" and drains: "\<forall>self \<in> set consumers. \<forall>horizon rounds.
       (\<forall>r \<in> set rounds. round_ok (co_id self) 0 horizon (duration_from_secs 2) r) \<longrightarrow> 3 \<le> length rounds * 100 \<longrightarrow>
       (\<exists>fan'. drain_exact reversing_engine horizon rounds self 3 100 0 fan = (Drained 3, fan') \<and> owes_backlog 0 fan' self)"
    using backlog_fanout_drains [OF reversing_engine_ok clk clk size] by blast
  have "hd consumers \<in> set consumers" using p(2) by (cases consumers) auto
  moreover have "\<forall>r \<in> set [(7, [demo_tick 1000 7 1000])]. round_ok (co_id (hd consumers)) 0 (10 ^ 30) (duration_from_secs 2) r"
    by (simp add: demo_round duration_from_secs_def del: round_ok.simps)
  moreover have "3 \<le> length [(7 :: nat, [demo_tick 1000 7 1000])] * 100" by simp
  ultimately show ?thesis using drains p by blast
qed


text \<open>One worker drains in batches of any size.
  A worker that polls without waiting and counts what it is handed ends, for every batch size up to the
  configured maximum, with the number of messages published, and its consumer is owed nothing.\<close>

theorem claim_and_ack_drains:
  assumes E: "engine_ok E" and clk: "now_ms clk1 = Inr t" "\<forall>i. \<exists>t. now_ms (clk2 i) = Inr t"
    and size: "int message_count \<le> i64_max" "0 < batch_size" "batch_size \<le> 500"
    and rounds: "\<forall>r \<in> set rounds. round_ok 1 0 horizon 0 r" "message_count \<le> length rounds * batch_size"
  shows "\<exists>fan. claim_and_ack E clk1 clk2 horizon rounds batch_size message_count = Some (Drained message_count, fan) \<and>
    (\<exists>b. inboxes (lf_pool fan) 1 = Some b \<and> ib_owed b = {})"
proof -
  have name: "''worker'' \<noteq> []" by simp
  obtain fan c fan1 fan2 where p: "new_database = Some fan" "open_consumer E clk1 (consumer_builder_new ''worker'') fan = (Inr c, fan1)"
    "publish_messages E clk2 fan1 message_count = (True, fan2)" "co_id c = 1" "fan_inv fan2" "lf_max_batch_size fan2 = 500"
    "t_deliveries (lf_pool fan2) = []" "owes_backlog message_count fan2 c"
    by (rule single_backlog [OF E clk name size(1)])
  note w = owes_backlog_workload [OF p(5,8,7)]
  have card: "message_count = 0 + card {1..int message_count}" "card {1..int message_count} \<le> length rounds * batch_size"
    using rounds(2) by simp_all
  have rounds': "\<forall>r \<in> set rounds. round_ok (co_id c) 0 horizon 0 r" and n: "batch_size \<le> lf_max_batch_size fan2"
    using rounds(1) size(3) p(4,6) by simp_all
  obtain fan' where d: "drain E horizon rounds c message_count batch_size 0 fan2 = (Drained message_count, fan')"
    "has_left E c 0 batch_size fan' 0"
    using unwaiting.drains [OF has_left_backlog [OF E p(5) size(2) n w] card rounds'] by blast
  have "claim_and_ack E clk1 clk2 horizon rounds batch_size message_count = Some (Drained message_count, fan')"
    by (simp add: claim_and_ack_def p(1-3) d(1))
  moreover have "\<exists>b. inboxes (lf_pool fan') 1 = Some b \<and> ib_owed b = {}"
    using has_left_nothing [OF d(2)] p(4) by simp
  ultimately show ?thesis by blast
qed

theorem claim_and_ack_drains_witness:
  "\<exists>fan. claim_and_ack reversing_engine demo_clock (\<lambda>_. demo_clock) (10 ^ 30)
     [(7, [demo_tick 1000 7 1000]), (8, [demo_tick 1001 8 1001])] 2 3 = Some (Drained 3, fan)"
proof -
  have clk: "now_ms demo_clock = Inr 1000" "\<forall>i::nat. \<exists>t. now_ms demo_clock = Inr t" by (simp_all add: demo_now)
  have size: "int 3 \<le> i64_max" "0 < (2 :: nat)" "2 \<le> (500 :: nat)" by (simp_all add: i64_max_def)
  have "\<forall>r \<in> set [(7, [demo_tick 1000 7 1000]), (8, [demo_tick 1001 8 1001])]. round_ok 1 0 (10 ^ 30) 0 r"
    by (simp add: demo_round del: round_ok.simps)
  from claim_and_ack_drains [OF reversing_engine_ok clk size this] show ?thesis by auto
qed


text \<open>An inactive consumer costs nothing.
  A consumer that never polls is reported to be owed every message published, and no delivery is stored for it.\<close>

theorem inactive_backlog_counts:
  assumes E: "engine_ok E" and clk: "now_ms clk1 = Inr t" "\<forall>i. \<exists>t. now_ms (clk2 i) = Inr t" "now_ms clk3 = Inr now"
    and size: "int message_count \<le> i64_max"
  shows "inactive_backlog E clk1 clk2 clk3 message_count = Some (message_count, 0)"
proof -
  have name: "''inactive'' \<noteq> []" by simp
  obtain fan c fan1 fan2 where p: "new_database = Some fan" "open_consumer E clk1 (consumer_builder_new ''inactive'') fan = (Inr c, fan1)"
    "publish_messages E clk2 fan1 message_count = (True, fan2)" "co_id c = 1" "fan_inv fan2" "lf_max_batch_size fan2 = 500"
    "t_deliveries (lf_pool fan2) = []" "owes_backlog message_count fan2 c"
    by (rule single_backlog [OF E clk(1,2) name size])
  obtain b where b: "inboxes (lf_pool fan2) (co_id c) = Some b" "ib_owed b = {1..int message_count}"
    using p(8) by (auto simp: owes_backlog_def)
  obtain s where "consumer_snapshot clk3 c fan2 = Inr s" "cs_outstanding s = message_count"
    using consumer_snapshot_counts [OF p(5) clk(3) b(1)] b(2) by auto
  then show ?thesis by (simp add: inactive_backlog_def p(1-3,7))
qed

theorem inactive_backlog_counts_witness:
  "inactive_backlog reversing_engine demo_clock (\<lambda>_. demo_clock) demo_clock 3 = Some (3, 0)"
proof -
  have clk: "now_ms demo_clock = Inr 1000" "\<forall>i::nat. \<exists>t. now_ms demo_clock = Inr t" by (simp_all add: demo_now)
  have "int 3 \<le> i64_max" by (simp add: i64_max_def)
  from inactive_backlog_counts [OF reversing_engine_ok clk clk(1) this] show ?thesis .
qed


text \<open>C11: competing workers count every message once.
  Along any interleaving of the moves of any number of workers on one consumer, expired leases and
  redeliveries included, what is counted, what is acknowledged and about to be counted and what is
  still owed add up to the messages published. So the counter never exceeds them, and when one
  worker has left its loop everything is acknowledged and counted exactly once.\<close>

theorem competing_workers_count_exactly:
  assumes E: "engine_ok E" and clk: "now_ms clk1 = Inr t" "\<forall>i. \<exists>t. now_ms (clk2 i) = Inr t"
    and size: "int messages \<le> i64_max" and start: "contest_start E clk1 clk2 worker_count messages = Some (self, ct0)"
    and moves: "\<forall>im \<in> set ims. move_ok self im" and ct: "ct = fold (contest_move E horizon self messages) ims ct0"
  shows "ct_acknowledged ct + sum_list (map counted (ct_phases ct)) + outstanding (co_id self) (ct_fan ct) = messages \<and>
    (Finished \<in> set (ct_phases ct) \<longrightarrow> ct_acknowledged ct = messages \<and> outstanding (co_id self) (ct_fan ct) = 0)"
proof -
  obtain self' ct' where "contest_start E clk1 clk2 worker_count messages = Some (self', ct')" "contest_inv self' messages ct'"
    "ct_phases ct' = replicate worker_count Looping"
    by (rule contest_starts [OF E clk size])
  with start have "contest_inv self messages ct0" by simp
  from contest_run_inv [OF E this moves, of horizon] show ?thesis by (auto simp: contest_inv_def ct)
qed

theorem competing_workers_count_exactly_witness:
  "ct_acknowledged (fold (contest_move reversing_engine (10 ^ 30) (fst demo_start) 3) demo_moves (snd demo_start)) = 3"
proof -
  have clk: "now_ms demo_clock = Inr 1000" "\<forall>i::nat. \<exists>t. now_ms demo_clock = Inr t" by (simp_all add: demo_now)
  have "int 3 \<le> i64_max" by (simp add: i64_max_def)
  moreover have "contest_start reversing_engine demo_clock (\<lambda>_. demo_clock) 2 3 = Some (fst demo_start, snd demo_start)"
    by (rule demo_starts)
  moreover have "\<forall>im \<in> set demo_moves. move_ok (fst demo_start) im"
    by (simp add: demo_moves_def demo_tick_def undisturbed_def)
  moreover have "Finished \<in> set (ct_phases (fold (contest_move reversing_engine (10 ^ 30) (fst demo_start) 3) demo_moves (snd demo_start)))"
    by code_simp
  ultimately show ?thesis using competing_workers_count_exactly [OF reversing_engine_ok clk _ _ _ refl] by blast
qed


text \<open>C8: the books of a consumer balance.
  Over any run of operations that does not delete it, what a consumer is owed at the end plus what its acknowledgements
  and archivings reported as applied is what it was owed at the start plus the messages reported as published
  for it and the archives reported as redriven.\<close>

theorem books_balance:
  assumes "fan_inv fan" and "run_ok action_ok perform fan as" and "inboxes (lf_pool fan) cid \<noteq> None"
    and "Removed cid \<notin> set (run_events event_of perform fan as)"
  shows "outstanding cid (fold perform as fan) + sum_list (run_events (settled cid) perform fan as)
    = outstanding cid fan + sum_list (run_events (received cid) perform fan as)"
  using balanced_run [OF assms] by blast

theorem books_balance_witness:
  "outstanding 1 (fold perform demo_run demo_ready) + sum_list (run_events (settled 1) perform demo_ready demo_run)
    = outstanding 1 demo_ready + sum_list (run_events (received 1) perform demo_ready demo_run)"
proof (rule books_balance [OF demo_inv(2) demo_run_ok])
  show "inboxes (lf_pool demo_ready) 1 \<noteq> None" by code_simp
  show "Removed 1 \<notin> set (run_events event_of perform demo_ready demo_run)"
    unfolding demo_run_def demo_claim_def
    by (simp del: perform.simps split: sum.splits)
qed


text \<open>Idle pollers return empty.
  On a new store with any number of consumers, a poll of a consumer to which nothing is published returns no
  delivery and no error, at the latest with the first turn of its loop at or after its deadline, whatever
  other tasks do that leave its inbox alone.\<close>

theorem idle_pollers_return_empty:
  assumes E: "engine_ok E" and clk: "\<forall>i. \<exists>t. now_ms (clk i) = Inr t" and size: "int poller_count \<le> i64_max"
  shows "\<exists>consumers fan. idle_pollers E clk poller_count = Some (consumers, fan) \<and> length consumers = poller_count \<and>
    (\<forall>self \<in> set consumers. \<forall>horizon start ticks. start + duration_from_millis 500 \<le> horizon \<longrightarrow>
       (\<forall>t \<in> set ticks. idle_tick (co_id self) 60000 t) \<longrightarrow> (\<exists>t \<in> set ticks. start + duration_from_millis 500 \<le> tk_instant t) \<longrightarrow>
       idle_task E horizon start ticks self fan = Some True)"
proof -
  obtain consumers fan where p: "idle_pollers E clk poller_count = Some (consumers, fan)" "fan_inv fan" "lf_max_batch_size fan = 500"
    "length consumers = poller_count" "\<forall>self \<in> set consumers. workload (co_id self) 0 (lf_pool fan) {}"
    by (rule idle_pollers_work [OF E clk size])
  have "idle_task E horizon start ticks self fan = Some True"
    if self: "self \<in> set consumers" and h: "start + duration_from_millis 500 \<le> horizon"
      and ticks: "\<forall>t \<in> set ticks. idle_tick (co_id self) 60000 t" "\<exists>t \<in> set ticks. start + duration_from_millis 500 \<le> tk_instant t"
    for self horizon start ticks
  proof -
    have ready: "poll_setup horizon start idle_poll fan = Inr (60000, start + duration_from_millis 500)"
      using h by (simp add: poll_setup_def ensure_batch_size_def p(3) idle_poll_def duration_ms_Inr duration_from_secs_def i64_max_def)
    have n: "1 \<le> lf_max_batch_size fan" and w: "workload (co_id self) 0 (lf_pool fan) {}" using p(3,5) self by simp_all
    obtain fan' where "poll_loop E self 1 60000 (start + duration_from_millis 500) ticks (subscribe_both self fan) fan = (Some (Inr []), fan')"
      using poll_loop_idle [OF E p(2) n w ticks] by blast
    then have "poll E horizon start ticks self idle_poll fan = (Some (Inr []), fan')"
      by (simp add: poll_def ready) (simp add: idle_poll_def)
    then show ?thesis by (simp add: idle_task_def)
  qed
  with p(1,4) show ?thesis by blast
qed

theorem idle_pollers_return_empty_witness:
  "\<exists>consumers fan. idle_pollers reversing_engine (\<lambda>_. demo_clock) 2 = Some (consumers, fan) \<and>
    idle_task reversing_engine (10 ^ 30) 7 [demo_tick 1000 7 1000, demo_tick 1500 500000007 1500] (hd consumers) fan = Some True"
proof -
  have clk: "\<forall>i::nat. \<exists>t. now_ms demo_clock = Inr t" by (simp add: demo_now)
  have size: "int 2 \<le> i64_max" by (simp add: i64_max_def)
  let ?ticks = "[demo_tick 1000 7 1000, demo_tick 1500 500000007 1500]"
  obtain consumers fan where p: "idle_pollers reversing_engine (\<lambda>_. demo_clock) 2 = Some (consumers, fan)" "length consumers = 2"
    and idle: "\<forall>self \<in> set consumers. \<forall>horizon start ticks. start + duration_from_millis 500 \<le> horizon \<longrightarrow>
       (\<forall>t \<in> set ticks. idle_tick (co_id self) 60000 t) \<longrightarrow> (\<exists>t \<in> set ticks. start + duration_from_millis 500 \<le> tk_instant t) \<longrightarrow>
       idle_task reversing_engine horizon start ticks self fan = Some True"
    using idle_pollers_return_empty [OF reversing_engine_ok clk size] by blast
  have "hd consumers \<in> set consumers" using p(2) by (cases consumers) auto
  moreover have "7 + duration_from_millis 500 \<le> 10 ^ 30" by (simp add: duration_from_millis_def)
  moreover have "\<forall>t \<in> set ?ticks. idle_tick (co_id (hd consumers)) 60000 t" by (simp add: demo_idle)
  moreover have "\<exists>t \<in> set ?ticks. 7 + duration_from_millis 500 \<le> tk_instant t" by (simp add: demo_tick_def duration_from_millis_def)
  ultimately show ?thesis using idle p by blast
qed


text \<open>Keyed messages published twice are stored once.
  A list of messages with distinct keys, published in chunks and then published again within the
  window, is published under the ids \<open>1\<close> to \<open>message_count\<close> the first time and reported as
  duplicates of exactly these ids the second time.\<close>

theorem idempotent_publish_twice:
  assumes "engine_ok E" and "now_ms clk1 = Inr t" "within_window 86400000 until clk2" "within_window 86400000 until clk3"
    and "int message_count \<le> i64_max"
  shows "idempotent_publish E clk1 clk2 clk3 message_count
    = Some (map (\<lambda>i. Published (MessageId i)) [1..int message_count], map (\<lambda>i. Duplicate (MessageId i)) [1..int message_count])"
  by (rule idempotent_publish_works [OF assms])

theorem idempotent_publish_twice_witness:
  "idempotent_publish reversing_engine demo_clock (\<lambda>_. demo_clock) (\<lambda>i. 2000000000) 2
    = Some ([Published (MessageId 1), Published (MessageId 2)], [Duplicate (MessageId 1), Duplicate (MessageId 2)])"
proof -
  have now: "now_ms 2000000000 = Inr 2000" by code_simp
  have "within_window 86400000 86401000 (\<lambda>_. demo_clock)" "within_window 86400000 86401000 (\<lambda>i. 2000000000)"
    using demo_now now by (simp_all add: within_window_def i64_max_def)
  from idempotent_publish_twice [OF reversing_engine_ok demo_now this, of 2] show ?thesis
    by (simp add: upto_rec1 i64_max_def)
qed


text \<open>C13: live fan-out counts every message once for every consumer.
  While one task publishes in batches and the worker of each of any number of consumers drains, in any
  interleaving, what a worker that has not crashed has counted and what its consumer is still owed add
  up to the messages published so far. The publisher never fails, and a worker that has left its loop
  has counted exactly \<open>messages\<close> and left nothing.\<close>

theorem live_fanout_counts:
  assumes E: "engine_ok E" and clk: "\<forall>i. \<exists>t. now_ms (clk1 i) = Inr t" "\<forall>i. \<exists>t. now_ms (clk2 i) = Inr t"
    and size: "int consumer_count \<le> i64_max" "int messages \<le> i64_max" and steps: "\<forall>s \<in> set steps. fine_step quiet_move s"
  shows "\<exists>cw n. live_fanout E clk1 clk2 horizon consumer_count messages body_size steps = Some cw \<and>
    length (cw_tasks cw) = consumer_count \<and> cw_slices cw \<noteq> None \<and>
    n = nat (seq_messages (lf_pool (cw_fan cw))) \<and> n \<le> messages \<and> (cw_slices cw = Some [] \<longrightarrow> n = messages) \<and>
    (\<forall>(self, drained, p) \<in> set (cw_tasks cw).
       (p \<noteq> Crashed \<longrightarrow> drained + outstanding (co_id self) (cw_fan cw) = n) \<and>
       (p = Finished \<longrightarrow> drained = messages \<and> outstanding (co_id self) (cw_fan cw) = 0))"
proof -
  obtain cw n ib where run: "live_fanout E clk1 clk2 horizon consumer_count messages body_size steps = Some cw"
    "length (cw_tasks cw) = consumer_count"
    and inv: "crowd_inv (drain_holds E messages) (live_messages body_size) None messages ib n cw"
    by (rule live_fanout_works [OF E clk size steps])
  have "live_messages body_size \<noteq> []" by (simp add: live_messages_def)
  note n = crowd_published [OF inv this]
  have "(p \<noteq> Crashed \<longrightarrow> drained + outstanding (co_id self) (cw_fan cw) = n) \<and>
      (p = Finished \<longrightarrow> drained = messages \<and> outstanding (co_id self) (cw_fan cw) = 0)"
    if task: "(self, drained, p) \<in> set (cw_tasks cw)" for self drained p
  proof -
    have "\<forall>(self, w) \<in> set (cw_tasks cw). \<exists>b. inboxes (lf_pool (cw_fan cw)) (co_id self) = Some b \<and> drain_holds E messages n b w"
      using inv unfolding crowd_inv_def by blast
    with task obtain b where "inboxes (lf_pool (cw_fan cw)) (co_id self) = Some b" "drain_holds E messages n b (drained, p)"
      by blast
    with n(1) show ?thesis by (auto simp: drain_holds_def outstanding_def)
  qed
  with run n show ?thesis by (intro exI [of _ cw] exI [of _ n]) auto
qed

definition demo_live :: "(nat \<times> phase) crowd" where
  "demo_live = the (live_fanout reversing_engine (\<lambda>_. demo_clock) (\<lambda>_. demo_clock) (10 ^ 30) 2 3 1
     [Task 0 (Begin 7), PublishNext, Task 0 (Turn (demo_tick 1000 7 1000)), Task 0 Settle, Task 0 (Begin 9)])"

theorem live_fanout_counts_witness:
  "outstanding (co_id (fst (hd (cw_tasks demo_live)))) (cw_fan demo_live) = 0"
proof -
  have clk: "\<forall>i::nat. \<exists>t. now_ms demo_clock = Inr t" by (simp add: demo_now)
  have size: "int 2 \<le> i64_max" "int 3 \<le> i64_max" by (simp_all add: i64_max_def)
  have steps: "\<forall>s \<in> set [Task 0 (Begin 7), PublishNext, Task 0 (Turn (demo_tick 1000 7 1000)), Task 0 Settle, Task 0 (Begin 9)].
      fine_step quiet_move s" by (simp add: demo_tick_def)
  have "snd (snd (hd (cw_tasks demo_live))) = Finished" by code_simp
  moreover have "cw_tasks demo_live \<noteq> []" by code_simp
  ultimately have "(fst (hd (cw_tasks demo_live)), fst (snd (hd (cw_tasks demo_live))), Finished) \<in> set (cw_tasks demo_live)"
    by (metis list.set_sel(1) prod.collapse)
  with live_fanout_counts [OF reversing_engine_ok clk clk size steps, of "10 ^ 30" 1]
  show ?thesis by (auto simp: demo_live_def)
qed


text \<open>Idle pollers disturb nobody.
  While messages for one topic are published in batches of any allowed size and any number of consumers of another
  topic wait in polls, in any interleaving, publishing never fails, no poll returns a delivery or an
  error, and the consumer of the topic is owed everything published so far.\<close>

theorem idle_pollers_disturb_nobody:
  assumes E: "engine_ok E" and clk: "now_ms clk1 = Inr t" "\<forall>i. \<exists>t. now_ms (clk2 i) = Inr t" "\<forall>i. \<exists>t. now_ms (clk3 i) = Inr t"
    and size: "int poller_count < i64_max" "0 < batch_size" "batch_size \<le> 500" "int messages \<le> i64_max"
    and steps: "\<forall>s \<in> set steps. fine_step (idle_move horizon) s"
  shows "\<exists>cw. publish_with_idle_pollers E clk1 clk2 clk3 horizon poller_count messages batch_size steps = Some cw \<and>
    length (cw_tasks cw) = poller_count \<and> cw_slices cw \<noteq> None \<and>
    outstanding 1 (cw_fan cw) = nat (seq_messages (lf_pool (cw_fan cw))) \<and>
    (cw_slices cw = Some [] \<longrightarrow> outstanding 1 (cw_fan cw) = messages) \<and>
    (\<forall>(self, w) \<in> set (cw_tasks cw). (\<forall>r. w = Returned r \<longrightarrow> r = Inr []) \<and> outstanding (co_id self) (cw_fan cw) = 0)"
proof -
  obtain cw n ib where run: "publish_with_idle_pollers E clk1 clk2 clk3 horizon poller_count messages batch_size steps = Some cw"
    "length (cw_tasks cw) = poller_count" "inboxes (lf_pool (cw_fan cw)) 1
      = Some (deposit (posts 0 n (Some ''active'')) (empty_inbox (FilterTopic ''active'')))"
    and inv: "crowd_inv (idles E) (active_messages batch_size) (Some ''active'') messages ib n cw"
    by (rule idle_pollers_publish [OF E clk size steps])
  have "active_messages batch_size \<noteq> []" using size(2) by (simp add: active_messages_def)
  note n = crowd_published [OF inv this]
  have "{q \<in> posts 0 n (Some ''active''). topic_matches (Some ''active'') (snd q)} = posts 0 n (Some ''active'')"
    by (auto simp: posts_def topic_matches_def)
  moreover have "fst ` posts 0 n (Some ''active'') = {1..int n}" by (simp add: posts_def image_image)
  ultimately have "outstanding 1 (cw_fan cw) = n" by (simp add: outstanding_def run(3) deposit_def empty_inbox_def)
  moreover have "(\<forall>r. w = Returned r \<longrightarrow> r = Inr []) \<and> outstanding (co_id self) (cw_fan cw) = 0"
    if task: "(self, w) \<in> set (cw_tasks cw)" for self w
  proof -
    have "\<forall>(self, w) \<in> set (cw_tasks cw). \<exists>b. inboxes (lf_pool (cw_fan cw)) (co_id self) = Some b \<and> idles E n b w"
      using inv unfolding crowd_inv_def by blast
    with task obtain b where "inboxes (lf_pool (cw_fan cw)) (co_id self) = Some b" "idles E n b w" by blast
    then show ?thesis by (auto simp: idles_def outstanding_def)
  qed
  ultimately show ?thesis using run n by (intro exI [of _ cw]) auto
qed

theorem idle_pollers_disturb_nobody_witness:
  "\<exists>cw. publish_with_idle_pollers reversing_engine demo_clock (\<lambda>_. demo_clock) (\<lambda>_. demo_clock) (10 ^ 30) 2 3 2
     [Task 1 (Begin 7), PublishNext, Task 1 (Turn (demo_tick 1000 7 1000)), PublishNext] = Some cw \<and>
    outstanding 1 (cw_fan cw) = nat (seq_messages (lf_pool (cw_fan cw)))"
proof -
  have clk: "now_ms demo_clock = Inr 1000" "\<forall>i::nat. \<exists>t. now_ms demo_clock = Inr t" by (simp_all add: demo_now)
  have size: "int 2 < i64_max" "0 < (2 :: nat)" "2 \<le> (500 :: nat)" "int 3 \<le> i64_max" by (simp_all add: i64_max_def)
  have "\<forall>s \<in> set [Task 1 (Begin 7), PublishNext, Task 1 (Turn (demo_tick 1000 7 1000)), PublishNext]. fine_step (idle_move (10 ^ 30)) s"
    using demo_idle [of 1000 1000 1 7] by (simp add: idle_tick_def demo_tick_def duration_from_secs_def)
  from idle_pollers_disturb_nobody [OF reversing_engine_ok clk(1) clk(2) clk(2) size this] show ?thesis by auto
qed


text \<open>Publishing reaches everybody at once.
  With \<open>consumer_count\<close> consumers on a new store, the deliveries the program reports are what the consumers
  are owed altogether, each of them every message.\<close>

theorem fanout_publish_delivers:
  assumes E: "engine_ok E" and clk: "\<forall>i. \<exists>t. now_ms (clk1 i) = Inr t" "\<forall>i. \<exists>t. now_ms (clk2 i) = Inr t"
    and size: "int consumer_count \<le> i64_max" "int message_count \<le> i64_max"
  shows "\<exists>deliveries fan. fanout_publish E clk1 clk2 consumer_count message_count = Some (deliveries, fan) \<and>
    (\<Sum>cid \<in> dom (inboxes (lf_pool fan)). outstanding cid fan) = deliveries \<and>
    card (dom (inboxes (lf_pool fan))) = consumer_count"
proof -
  obtain fan where run: "fanout_publish E clk1 clk2 consumer_count message_count = Some (consumer_count * message_count, fan)"
    "dom (inboxes (lf_pool fan)) = {1..int consumer_count}" "\<forall>cid \<in> {1..int consumer_count}. outstanding cid fan = message_count"
    by (rule fanout_publish_owes [OF E clk size])
  then show ?thesis by (simp add: run(2))
qed

theorem fanout_publish_delivers_witness:
  "\<exists>deliveries fan. fanout_publish reversing_engine (\<lambda>_. demo_clock) (\<lambda>_. demo_clock) 2 3 = Some (deliveries, fan) \<and>
    (\<Sum>cid \<in> dom (inboxes (lf_pool fan)). outstanding cid fan) = deliveries"
proof -
  have clk: "\<forall>i::nat. \<exists>t. now_ms demo_clock = Inr t" by (simp add: demo_now)
  have "int 2 \<le> i64_max" "int 3 \<le> i64_max" by (simp_all add: i64_max_def)
  from fanout_publish_delivers [OF reversing_engine_ok clk clk this] show ?thesis by blast
qed

end
