(* ===== verification/Unit_Tests.thy ===== *)
theory Unit_Tests
  imports Rendering Durable_Time Signals
begin

text \<open>
  The unit tests inside \<open>src/\<close>, run against the model: the modules \<open>tests\<close> of \<open>api.rs\<close>, \<open>error.rs\<close>,
  \<open>signals.rs\<close> and \<open>time.rs\<close>. A test is the conjunction of its assertions, made on what the calls before
  them return and leave. The lemma \<open>unit_tests_pass\<close> evaluates them.
\<close>

subsection \<open>\<open>api.rs\<close>\<close>

text \<open>A byte string literal.\<close>

definition bytes :: "utf8 \<Rightarrow> blob" where
  "bytes s = map of_char s"

definition publish_builder_preserves_optional_metadata :: bool where
  "publish_builder_preserves_optional_metadata \<longleftrightarrow>
     (let publish = with_idempotency_key (bytes ''key'') (with_topic ''jobs'' (publish_new (bytes ''body'')))
      in pb_body publish = bytes ''body'' \<and> pb_topic publish = Some ''jobs'' \<and>
         pb_idempotency_key publish = Some (bytes ''key''))"

definition snapshot_helpers_describe_consumer_progress :: bool where
  "snapshot_helpers_describe_consumer_progress \<longleftrightarrow>
     (let snapshot =
            \<lparr>cs_name = ''worker'', cs_filter = FilterAll, cs_state = Active, cs_created_at_ms = 0,
             cs_draining_at_ms = None, cs_outstanding = 2, cs_ready = 1, cs_next_ready_at_ms = Some 1,
             cs_oldest_outstanding_at_ms = Some 0, cs_archived = 0\<rparr>;
          snapshot' = snapshot\<lparr>cs_state := Draining, cs_outstanding := 0, cs_ready := 1\<rparr>
      in \<not> snapshot_is_empty snapshot \<and> \<not> snapshot_is_drained snapshot \<and> snapshot_not_ready snapshot = 1 \<and>
         snapshot_is_empty snapshot' \<and> snapshot_is_drained snapshot' \<and> snapshot_not_ready snapshot' = 0)"

subsection \<open>\<open>error.rs\<close>\<close>

definition errors_have_actionable_messages :: "(nat \<Rightarrow> bool) \<Rightarrow> (sql_error \<Rightarrow> utf8) \<Rightarrow> bool" where
  "errors_have_actionable_messages shown cause \<longleftrightarrow>
     display shown cause (BatchTooLarge 10 5) = ''batch contains 10 items; maximum is 5'' \<and>
     display shown cause (ConsumerNotEmpty ''worker'' 2) =
       ''consumer '' @ [CHR 0x22] @ ''worker'' @ [CHR 0x22] @ '' still has 2 outstanding deliveries''"

subsection \<open>\<open>signals.rs\<close>\<close>

definition topic_signals_are_shared_only_for_the_same_topic :: bool where
  "topic_signals_are_shared_only_for_the_same_topic \<longleftrightarrow>
     (let (jobs, signals1) = publishes_for (filter_topic ''jobs'') signals_new;
          (same_jobs, signals2) = publishes_for (filter_topic ''jobs'') signals1;
          (metrics, signals3) = publishes_for (filter_topic ''metrics'') signals2
      in jobs = same_jobs \<and> jobs \<noteq> metrics)"

definition expired_registry_entries_are_replaced :: bool where
  "expired_registry_entries_are_replaced \<longleftrightarrow>
     (let (original, signals1) = consumer_signal 7 signals_new;
          signals2 = drop_signal original signals1;
          (replacement, signals3) = consumer_signal 7 signals2
      in replacement \<noteq> original)"

definition publishes_wake_all_and_matching_topic_subscribers :: bool where
  "publishes_wake_all_and_matching_topic_subscribers \<longleftrightarrow>
     (let (all, signals1) = publishes_for FilterAll signals_new;
          (jobs, signals2) = publishes_for (filter_topic ''jobs'') signals1;
          (metrics, signals3) = publishes_for (filter_topic ''metrics'') signals2;
          all_rx = watch_subscribe (sh_watch (sg_heap signals3) all);
          jobs_rx = watch_subscribe (sh_watch (sg_heap signals3) jobs);
          metrics_rx = watch_subscribe (sh_watch (sg_heap signals3) metrics);
          signals4 = notify_publishes [Some ''jobs'', Some ''jobs'', None] signals3
      in watch_changed (sh_watch (sg_heap signals4) all) all_rx \<and>
         watch_changed (sh_watch (sg_heap signals4) jobs) jobs_rx \<and>
         \<not> watch_changed (sh_watch (sg_heap signals4) metrics) metrics_rx)"

subsection \<open>\<open>time.rs\<close>\<close>

definition duration_from_micros :: "nat \<Rightarrow> duration" where
  "duration_from_micros us = us * 1000"

definition duration_conversion_truncates_sub_millisecond_precision :: bool where
  "duration_conversion_truncates_sub_millisecond_precision \<longleftrightarrow> duration_ms (duration_from_micros 1999) = Inr 1"

definition timestamp_addition_checks_overflow :: bool where
  "timestamp_addition_checks_overflow \<longleftrightarrow>
     add_duration 10 (duration_from_millis 5) = Inr 15 \<and>
     add_duration i64_max (duration_from_millis 1) = Inl DurationOutOfRange"

fun is_invalid_config :: "unit outcome \<Rightarrow> bool" where
  "is_invalid_config (Inl (InvalidConfig message)) = True"
| "is_invalid_config result = False"

definition config_validation_covers_independent_limits :: bool where
  "config_validation_covers_independent_limits \<longleftrightarrow>
     list_all (\<lambda>config. is_invalid_config (validate_config config))
       [default_config\<lparr>cfg_max_connections := 0\<rparr>, default_config\<lparr>cfg_max_batch_size := 0\<rparr>,
        default_config\<lparr>cfg_cross_process_poll_interval := 0\<rparr>, default_config\<lparr>cfg_idempotency_window := 0\<rparr>] \<and>
     validate_config default_config = Inr ()"

subsection \<open>Results\<close>

lemma time_tests_pass:
  "duration_conversion_truncates_sub_millisecond_precision"
  "timestamp_addition_checks_overflow"
  "config_validation_covers_independent_limits"
proof -
  show duration_conversion_truncates_sub_millisecond_precision
    by (simp add: duration_conversion_truncates_sub_millisecond_precision_def duration_ms_Inr duration_from_micros_def i64_max_def)
  have "add_duration i64_max (duration_from_millis 1) \<noteq> Inr r" for r
    by (simp add: add_duration_Inr duration_from_millis_def in_i64_def)
  then have "add_duration i64_max (duration_from_millis 1) = Inl DurationOutOfRange"
    by (cases "add_duration i64_max (duration_from_millis 1)") (simp_all add: add_duration_error)
  moreover have "add_duration 10 (duration_from_millis 5) = Inr 15"
    by (simp add: add_duration_Inr duration_from_millis_def in_i64_def i64_min_def i64_max_def)
  ultimately show timestamp_addition_checks_overflow by (simp add: timestamp_addition_checks_overflow_def)
  show config_validation_covers_independent_limits
    by (simp add: config_validation_covers_independent_limits_def default_config_def validate_config_def as_millis_def
        duration_from_secs_def duration_from_millis_def i64_try_from_def in_i64_def i64_min_def i64_max_def)
qed

lemma unit_tests_pass:
  "publish_builder_preserves_optional_metadata"
  "snapshot_helpers_describe_consumer_progress"
  "errors_have_actionable_messages shown cause"
  "topic_signals_are_shared_only_for_the_same_topic"
  "expired_registry_entries_are_replaced"
  "publishes_wake_all_and_matching_topic_subscribers"
  by code_simp+

end
