(* ===== verification/Spec2Isabelle.thy ===== *)
theory Spec2Isabelle
  imports Consumer_Guarantees Store_Guarantees Waiting_Guarantees Workload_Guarantees Unit_Tests
begin

text \<open>
  litefan is a library that turns a SQLite database into a fan-out log with at-least-once
  delivery. Publishers append messages, each with an optional topic and an optional idempotency
  key. A consumer is a durable name with a filter; it reads the log through a cursor and leases
  what it is handed. A lease ends with an acknowledgement, a release for retry, an archive, or by
  passing its deadline. Processes share only the database file; inside one process, signals wake
  up waiting consumers. This development models the library in \<open>src/\<close> (the Rust crate) function by
  function and proves what its callers rely on.

  \<^bold>\<open>From the code to the theories.\<close>
  \<^item> \<open>Prelude\<close>: checked and saturating 64-bit arithmetic, Rust's \<open>?\<close>, slices cut into chunks and
    the loops that run a statement per chunk (locale \<open>chunked_stmt\<close>).
  \<^item> \<open>Api\<close>: the types and builders of \<open>api.rs\<close>, the enum of \<open>error.rs\<close>. \<open>Rendering\<close>: \<open>Display\<close>,
    \<open>source\<close> and \<open>From\<close> of \<open>error.rs\<close>. \<open>Durable_Time\<close>: \<open>time.rs\<close>.
  \<^item> \<open>Schema\<close>: the tables of \<open>schema.rs\<close> as lists of row records, with inserts, updates and
    deletes that check primary keys, \<open>UNIQUE\<close>, \<open>CHECK\<close> and \<open>REFERENCES\<close>, and \<open>transaction\<close>, which
    rolls back on an error. \<open>Catalog\<close>: the script of \<open>schema.rs\<close> itself, statement by statement, on the
    tables and indexes a file already has. \<open>db_inv\<close> is the invariant of the database; \<open>Invariants\<close> shows how each
    kind of statement keeps it.
  \<^item> \<open>Storage\<close>: the helpers of \<open>storage.rs\<close> and the freedom SQLite has (\<open>engine\<close>, below).
  \<^item> \<open>Signals\<close>: \<open>signals.rs\<close>, with an explicit heap of watch channels and \<open>Arc\<close> counts.
  \<^item> \<open>Litefan\<close>, \<open>Opening\<close>, \<open>Publishing\<close>, \<open>Retention\<close>: \<open>store.rs\<close>, that is the handle, opening a file,
    \<open>publish\<close> and \<open>publish_batch\<close> with the idempotency ledger, \<open>snapshot\<close>, \<open>delete_consumer\<close> and
    \<open>prune_messages\<close>.
  \<^item> \<open>Lifecycle\<close>, \<open>Claiming\<close>, \<open>Delivering\<close>, \<open>Polling\<close>, \<open>Receipts\<close>, \<open>Archives\<close>: \<open>consumer.rs\<close>, that is
    opening and draining a consumer, \<open>claim\<close>, \<open>poll\<close>, the three receipt operations, and archiving,
    listing, redriving and purging.
  \<^item> \<open>Inbox\<close>: the abstract specification. Every consumer has an inbox, the messages it is owed and
    the messages it has archived; \<open>inbox_event\<close> says what an operation may do to the inboxes.
  \<^item> \<open>System\<close>: every committing operation as an \<open>action\<close>, the step function \<open>perform\<close>, the simulation
    of the inboxes (locale \<open>refinement\<close>, interpreted as \<open>fan\<close>), the reachable stores, and the step
    relation \<open>db_step\<close> of the database. \<open>Lifetimes\<close>, \<open>Idempotency\<close> and \<open>Isolation\<close> follow receipts,
    leases, keys, ids and the rows of one consumer along runs; \<open>Waiting\<close> follows the signals of a
    process and the handles it holds (\<open>process\<close>, the second interpretation of \<open>refinement\<close>).
    \<open>Accounting\<close> counts what operations report to put into an inbox and to take out of it.
  \<^item> \<open>Worker\<close>, \<open>Workloads\<close>, \<open>Competing\<close>, \<open>Keyed_Publishing\<close>, \<open>Crowd\<close>, \<open>Live_Publishing\<close>: the client
    programs under \<open>examples/\<close>. The loops that poll and acknowledge until a count is reached
    (\<open>drain_exact\<close>, \<open>drain\<close>, both by the locale \<open>drain_loop\<close>), consumers and backlogs on a new store,
    workers that compete for one consumer as a state machine whose moves interleave (\<open>worker_move\<close>,
    \<open>contest_inv\<close>), idle pollers, keyed messages published twice, and one publishing task among
    tasks with consumers of their own (\<open>crowd_step\<close>; the locale \<open>crowd\<close> has the contract of a task and
    is interpreted for draining workers and for idle pollers). What other tasks do to a consumer
    between the statements of one poll is bounded by \<open>keeps\<close>, \<open>undisturbed\<close> and \<open>quiet\<close>; \<open>keeps_claim\<close> and
    \<open>keeps_ack\<close> show that the workers of other consumers meet the first.
  \<^item> \<open>Unit_Tests\<close>: the test modules inside the sources, evaluated on the model.
  \<^item> \<open>Examples\<close>: a small concrete store on which every property with a hypothesis is applied.
    \<open>Consumer_Guarantees\<close>, \<open>Store_Guarantees\<close> and \<open>Waiting_Guarantees\<close> state what single operations
    guarantee, \<open>Workload_Guarantees\<close> what the programs assert; this theory holds the properties of
    whole runs.

  \<^bold>\<open>How operations are modelled.\<close> A handler takes the store \<open>litefan\<close>, which is the database, the
  configuration and the registry of signals, and returns \<open>Left\<close> an error or \<open>Right\<close> a result
  together with the store it leaves. Statements that the code cuts into chunks to respect the
  SQLite variable limit of 999 are cut in the model too (332 receipts, 333 messages, 166 archives,
  998 ids, 199 redriven deliveries a chunk); lemmas such as \<open>ack_txn_eq\<close> and \<open>publish_keyed_txn_eq\<close> show what
  the chunks add up to. \<open>i64\<close> is \<open>int\<close> with the overflow behaviour of each operation written out;
  the cast to \<open>u64\<close> in \<open>duration_until_ms\<close> goes through 64-bit words. Clocks are arguments.

  What the code leaves to SQLite is a parameter: the record \<open>engine\<close> holds the order in which
  \<open>RETURNING\<close> yields its rows and whether an insert that does nothing burns an id. \<open>engine_ok\<close>
  states the documented behaviour, that the rows are a permutation, and \<open>reversing_engine\<close>
  meets it. Write transactions are serialised. What other processes commit between the
  statements of one operation is an argument too (\<open>others1\<close>, \<open>others2\<close> of \<open>claim\<close>, \<open>tick\<close> of \<open>poll\<close>).

  \<^bold>\<open>Bounds.\<close> No definition needs fuel. The loop of \<open>poll\<close> runs over the list of its wake-ups, and
  \<open>None\<close> is a poll that still waits when the list ends; \<open>poll_returns_by_deadline\<close> shows that any
  list with one wake-up at the deadline is long enough. The drain loops run over the list of their
  rounds, and \<open>Unfinished\<close> is a worker that still runs when it ends; one round for each full batch of
  the backlog is enough (locale \<open>drain_loop\<close>, interpreted for both loops).

  \<^bold>\<open>What is shown.\<close> The invariant holds in every reachable store, restarts included. The
  operations implement the inboxes, and from this: nothing owed is lost, publishing reaches every
  matching consumer, an archive and its redrive cancel, draining only shrinks, and deletion and
  pruning discard nothing that is owed unless told to. Leases are exclusive, receipts that have
  become stale stay stale, keys deduplicate for exactly their window, ids are never reused,
  consumers do not interfere, no wake-up is lost, and polls keep their deadlines. The books of every
  consumer balance over any run; workers drain a backlog exactly, competing workers count every
  message once, also while messages are being published, and idle polls return empty. Every operation has its result and effect on each
  branch, and its errors, stated exactly.

  Five properties state behaviour that the documentation of the crate does not promise:
  \<open>redrive_revives_receipt\<close> (a redrive restarts generations, so an old receipt is valid again),
  \<open>poll_oversleeps\<close> (a deadline that passes between two clock readings becomes an enormous unsigned
  wait), \<open>extend_batch_counts_per_chunk\<close> (a receipt repeated in two chunks is counted twice),
  \<open>nack_batch_exact\<close> (receipts of two generations in two chunks release one delivery twice) and
  \<open>open_gates\<close> (a file refused for its old layout has been given the tables it lacked).

  \<^bold>\<open>Not modelled.\<close> The options of connections and pools and the journal mode in \<open>store.rs\<close>, the errors
  of SQLite that the data does not decide, such as \<open>SQLITE_BUSY\<close> and I/O errors, and cancelled futures (a
  transaction commits or has no effect), views and case-folded names in the catalog of a file, the text of a
  database error and Rust's table of printable characters (arguments of \<open>display\<close>), the re-exports of \<open>lib.rs\<close>, the timing and printing of the programs under \<open>examples/\<close>
  and their \<open>main\<close>, and the integration tests under \<open>tests/\<close>. A claim is one move among the tasks of a program: what
  other tasks publish or acknowledge counts as before or after it. Names and topics are strings of HOL characters, one per UTF-8 byte, payloads and
  keys lists of bytes.
\<close>

text \<open>C1: at least once.
  Once a consumer is owed a message, it stays owed along any run of operations by any
  processes, unless one of them acknowledges or archives the message for this consumer or
  deletes the consumer. Claims, expired leases, releases, extensions, pruning, draining and
  failed operations lose nothing.\<close>

theorem at_least_once:
  assumes "fan_inv fan" and "run_ok action_ok perform fan as" and "owes fan cid mid"
    and "run_ok (\<lambda>fan a. \<not> releases cid mid (event_of fan a)) perform fan as"
  shows "owes (fold perform as fan) cid mid"
  by (rule fan.run_stable [where P = "\<lambda>fan. owes fan cid mid", OF _ assms]) (rule owes_step)

theorem at_least_once_witness: "owes (fold perform demo_run demo_ready) 1 1"
proof (rule at_least_once [OF demo_inv(2) demo_run_ok])
  show "owes demo_ready 1 1" by code_simp
  show "run_ok (\<lambda>fan a. \<not> releases 1 1 (event_of fan a)) perform demo_ready demo_run" by code_simp
qed

text \<open>C2: the operations implement the inboxes.
  Along every run from a reachable store, the inboxes read off the database are those that
  the specification computes from the events: publishing deposits into accepting inboxes
  with a matching filter, acknowledging settles, archiving and redriving move between the
  two halves, and claims, releases, extensions and pruning are invisible.\<close>

theorem operations_implement_inboxes:
  assumes "reachable config fan" and "run_ok action_ok perform fan as"
  shows "inboxes (lf_pool (fold perform as fan))
    = fold apply_event (run_events event_of perform fan as) (inboxes (lf_pool fan))"
  by (rule fan.run_sim [OF reachable_inv_fan [OF assms(1)] assms(2)])

theorem operations_implement_inboxes_witness:
  "inboxes (lf_pool (fold perform demo_run demo_ready))
    = fold apply_event (run_events event_of perform demo_ready demo_run) (inboxes (lf_pool demo_ready))"
  by (rule operations_implement_inboxes [OF demo_reachable(2) demo_run_ok])

text \<open>C3: fan-out.
  A batch that returns \<open>Published\<close> for a message leaves every consumer that is not draining
  and whose filter selects the message's topic owing it.\<close>

theorem publish_reaches_matching_inboxes:
  assumes inv: "fan_inv fan" and E: "engine_ok E"
    and run: "publish_batch E clk ms fan = (Inr os, fan')"
    and m: "(Published (MessageId i), m) \<in> set (zip os ms)"
    and c: "c \<in> set (t_consumers (lf_pool fan))" "cr_draining_at c = None"
      "topic_matches (cr_topic_filter c) (pb_topic m)"
  shows "owes fan' (cr_id c) i"
proof -
  have "(i, pb_topic m) \<in> posted_by os ms"
    using m by (force simp: posted_by_def List.map_filter_def)
  moreover have "inboxes (lf_pool fan) (cr_id c) = Some (inbox_of (lf_pool fan) c)"
    by (rule inboxes_row [OF db_invD(2) [OF fan_invD(1) [OF inv]] c(1)])
  moreover have "inboxes (lf_pool fan') = apply_event (Posted (posted_by os ms)) (inboxes (lf_pool fan))"
    using perform_simulates [OF inv, of "DoPublish E clk ms"] E run by simp
  ultimately show ?thesis using c(2,3) by (force simp: owes_def deposit_def inbox_of_def)
qed

theorem publish_reaches_matching_inboxes_witness:
  "owes (snd (publish_batch reversing_engine demo_clock [with_topic ''t'' (publish_new [7])] demo_ready)) 1 3"
proof -
  have "fst (publish_batch reversing_engine demo_clock [with_topic ''t'' (publish_new [7])] demo_ready)
      = Inr [Published (MessageId 3)]" by code_simp
  from publish_reaches_matching_inboxes [OF demo_inv(2) reversing_engine_ok known_result [OF this],
      where i = 3 and m = "with_topic ''t'' (publish_new [7])" and c = demo_row]
  show ?thesis by (simp add: demo_rows topic_matches_def)
qed

text \<open>C4: a claim hands out all that is owed.
  When every delivery of a consumer is due and the batch has room for everything outstanding,
  the lease transaction hands out exactly the owed messages.\<close>

theorem claim_hands_out_all_owed:
  assumes inv: "fan_inv fan" and E: "engine_ok E" and c: "c \<in> set (t_consumers (lf_pool fan))" "cr_id c = co_id self"
    and due: "\<forall>d \<in> set (deliveries_of (lf_pool fan) (cr_id c)). dr_visible_at d \<le> now"
    and room: "outstanding_of (lf_pool fan) c \<le> n" "n \<le> lf_max_batch_size fan" "attempt_room (lf_pool fan) (co_id self) now n"
  shows "\<exists>leases messages draining db'.
     claim_txn E self n now v (lf_pool fan) = Inr ((leases, messages, draining), db') \<and>
     ls_message_id ` set leases = owed (lf_pool fan) c"
proof -
  let ?db = "lf_pool fan"
  have n: "int n \<le> i64_max" using room(2) fan_invD(4) [OF inv] by linarith
  let ?D = "sort_key (\<lambda>d. (dr_visible_at d, dr_message_id d)) (deliveries_of ?db (cr_id c))"
  have len: "length ?D + length (unscanned ?db c) \<le> n" using room(1) by (simp add: outstanding_of_def)
  have "filter (\<lambda>d. dr_visible_at d \<le> now) (deliveries_of ?db (cr_id c)) = deliveries_of ?db (cr_id c)"
    using due by (intro filter_True) auto
  then have R: "ready_rows ?db (cr_id c) now n = ?D" using len by (simp add: ready_rows_def)
  then have "fresh_ids ?db c (claim_fresh ?db c now n) = map mr_id (unscanned ?db c)"
    using len by (simp add: fresh_ids_def claim_fresh_def)
  with R have "ls_message_id ` set (claimed_leases c now v n ?db) = owed ?db c"
    using claimed_ids [of c now v n ?db] by (simp add: owed_def)
  with claim_txn_eq [OF E fan_invD(1) [OF inv] c n room(3), of v] show ?thesis by simp
qed

theorem claim_hands_out_all_owed_witness:
  "\<exists>leases messages draining db'.
     claim_txn reversing_engine demo_worker 10 1000 31000 (lf_pool demo_ready) = Inr ((leases, messages, draining), db') \<and>
     ls_message_id ` set leases = owed (lf_pool demo_ready) demo_row"
proof (rule claim_hands_out_all_owed [OF demo_inv(2) reversing_engine_ok])
  show "demo_row \<in> set (t_consumers (lf_pool demo_ready))" "cr_id demo_row = co_id demo_worker"
    by (simp_all add: demo_rows demo_worker_def)
  show "\<forall>d \<in> set (deliveries_of (lf_pool demo_ready) (cr_id demo_row)). dr_visible_at d \<le> 1000"
    "outstanding_of (lf_pool demo_ready) demo_row \<le> 10" "10 \<le> lf_max_batch_size demo_ready"
    "attempt_room (lf_pool demo_ready) (co_id demo_worker) 1000 10"
    by code_simp+
qed

text \<open>C5: a lease is exclusive.
  A message handed out by a claim is not handed out again to this consumer by any claim made
  before the lease's deadline, whatever other operations run in between, unless the lease's own
  receipt is used up or the consumer is deleted.\<close>

theorem lease_exclusive:
  assumes inv: "fan_inv fan" and E: "engine_ok E" "n \<le> lf_max_batch_size fan"
    and first: "fst (transaction (claim_txn E self n now v) (lf_pool fan)) = Inr (leases, messages, draining)"
      "l \<in> set leases"
    and run: "run_ok action_ok perform (perform (DoClaim E self n now v) fan) as"
      "run_ok (\<lambda>fan a. \<not> disturbs (co_id self) (ls_message_id l) (ls_generation l) v (lf_pool fan) a)
         perform (perform (DoClaim E self n now v) fan) as"
    and second: "engine_ok E'" "int n' \<le> i64_max" "co_id self' = co_id self" "now' < v"
      "fst (transaction (claim_txn E' self' n' now' v')
         (lf_pool (fold perform as (perform (DoClaim E self n now v) fan)))) = Inr (leases', messages', draining')"
  shows "ls_message_id l \<notin> ls_message_id ` set leases'"
proof -
  let ?fan1 = "perform (DoClaim E self n now v) fan"
  let ?L = "\<lambda>fan. leased (co_id self) (ls_message_id l) (ls_generation l) v (lf_pool fan)"
  have inv1: "fan_inv ?fan1" by (rule perform_inv [OF inv]) (simp add: E)
  have "int n \<le> i64_max" using E(2) fan_invD(4) [OF inv] by linarith
  from E(1) fan_invD(1) [OF inv] this first(1) obtain c where "c \<in> set (t_consumers (lf_pool fan))"
    "cr_id c = co_id self" "leases = claimed_leases c now v n (lf_pool fan)"
    "snd (transaction (claim_txn E self n now v) (lf_pool fan)) = claimed_db c now v n (lf_pool fan)"
    by (rule claim_committed)
  then have leased1: "?L ?fan1"
    using first claimed_leased [OF fan_invD(1) [OF inv], of c l now v n] by simp
  have held: "?L (fold perform as ?fan1)"
    by (rule fan.run_stable [where P = ?L, OF leased_perform inv1 run(1) leased1 run(2)])
  have inv2: "db_inv (lf_pool (fold perform as ?fan1))"
    by (rule fan_invD(1) [OF fan.run_inv [OF inv1 run(1)]])
  from second(1) inv2 second(2,5) obtain c where "c \<in> set (t_consumers (lf_pool (fold perform as ?fan1)))"
    "cr_id c = co_id self'" "leases' = claimed_leases c now' v' n' (lf_pool (fold perform as ?fan1))"
    by (rule claim_committed)
  with second(3) leased_not_claimed [OF inv2 _ _ held second(4), of c v' n'] show ?thesis by auto
qed

theorem lease_exclusive_witness:
  "1 \<notin> ls_message_id ` set [\<lparr>ls_message_id = 2, ls_generation = 3, ls_delivery_count = 2\<rparr>]"
proof -
  let ?as = "[DoNack demo_clock demo_worker [demo_receipt 2] Immediately]"
  let ?fan = "perform (DoClaim reversing_engine demo_worker 10 1000 31000) demo_ready"
  have first: "fst (transaction (claim_txn reversing_engine demo_worker 10 1000 31000) (lf_pool demo_ready))
      = Inr ([fresh_lease 1, fresh_lease 2], messages_named (lf_pool demo_ready) [1, 2], False)" by code_simp
  have calm: "run_ok (\<lambda>fan a. \<not> disturbs (co_id demo_worker) (ls_message_id (fresh_lease 1))
      (ls_generation (fresh_lease 1)) 31000 (lf_pool fan) a) perform ?fan ?as" by code_simp
  have second: "fst (transaction (claim_txn reversing_engine demo_worker 10 2000 32000) (lf_pool (fold perform ?as ?fan)))
      = Inr ([\<lparr>ls_message_id = 2, ls_generation = 3, ls_delivery_count = 2\<rparr>],
             messages_named (lf_pool demo_ready) [2], False)" by code_simp
  have ids: "ls_message_id (fresh_lease 1) = 1" by simp
  show ?thesis
    using lease_exclusive [OF demo_inv(2) reversing_engine_ok _ first _ _ calm reversing_engine_ok _ refl _ second]
    by (simp add: demo_batch_sizes i64_max_def)
qed

text \<open>C9: a stale receipt stays stale.
  Once the attempt a receipt was issued for has ended, the receipt never matches a delivery
  again and acknowledging it reports false and changes nothing, as long as nobody redrives the
  message from the archive.\<close>

theorem stale_receipt_stays_stale:
  assumes inv: "fan_inv fan" and cur: "current r (lf_pool fan)"
    and run: "run_ok action_ok perform fan (as @ bs)"
      "run_ok (\<lambda>fan a. \<not> redrives r fan a) perform fan (as @ bs)"
    and ended: "\<not> current r (lf_pool (fold perform as fan))"
  shows "ack self r (fold perform (as @ bs) fan) = (Inr False, fold perform (as @ bs) fan)"
proof -
  let ?mid = "fold perform as fan"
  have run': "run_ok action_ok perform fan as" "run_ok action_ok perform ?mid bs"
    "run_ok (\<lambda>fan a. \<not> redrives r fan a) perform fan as" "run_ok (\<lambda>fan a. \<not> redrives r fan a) perform ?mid bs"
    using run by (simp_all add: run_ok_append)
  have "spent (earlier r) (lf_pool ?mid)"
    using current_earlier_spent [OF fan_invD(1) [OF inv] cur]
    by (rule spent_run [OF inv run'(1)]) (simp add: run'(3))
  from earlier_spent_not_current [OF this ended]
  have "spent r (lf_pool (fold perform bs ?mid))"
    by (rule spent_run [OF fan.run_inv [OF inv run'(1)] run'(2) _ run'(4)])
  then have "\<not> current r (lf_pool (fold perform (as @ bs) fan))"
    by (simp add: spent_not_current)
  with fan.run_inv [OF inv run(1)] show ?thesis by (rule ack_not_current)
qed

theorem stale_receipt_stays_stale_witness:
  "ack demo_worker (demo_receipt 1) (fold perform ([DoNack demo_clock demo_worker [demo_receipt 1] Immediately]
      @ [DoClaim reversing_engine demo_worker 10 2000 32000]) demo_leased)
   = (Inr False, fold perform ([DoNack demo_clock demo_worker [demo_receipt 1] Immediately]
      @ [DoClaim reversing_engine demo_worker 10 2000 32000]) demo_leased)"
proof (rule stale_receipt_stays_stale [OF demo_inv(3)])
  show "current (demo_receipt 1) (lf_pool demo_leased)" by code_simp
  show "\<not> current (demo_receipt 1) (lf_pool (fold perform [DoNack demo_clock demo_worker [demo_receipt 1] Immediately]
    demo_leased))" by code_simp
  have "lf_max_batch_size (perform (DoNack demo_clock demo_worker [demo_receipt 1] Immediately) demo_leased) = 500"
    by code_simp
  then show "run_ok action_ok perform demo_leased ([DoNack demo_clock demo_worker [demo_receipt 1] Immediately]
      @ [DoClaim reversing_engine demo_worker 10 2000 32000])" by (simp del: perform.simps)
  show "run_ok (\<lambda>fan a. \<not> redrives (demo_receipt 1) fan a) perform demo_leased
     ([DoNack demo_clock demo_worker [demo_receipt 1] Immediately]
      @ [DoClaim reversing_engine demo_worker 10 2000 32000])" by code_simp
qed

text \<open>C20: draining is final.
  Once a consumer drains, the messages it has left, leased, waiting, ahead of its cursor or
  archived, never grow again, whatever is published or redriven.\<close>

theorem draining_is_final:
  assumes inv: "fan_inv fan" and draining: "draining_within cid work fan"
    and run: "run_ok action_ok perform fan as"
    and alive: "run_ok (\<lambda>fan a. inboxes (lf_pool fan) cid \<noteq> None) perform fan as"
  shows "draining_within cid work (fold perform as fan)"
  by (rule fan.run_stable [where P = "draining_within cid work", OF draining_step inv run draining alive])

theorem draining_is_final_witness:
  "draining_within 1 {1, 2} (fold perform [DoPublish reversing_engine demo_clock demo_publishes]
     (perform (DoDrain demo_clock demo_worker) demo_leased))"
proof (rule draining_is_final)
  show "fan_inv (perform (DoDrain demo_clock demo_worker) demo_leased)"
    by (rule perform_inv [OF demo_inv(3)]) simp
  show "draining_within 1 {1, 2} (perform (DoDrain demo_clock demo_worker) demo_leased)" by code_simp
  show "run_ok action_ok perform (perform (DoDrain demo_clock demo_worker) demo_leased)
     [DoPublish reversing_engine demo_clock demo_publishes]" by simp
  have "inboxes (lf_pool (perform (DoDrain demo_clock demo_worker) demo_leased)) 1 \<noteq> None" by code_simp
  then show "run_ok (\<lambda>fan a. inboxes (lf_pool fan) 1 \<noteq> None) perform (perform (DoDrain demo_clock demo_worker) demo_leased)
     [DoPublish reversing_engine demo_clock demo_publishes]" by simp
qed

text \<open>C7: a key published once is a duplicate for the whole window.
  When a batch published a message under a key at time \<open>t\<close>, every message with that key that is
  accepted before \<open>t\<close> plus the idempotency window, in any later batch, returns
  \<open>Duplicate\<close> with the first message's id, whatever ran in between.\<close>

theorem republish_is_duplicate:
  assumes inv: "fan_inv fan" and E: "engine_ok E" "engine_ok E'"
    and first: "publish_batch E clk ms fan = (Inr os, fan1)" "now_ms clk = Inr t"
      "(Published (MessageId i), m) \<in> set (zip os ms)" "pb_idempotency_key m = Some k"
    and run: "run_ok action_ok perform fan1 as"
      "run_ok (\<lambda>_ a. \<not> publishes_after (t + lf_idempotency_window_ms fan) a) perform fan1 as"
    and second: "publish_batch E' clk' ms' (fold perform as fan1) = (Inr os', fan2)" "now_ms clk' = Inr t'"
      "t' < t + lf_idempotency_window_ms fan" "(x, m') \<in> set (zip os' ms')" "pb_idempotency_key m' = Some k"
  shows "x = Duplicate (MessageId i)"
proof -
  let ?u = "t + lf_idempotency_window_ms fan" and ?fan' = "fold perform as fan1"
  note db = fan_invD(1) [OF inv]
  from first(3) have "ms \<noteq> []" by auto
  from first(1) obtain t0 ps L' where t0: "now_ms clk = Inr t0"
    and ref: "publish_each (live_ledger t0 (lf_pool fan)) (seq_messages (lf_pool fan)) ms = (os, ps, L')"
    and cap: "seq_messages (lf_pool fan) + int (length ps) \<le> i64_max"
    and fan1: "fan1 = fan\<lparr>lf_pool := published_db E t0 (t0 + lf_idempotency_window_ms fan) ms (lf_pool fan),
               lf_signals := wake_publishes ps (lf_signals fan)\<rparr>"
    by (rule publish_batch_Inr [OF inv E(1) \<open>ms \<noteq> []\<close>])
  then have [simp]: "t0 = t" using first(2) by simp
  have L': "live_ledger t (lf_pool fan) k = None" "L' k = Some i"
    using publish_each_published [OF ref first(3,4)] by simp_all
  have m: "m \<in> set ms" using first(3) by (auto dest: set_zip_rightD)
  then have keyed: "\<not> batch_unkeyed ms" using first(4) by (auto simp: batch_unkeyed_def)
  have "k \<in> set (reserved_keys E t ms (lf_pool fan))"
    using m first(4) L'(1) batch_keys_facts(2) [OF E(1), of ms] by (auto simp: reserved_keys_def)
  then have "ledger_entry ?u L' k \<in> set (t_idempotency (lf_pool fan1))"
    using keyed ref by (simp add: fan1 published_db_def keyed_result_ref)
  then have "remembered k i ?u (lf_pool fan1)"
    unfolding remembered_def by (rule bexI [rotated]) (simp add: ledger_entry_def L'(2))
  moreover have inv1: "fan_inv fan1" by (rule publish_batch_inv [OF inv E(1) first(1)])
  ultimately have rem: "remembered k i ?u (lf_pool ?fan')"
    by (intro fan.run_stable [where P = "\<lambda>fan. remembered k i ?u (lf_pool fan)", OF remembered_perform inv1 run(1) _ run(2)])
  have inv2: "fan_inv ?fan'" by (rule fan.run_inv [OF inv1 run(1)])
  from second(4) have "ms' \<noteq> []" by auto
  from second(1) obtain t1 ps' L'' where "now_ms clk' = Inr t1"
    and ref': "publish_each (live_ledger t1 (lf_pool ?fan')) (seq_messages (lf_pool ?fan')) ms' = (os', ps', L'')"
    by (rule publish_batch_Inr [OF inv2 E(2) \<open>ms' \<noteq> []\<close>])
  then have [simp]: "t1 = t'" using second(2) by simp
  from rem obtain r where "r \<in> set (t_idempotency (lf_pool ?fan'))" "ir_key r = k" "ir_message_id r = Some i" "?u \<le> ir_expires_at r"
    by (auto simp: remembered_def)
  then have "live_ledger t' (lf_pool ?fan') k = Some i"
    using live_ledger_SomeI [OF db_invD(5) [OF fan_invD(1) [OF inv2]], of r t'] second(3) by auto
  with publish_each_known [OF ref' second(4,5)] show ?thesis by simp
qed

theorem republish_is_duplicate_witness:
  "hd (projr (fst (demo_again 2000000000))) = Duplicate (MessageId 3)"
proof (rule republish_is_duplicate [OF demo_inv(2) reversing_engine_ok reversing_engine_ok demo_first])
  show "now_ms demo_clock = Inr 1000" "now_ms 2000000000 = Inr 2000" by code_simp+
  show "(Published (MessageId 3), demo_key) \<in> set (zip [Published (MessageId 3)] [demo_key])" by simp
  show "pb_idempotency_key demo_key = Some [9]" "pb_idempotency_key demo_key = Some [9]"
    by (simp_all add: demo_key_def with_idempotency_key_def)
  show "run_ok action_ok perform demo_keyed demo_pause" by (rule demo_pause_ok)
  show "run_ok (\<lambda>_ a. \<not> publishes_after (1000 + lf_idempotency_window_ms demo_ready) a) perform demo_keyed demo_pause"
    by (simp add: demo_pause_def)
  have "fst (demo_again 2000000000) = Inr [hd (projr (fst (demo_again 2000000000)))]" by code_simp
  then show "demo_again 2000000000 = (Inr [hd (projr (fst (demo_again 2000000000)))], snd (demo_again 2000000000))"
    by (rule known_result)
  show "2000 < 1000 + lf_idempotency_window_ms demo_ready" by code_simp
  show "(hd (projr (fst (demo_again 2000000000))), demo_key)
      \<in> set (zip [hd (projr (fst (demo_again 2000000000)))] [demo_key])" by simp
qed

text \<open>C38: a redrive restarts the generations.
  After a redrive the next claim of the message has generation one again, whatever generations
  the message had before it was archived. A receipt of generation one from before the archive
  therefore acknowledges the new attempt.\<close>

theorem redrive_revives_receipt:
  assumes inv: "fan_inv fan" and E: "engine_ok E" "engine_ok E'" and n: "n \<le> lf_max_batch_size fan1"
    and a: "a \<in> set (t_archives (lf_pool fan))" "ar_consumer_id a = co_id self"
    and redrive: "redrive_batch E clk self [ArchiveId (ar_id a)] retry fan = (Inr b, fan1)"
    and claim: "fst (transaction (claim_txn E' self n now v) (lf_pool fan1)) = Inr (leases, messages, draining)"
      "ar_message_id a \<in> ls_message_id ` set leases"
  shows "fst (ack self \<lparr>rc_consumer_id = co_id self, rc_message_id = ar_message_id a, rc_generation = 1\<rparr>
      (perform (DoClaim E' self n now v) fan1)) = Inr True"
proof (rule ack_current)
  have fan1: "fan1 = perform (DoRedrive E clk self [ArchiveId (ar_id a)] retry) fan" using redrive by simp
  have inv1: "fan_inv fan1" unfolding fan1 by (rule perform_inv [OF inv]) (simp add: E)
  show "fan_inv (perform (DoClaim E' self n now v) fan1)"
    by (rule perform_inv [OF inv1]) (simp add: E n)
  obtain w mids where mids: "mset mids = mset (archived_messages (co_id self) [ArchiveId (ar_id a)] (lf_pool fan))"
    "lf_pool fan1 = redriven_db (co_id self) w [ArchiveId (ar_id a)] mids (lf_pool fan)"
    using pool_redrive [OF E(1) inv redrive] by blast
  have "ar_message_id a \<in> set mids"
    using mset_eq_setD [OF mids(1)] a by (auto simp: archived_messages_def redrive_clause_def)
  then have d: "redriven_row (co_id self) w (ar_message_id a) \<in> set (t_deliveries (lf_pool fan1))"
    by (simp add: mids(2))
  have "int n \<le> i64_max" using n fan_invD(4) [OF inv1] by linarith
  from E(2) fan_invD(1) [OF inv1] this claim(1) obtain c where c: "c \<in> set (t_consumers (lf_pool fan1))"
    "cr_id c = co_id self" "leases = claimed_leases c now v n (lf_pool fan1)"
    and db: "snd (transaction (claim_txn E' self n now v) (lf_pool fan1)) = claimed_db c now v n (lf_pool fan1)"
    by (rule claim_committed)
  from claim(2) c(3) obtain l where l: "l \<in> set (claimed_leases c now v n (lf_pool fan1))" "ls_message_id l = ar_message_id a"
    by auto
  have "ls_generation l = 1"
    using claimed_generation [OF fan_invD(1) [OF inv1] c(1) d _ l(1)] c(2) l(2) by (simp add: redriven_row_def)
  then show "current \<lparr>rc_consumer_id = co_id self, rc_message_id = ar_message_id a, rc_generation = 1\<rparr>
      (lf_pool (perform (DoClaim E' self n now v) fan1))"
    using claimed_leased [OF fan_invD(1) [OF inv1] c(1) l(1)] c(2) l(2) db
    by (auto simp: current_def leased_def receipt_key_def)
qed simp

theorem redrive_revives_receipt_witness:
  "fst (ack demo_worker (demo_receipt 1) (perform (DoClaim reversing_engine demo_worker 10 40000 70000)
     (perform (DoRedrive reversing_engine demo_clock demo_worker [ArchiveId 1] Immediately) demo_archived))) = Inr True"
proof -
  let ?a = "\<lparr>ar_id = 1, ar_consumer_id = 1, ar_message_id = 1, ar_archived_at = 1000, ar_delivery_count = 1,
     ar_last_generation = 1, ar_detail = Some ''bad''\<rparr>"
  let ?redrive = "redrive_batch reversing_engine demo_clock demo_worker [ArchiveId 1] Immediately demo_archived"
  have a: "?a \<in> set (t_archives (lf_pool demo_archived))" by code_simp
  have r: "fst ?redrive = Inr \<lparr>br_applied = 1, br_stale = 0\<rparr>" by code_simp
  have c: "fst (transaction (claim_txn reversing_engine demo_worker 10 40000 70000) (lf_pool (snd ?redrive)))
      = Inr ([fresh_lease 1], messages_named (lf_pool (snd ?redrive)) [1], False)" by code_simp
  have n: "10 \<le> lf_max_batch_size (snd ?redrive)" by code_simp
  show ?thesis
    using redrive_revives_receipt [OF demo_archived_inv reversing_engine_ok reversing_engine_ok n a _ _ c] known_result [OF r]
    by (simp add: demo_worker_def demo_receipt_def)
qed

text \<open>C17: archive and redrive are inverse.
  Redriving the archives that an archiving batch created gives every consumer back exactly the
  owed and archived messages it had.\<close>

theorem archive_redrive_roundtrip:
  assumes inv: "fan_inv fan" and E: "engine_ok E" "engine_ok E'"
    and archive: "archive_batch_with_detail E clk self rs detail fan = (Inr b, fan1)"
    and redrive: "redrive_batch E' clk' self (map ArchiveId
        [seq_archives (lf_pool fan) + 1..seq_archives (lf_pool fan1)]) retry fan1 = (Inr b', fan2)"
  shows "inboxes (lf_pool fan2) = inboxes (lf_pool fan)"
proof -
  let ?db = "lf_pool fan" and ?cid = "co_id self"
  let ?ids = "map ArchiveId [seq_archives (lf_pool fan) + 1..seq_archives (lf_pool fan1)]"
  let ?a = "DoArchive E clk self rs detail" and ?r = "DoRedrive E' clk' self ?ids retry"
  have fan1: "fan1 = perform ?a fan" using archive by simp
  have inv1: "fan_inv fan1" unfolding fan1 by (rule perform_inv [OF inv]) (simp add: E)
  have ev1: "event_of fan ?a = Shelved ?cid (held_ids ?cid rs ?db)" using archive by simp
  from E(1) inv archive have "named_ids ?cid ?ids (lf_pool fan1) = held_ids ?cid rs ?db"
  proof (cases rule: pool_archive)
    case empty
    then show ?thesis by (simp add: named_ids_def redrive_clause_def)
  next
    case (moved t)
    then show ?thesis using named_archived [OF fan_invD(1) [OF inv]] by simp
  qed
  then have ev2: "event_of fan1 ?r = Restored ?cid (held_ids ?cid rs ?db)" using redrive by simp
  have "inboxes (lf_pool fan2) = apply_event (event_of fan1 ?r) (apply_event (event_of fan ?a) (inboxes ?db))"
    using perform_simulates [OF inv, of ?a] perform_simulates [OF inv1, of ?r] E redrive fan1 by simp
  also have "\<dots> = inboxes ?db"
  proof (cases "inboxes ?db ?cid")
    case None
    then show ?thesis unfolding ev1 ev2 by (simp add: update_inbox_def fun_upd_idem)
  next
    case (Some box)
    then obtain c where c: "c \<in> set (t_consumers ?db)" "cr_id c = ?cid" "box = inbox_of ?db c"
      using inboxes_Some [OF db_invD(2) [OF fan_invD(1) [OF inv]]] by blast
    have "held_ids ?cid rs ?db \<subseteq> ib_owed box" by (rule shelved_from_owed [OF inv ev1 Some])
    moreover have "held_ids ?cid rs ?db \<inter> ib_archived box = {}"
      using exclusive_keys [OF fan_invD(1) [OF inv]] c(2)
      by (auto simp: c(3) inbox_of_def held_ids_def archives_of_def receipt_clause_def)
    ultimately have "box\<lparr>ib_owed := ib_owed box - held_ids ?cid rs ?db \<union> held_ids ?cid rs ?db,
        ib_archived := ib_archived box \<union> held_ids ?cid rs ?db - held_ids ?cid rs ?db\<rparr> = box"
      by (cases box) auto
    with Some show ?thesis unfolding ev1 ev2 by (simp add: update_inbox_def fun_upd_idem)
  qed
  finally show ?thesis .
qed

theorem archive_redrive_roundtrip_witness:
  "inboxes (lf_pool (perform (DoRedrive reversing_engine demo_clock demo_worker
      [ArchiveId 1, ArchiveId 2] Immediately) demo_archived)) = inboxes (lf_pool demo_leased)"
proof -
  let ?archive = "archive_batch_with_detail reversing_engine demo_clock demo_worker
    [demo_receipt 2, demo_receipt 1] (Some ''bad'') demo_leased"
  let ?redrive = "redrive_batch reversing_engine demo_clock demo_worker [ArchiveId 1, ArchiveId 2] Immediately demo_archived"
  have r: "fst ?archive = Inr \<lparr>br_applied = 2, br_stale = 0\<rparr>" "fst ?redrive = Inr \<lparr>br_applied = 2, br_stale = 0\<rparr>"
    "map ArchiveId [seq_archives (lf_pool demo_leased) + 1..seq_archives (lf_pool demo_archived)] = [ArchiveId 1, ArchiveId 2]"
    by code_simp+
  have run1: "?archive = (Inr \<lparr>br_applied = 2, br_stale = 0\<rparr>, demo_archived)"
    using known_result [OF r(1)] by (simp add: demo_archived_def)
  show ?thesis
    using archive_redrive_roundtrip [OF demo_inv(3) reversing_engine_ok reversing_engine_ok run1, unfolded r(3),
      OF known_result [OF r(2)]] by simp
qed



text \<open>C32: an expired key publishes again.
  Once the window of a key has ended, a message with this key is published as a new message and
  its id is remembered for the next window.\<close>

theorem expired_key_publishes_again:
  assumes inv: "fan_inv fan" and E: "engine_ok E"
    and key: "pb_idempotency_key m = Some k" and t: "now_ms clk = Inr t"
    and expired: "\<forall>r \<in> set (t_idempotency (lf_pool fan)). ir_key r = k \<longrightarrow> ir_expires_at r \<le> t"
    and run: "Publishing.publish E clk m fan = (Inr x, fan')"
  shows "x = Published (MessageId (seq_messages (lf_pool fan) + 1)) \<and>
    live_ledger t (lf_pool fan') k = Some (seq_messages (lf_pool fan) + 1)"
proof -
  obtain os where batch: "publish_batch E clk [m] fan = (Inr os, fan')" "hd os = x"
    using run by (auto simp: Publishing.publish_def split: sum.splits prod.splits)
  have none: "live_ledger t (lf_pool fan) k = None"
    using expired by (auto simp: live_ledger_None [OF db_invD(5) [OF fan_invD(1) [OF inv]]] purge_expired_idempotency_def)
  then have ref: "publish_each (live_ledger t (lf_pool fan)) (seq_messages (lf_pool fan)) [m]
      = ([Published (MessageId (seq_messages (lf_pool fan) + 1))], [m],
         (live_ledger t (lf_pool fan))(k \<mapsto> seq_messages (lf_pool fan) + 1))"
    using key by simp
  obtain t' ps L' where t': "now_ms clk = Inr t'"
    and ref': "publish_each (live_ledger t' (lf_pool fan)) (seq_messages (lf_pool fan)) [m] = (os, ps, L')"
    and cap: "seq_messages (lf_pool fan) + int (length ps) \<le> i64_max"
    and fan': "fan' = fan\<lparr>lf_pool := published_db E t' (t' + lf_idempotency_window_ms fan) [m] (lf_pool fan),
               lf_signals := wake_publishes ps (lf_signals fan)\<rparr>"
    by (rule publish_batch_Inr [OF inv E list.distinct(2) batch(1)]) (rule that)
  from t t' have [simp]: "t' = t" by simp
  have ref'': "publish_each (live_ledger t (lf_pool fan)) (seq_messages (lf_pool fan)) [m] = (os, ps, L')"
    using ref' by simp
  from ref ref'' have os: "os = [Published (MessageId (seq_messages (lf_pool fan) + 1))]"
    "L' = (live_ledger t (lf_pool fan))(k \<mapsto> seq_messages (lf_pool fan) + 1)" by simp_all
  have "t < t + lf_idempotency_window_ms fan" using fan_invD(5) [OF inv] by simp
  from published_ledger [OF fan_invD(1) [OF inv] E ref'' cap this]
  show ?thesis using batch(2) by (simp add: os fan')
qed

theorem expired_key_publishes_again_witness:
  "projr (fst (Publishing.publish reversing_engine 86401000000000 demo_key demo_keyed)) = Published (MessageId 4)"
proof -
  let ?p = "Publishing.publish reversing_engine 86401000000000 demo_key demo_keyed"
  have "fst ?p = Inr (projr (fst ?p))" by code_simp
  then have p: "?p = (Inr (projr (fst ?p)), snd ?p)" by (rule known_result)
  have k: "pb_idempotency_key demo_key = Some [9]" by (simp add: demo_key_def with_idempotency_key_def)
  have t: "now_ms 86401000000000 = Inr 86401000" by code_simp
  have old: "\<forall>r \<in> set (t_idempotency (lf_pool demo_keyed)). ir_key r = [9] \<longrightarrow> ir_expires_at r \<le> 86401000" by code_simp
  have "seq_messages (lf_pool demo_keyed) = 3" by code_simp
  with expired_key_publishes_again [OF demo_keyed_inv reversing_engine_ok k t old p] show ?thesis by simp
qed

text \<open>Message ids are never reused.
  A message published later has a greater id than any message published before, whatever ran in
  between, pruning included.\<close>

theorem message_ids_never_reused:
  assumes inv: "fan_inv fan" and E: "engine_ok E" "engine_ok E'"
    and first: "publish_batch E clk ms fan = (Inr os, fan1)" "Published (MessageId i) \<in> set os"
    and run: "run_ok action_ok perform fan1 as"
    and second: "publish_batch E' clk' ms' (fold perform as fan1) = (Inr os', fan2)" "Published (MessageId j) \<in> set os'"
  shows "i < j"
proof -
  have inv1: "fan_inv fan1" by (rule publish_batch_inv [OF inv E(1) first(1)])
  have inv2: "fan_inv (fold perform as fan1)" by (rule fan.run_inv [OF inv1 run])
  have ids: "seq_messages (lf_pool fan) < i \<and> i \<le> seq_messages (lf_pool fan')"
    if "fan_inv fan" "engine_ok E" "publish_batch E clk ms fan = (Inr os, fan')" "Published (MessageId i) \<in> set os"
    for fan E clk ms os fan' i
    using that(1,2)
  proof (cases rule: pool_publish [where ms = ms and clk = clk])
    case (published t os1 ps L')
    then have "os = os1" "lf_pool fan' = published_db E t (t + lf_idempotency_window_ms fan) ms (lf_pool fan)"
      using that(3) by (simp_all del: perform.simps)
    with that(4) publish_each_ids [OF published(1)] show ?thesis
      by (simp add: published_db_simps [OF published(1)])
  qed (use that in auto)
  from ids [OF inv E(1) first] have "i \<le> seq_messages (lf_pool fan1)" by simp
  from seq_messages_run [OF inv1 run this] ids [OF inv2 E(2) second] show ?thesis by simp
qed

theorem message_ids_never_reused_witness:
  "(3 :: int) < message_id_get (outcome_id (hd (projr (fst (demo_again 90000000000000)))))"
proof -
  have r: "fst (demo_again 90000000000000) = Inr [Published (MessageId (message_id_get (outcome_id (hd (projr (fst (demo_again 90000000000000)))))))]"
    by code_simp
  show ?thesis
    by (rule message_ids_never_reused [OF demo_inv(2) reversing_engine_ok reversing_engine_ok demo_first _ demo_pause_ok
          known_result [OF r]]) simp_all
qed

text \<open>C19: consumers are independent.
  Operations of other consumers, publishing and pruning leave a consumer's row, its deliveries and
  its archives exactly as they are.\<close>

theorem consumers_independent:
  assumes inv: "fan_inv fan" and run: "run_ok action_ok perform fan as"
    and c: "find_consumer cid (lf_pool fan) = Some c"
    and others: "run_ok (\<lambda>fan a. \<not> acts_on cid (lf_pool fan) a) perform fan as"
  shows "find_consumer cid (lf_pool (fold perform as fan)) = Some c \<and>
    deliveries_of (lf_pool (fold perform as fan)) cid = deliveries_of (lf_pool fan) cid \<and>
    archives_of (lf_pool (fold perform as fan)) cid = archives_of (lf_pool fan) cid"
proof -
  have "belongings cid (lf_pool (fold perform as fan)) = belongings cid (lf_pool fan)"
  proof (rule fan.run_stable [where P = "\<lambda>x. belongings cid (lf_pool x) = belongings cid (lf_pool fan)", OF _ inv run refl others])
    fix x a assume x: "fan_inv x" "action_ok x a" "belongings cid (lf_pool x) = belongings cid (lf_pool fan)"
      "\<not> acts_on cid (lf_pool x) a"
    then have "find_consumer cid (lf_pool x) = Some c" using c by (simp add: belongings_def)
    from belongings_perform [OF x(1,2) this x(4)] x(3)
    show "belongings cid (lf_pool (perform a x)) = belongings cid (lf_pool fan)" by simp
  qed
  then show ?thesis using c by (simp add: belongings_def)
qed

theorem consumers_independent_witness:
  "deliveries_of (lf_pool (fold perform demo_other_run demo_leased)) 1 = deliveries_of (lf_pool demo_leased) 1"
proof -
  have "find_consumer 1 (lf_pool demo_leased) = Some (demo_row\<lparr>cr_scan_cursor := 2\<rparr>)" by code_simp
  moreover have "run_ok action_ok perform demo_leased demo_other_run"
  proof -
    have "lf_max_batch_size (perform (DoPublish reversing_engine demo_clock demo_publishes)
        (perform (DoOpen reversing_engine demo_clock (consumer_builder_new ''v'')) demo_leased)) = 500" by code_simp
    then show ?thesis unfolding demo_other_run_def by (simp del: perform.simps)
  qed
  moreover have "run_ok (\<lambda>fan a. \<not> acts_on 1 (lf_pool fan) a) perform demo_leased demo_other_run" by code_simp
  ultimately show ?thesis using consumers_independent [OF demo_inv(3)] by blast
qed

text \<open>C10: the store stays well formed.
  In every reachable store, through any operations, restarts and failures, names and keys are
  unique, every delivery and every archive belongs to an existing consumer and a retained message
  that the consumer's filter selects and its cursor has passed, no message is both delivered and
  archived for one consumer, and no cursor runs past the log or past the drain boundary.\<close>

theorem reachable_store_well_formed:
  assumes "reachable config fan"
  shows "distinct (map cr_name (t_consumers (lf_pool fan))) \<and>
    sorted_wrt (<) (map mr_id (t_messages (lf_pool fan))) \<and>
    distinct (map dr_key (t_deliveries (lf_pool fan)) @ map ar_key (t_archives (lf_pool fan))) \<and>
    (\<forall>(cid, mid) \<in> dr_key ` set (t_deliveries (lf_pool fan)) \<union> ar_key ` set (t_archives (lf_pool fan)).
       \<exists>c \<in> set (t_consumers (lf_pool fan)). \<exists>m \<in> set (t_messages (lf_pool fan)).
         cr_id c = cid \<and> mr_id m = mid \<and> mid \<le> cr_scan_cursor c \<and>
         topic_matches (cr_topic_filter c) (mr_topic m)) \<and>
    (\<forall>c \<in> set (t_consumers (lf_pool fan)). cr_name c \<noteq> [] \<and> (cr_draining_at c = None \<longleftrightarrow> cr_drain_cursor c = None) \<and>
       cr_scan_cursor c \<le> (case cr_drain_cursor c of None \<Rightarrow> seq_messages (lf_pool fan) | Some d \<Rightarrow> d))"
proof -
  note inv = db_invD [OF fan_invD(1) [OF reachable_inv_fan [OF assms]]]
  have keys: "\<exists>c \<in> set (t_consumers (lf_pool fan)). \<exists>m \<in> set (t_messages (lf_pool fan)).
      cr_id c = cid \<and> mr_id m = mid \<and> mid \<le> cr_scan_cursor c \<and> topic_matches (cr_topic_filter c) (mr_topic m)"
    if "(cid, mid) \<in> dr_key ` set (t_deliveries (lf_pool fan)) \<union> ar_key ` set (t_archives (lf_pool fan))" for cid mid
    using that inv(3,4) by (force simp: deliveries_inv_def archives_inv_def dr_key_def ar_key_def passed_def)
  have rows: "cr_name c \<noteq> [] \<and> (cr_draining_at c = None \<longleftrightarrow> cr_drain_cursor c = None) \<and>
      cr_scan_cursor c \<le> (case cr_drain_cursor c of None \<Rightarrow> seq_messages (lf_pool fan) | Some d \<Rightarrow> d)"
    if "c \<in> set (t_consumers (lf_pool fan))" for c
    using inv(2) that by (auto simp: consumers_inv_def consumer_row_inv_def split: option.splits)
  have "distinct (map dr_key (t_deliveries (lf_pool fan)) @ map ar_key (t_archives (lf_pool fan)))"
    using inv(3,4,6) by (simp add: deliveries_inv_def archives_inv_def exclusive_def)
  moreover have "\<forall>(cid, mid) \<in> dr_key ` set (t_deliveries (lf_pool fan)) \<union> ar_key ` set (t_archives (lf_pool fan)).
      \<exists>c \<in> set (t_consumers (lf_pool fan)). \<exists>m \<in> set (t_messages (lf_pool fan)).
        cr_id c = cid \<and> mr_id m = mid \<and> mid \<le> cr_scan_cursor c \<and> topic_matches (cr_topic_filter c) (mr_topic m)"
    by (intro ballI, clarify) (rule keys)
  moreover have "distinct (map cr_name (t_consumers (lf_pool fan)))" "sorted_wrt (<) (map mr_id (t_messages (lf_pool fan)))"
    using inv(1,2) by (simp_all add: messages_inv_def consumers_inv_def)
  moreover have "\<forall>c \<in> set (t_consumers (lf_pool fan)). cr_name c \<noteq> [] \<and> (cr_draining_at c = None \<longleftrightarrow> cr_drain_cursor c = None) \<and>
      cr_scan_cursor c \<le> (case cr_drain_cursor c of None \<Rightarrow> seq_messages (lf_pool fan) | Some d \<Rightarrow> d)"
    using rows by (rule ballI)
  ultimately show ?thesis by (intro conjI)
qed

theorem reachable_store_well_formed_witness:
  "distinct (map cr_name (t_consumers (lf_pool demo_leased)))"
  using reachable_store_well_formed [OF demo_reachable(3)] by simp

text \<open>C31: stored counters fit their columns.
  In every reachable store no row counts more attempts than its generation, every id is positive
  and at most the last one its table or the log has given, every cursor, the drain boundary
  too, lies between the start and the end of the log in order, and all of them are non-negative
  64-bit integers, as the Rust types that read them demand.\<close>

theorem stored_counters_fit:
  assumes "reachable config fan"
  shows "(let db = lf_pool fan in
    (\<forall>n \<in> {seq_messages db, seq_consumers db, seq_archives db}. 0 \<le> n \<and> in_i64 n) \<and>
    (\<forall>m \<in> set (t_messages db). 0 < mr_id m \<and> mr_id m \<le> seq_messages db) \<and>
    (\<forall>r \<in> set (t_idempotency db). \<exists>i. ir_message_id r = Some i \<and> 0 < i \<and> i \<le> seq_messages db) \<and>
    (\<forall>c \<in> set (t_consumers db). 0 < cr_id c \<and> cr_id c \<le> seq_consumers db \<and>
       0 \<le> cr_scan_cursor c \<and> cr_scan_cursor c \<le> seq_messages db \<and>
       (\<forall>n. cr_drain_cursor c = Some n \<longrightarrow> cr_scan_cursor c \<le> n \<and> n \<le> seq_messages db)) \<and>
    (\<forall>d \<in> set (t_deliveries db). 0 < dr_consumer_id d \<and> dr_consumer_id d \<le> seq_consumers db \<and>
       0 < dr_message_id d \<and> dr_message_id d \<le> seq_messages db \<and>
       0 \<le> dr_delivery_count d \<and> dr_delivery_count d \<le> dr_generation d \<and> in_i64 (dr_generation d)) \<and>
    (\<forall>a \<in> set (t_archives db). 0 < ar_id a \<and> ar_id a \<le> seq_archives db \<and>
       0 < ar_consumer_id a \<and> ar_consumer_id a \<le> seq_consumers db \<and>
       0 < ar_message_id a \<and> ar_message_id a \<le> seq_messages db \<and>
       0 \<le> ar_delivery_count a \<and> ar_delivery_count a \<le> ar_last_generation a \<and> in_i64 (ar_last_generation a)))"
proof -
  let ?db = "lf_pool fan"
  have fit: "in_i64 x" if "0 \<le> x" "x \<le> i64_max" for x
    using that by (simp add: in_i64_def i64_min_def)
  note inv = db_invD [OF fan_invD(1) [OF reachable_inv_fan [OF assms]]]
  have attempts: "attempts_bounded ?db" using assms by (rule reachable_attempts)
  have passed: "0 < cid \<and> cid \<le> seq_consumers ?db \<and> 0 < mid \<and> mid \<le> seq_messages ?db"
    if "passed ?db cid mid" for cid mid
    using that inv(1,2) by (fastforce simp: passed_def messages_inv_def consumers_inv_def consumer_row_inv_def)
  show ?thesis
    unfolding Let_def
  proof (intro conjI)
    show "\<forall>n \<in> {seq_messages ?db, seq_consumers ?db, seq_archives ?db}. 0 \<le> n \<and> in_i64 n"
      using inv(1,2,4) by (auto simp: messages_inv_def consumers_inv_def archives_inv_def intro: fit)
    show "\<forall>m \<in> set (t_messages ?db). 0 < mr_id m \<and> mr_id m \<le> seq_messages ?db"
      using inv(1) by (simp add: messages_inv_def)
    show "\<forall>r \<in> set (t_idempotency ?db). \<exists>i. ir_message_id r = Some i \<and> 0 < i \<and> i \<le> seq_messages ?db"
      using inv(5) by (simp add: ledger_inv_def)
    show "\<forall>c \<in> set (t_consumers ?db). 0 < cr_id c \<and> cr_id c \<le> seq_consumers ?db \<and>
       0 \<le> cr_scan_cursor c \<and> cr_scan_cursor c \<le> seq_messages ?db \<and>
       (\<forall>n. cr_drain_cursor c = Some n \<longrightarrow> cr_scan_cursor c \<le> n \<and> n \<le> seq_messages ?db)"
      using inv(2) by (simp add: consumers_inv_def consumer_row_inv_def)
    show "\<forall>d \<in> set (t_deliveries ?db). 0 < dr_consumer_id d \<and> dr_consumer_id d \<le> seq_consumers ?db \<and>
       0 < dr_message_id d \<and> dr_message_id d \<le> seq_messages ?db \<and>
       0 \<le> dr_delivery_count d \<and> dr_delivery_count d \<le> dr_generation d \<and> in_i64 (dr_generation d)"
      (is "\<forall>d \<in> _. ?row d")
    proof
      fix d assume "d \<in> set (t_deliveries ?db)"
      then show "?row d"
        using inv(3) attempts passed [of "dr_consumer_id d" "dr_message_id d"]
        by (simp add: deliveries_inv_def attempts_bounded_def fit)
    qed
    show "\<forall>a \<in> set (t_archives ?db). 0 < ar_id a \<and> ar_id a \<le> seq_archives ?db \<and>
       0 < ar_consumer_id a \<and> ar_consumer_id a \<le> seq_consumers ?db \<and>
       0 < ar_message_id a \<and> ar_message_id a \<le> seq_messages ?db \<and>
       0 \<le> ar_delivery_count a \<and> ar_delivery_count a \<le> ar_last_generation a \<and> in_i64 (ar_last_generation a)"
      (is "\<forall>a \<in> _. ?row a")
    proof
      fix a assume "a \<in> set (t_archives ?db)"
      then show "?row a"
        using inv(4) attempts passed [of "ar_consumer_id a" "ar_message_id a"]
        by (simp add: archives_inv_def attempts_bounded_def fit)
    qed
  qed
qed

theorem stored_counters_fit_witness:
  "(case t_deliveries (lf_pool demo_leased) of d # _ \<Rightarrow> dr_delivery_count d \<le> dr_generation d | [] \<Rightarrow> False)"
proof -
  have "t_deliveries (lf_pool demo_leased) \<noteq> []" by code_simp
  then show ?thesis
    using stored_counters_fit [OF demo_reachable(3)]
    by (cases "t_deliveries (lf_pool demo_leased)") (simp_all add: Let_def)
qed

text \<open>C36: a failed operation changes nothing.
  Whatever error an operation returns, with no other process in between, the database and the
  registry of signals are as before.\<close>

theorem failed_operations_change_nothing:
  assumes inv: "fan_inv fan" and E: "engine_ok E" and n: "n \<le> lf_max_batch_size fan"
  shows "(\<forall>e. fst (publish_batch E clk ms fan) = Inl e \<longrightarrow> snd (publish_batch E clk ms fan) = fan) \<and>
   (\<forall>e. fst (open_consumer E clk b fan) = Inl e \<longrightarrow> snd (open_consumer E clk b fan) = fan) \<and>
   (\<forall>e. fst (begin_draining (\<lambda>db. db) clk self fan) = Inl e \<longrightarrow> snd (begin_draining (\<lambda>db. db) clk self fan) = fan) \<and>
   (\<forall>e. fst (claim E (\<lambda>db. db) (\<lambda>db. db) clk self n lease_ms fan) = Inl e \<longrightarrow>
      snd (claim E (\<lambda>db. db) (\<lambda>db. db) clk self n lease_ms fan) = fan) \<and>
   (\<forall>e. fst (ack_batch self rs fan) = Inl e \<longrightarrow> snd (ack_batch self rs fan) = fan) \<and>
   (\<forall>e. fst (nack_batch clk self rs retry fan) = Inl e \<longrightarrow> snd (nack_batch clk self rs retry fan) = fan) \<and>
   (\<forall>e. fst (extend_visibility_batch clk self rs timeout fan) = Inl e \<longrightarrow>
      snd (extend_visibility_batch clk self rs timeout fan) = fan) \<and>
   (\<forall>e. fst (archive_batch_with_detail E clk self rs detail fan) = Inl e \<longrightarrow>
      snd (archive_batch_with_detail E clk self rs detail fan) = fan) \<and>
   (\<forall>e. fst (redrive_batch E clk self ids retry fan) = Inl e \<longrightarrow> snd (redrive_batch E clk self ids retry fan) = fan) \<and>
   (\<forall>e. fst (purge_archives self purge fan) = Inl e \<longrightarrow> snd (purge_archives self purge fan) = fan) \<and>
   (\<forall>e. fst (delete_consumer name mode fan) = Inl e \<longrightarrow> snd (delete_consumer name mode fan) = fan) \<and>
   (\<forall>e. fst (prune_messages prune fan) = Inl e \<longrightarrow> snd (prune_messages prune fan) = fan)"
  using publish_op.failed_snd open_op.failed_snd ack_op.failed_snd nack_op.failed_snd extend_op.failed_snd
    archive_op.failed_snd redrive_op.failed_snd purge_op.failed_snd delete_op.failed_snd prune_op.failed_snd
    drain_failed [OF inv] claim_failed [OF E inv n]
  by (intro conjI allI impI) (simp_all add: prod_eq_iff)

theorem failed_operations_change_nothing_witness:
  "snd (delete_consumer ''x'' DiscardAll demo_leased) = demo_leased"
proof -
  have "fst (delete_consumer ''x'' DiscardAll demo_leased) = Inl (ConsumerNotFound ''x'')" by code_simp
  then show ?thesis
    using failed_operations_change_nothing [OF demo_inv(3) reversing_engine_ok le0, where name = "''x''" and mode = DiscardAll]
    by blast
qed

end
